(* ===== verification/Kernel_Prelude.thy ===== *)
theory Kernel_Prelude
  imports Main "HOL-Library.Word" "HOL-Library.Monad_Syntax" "HOL-Library.Multiset"
begin

text \<open>
  The vocabulary every theory of the development shares.

  A Rust function of the kernel is a HOL function into an \<open>option\<close> type wherever it can fail to
  produce a value: \<open>None\<close> is "no value", that is a panic (the panic handler of
  \<^verbatim>\<open>src/src/lang_items.rs\<close> never returns, so no state survives it) or a loop that never ends.
  A \<^verbatim>\<open>Result\<close> is a sum, \<open>Inl\<close> for \<^verbatim>\<open>Err\<close> and \<open>Inr\<close> for \<^verbatim>\<open>Ok\<close>. The makefile builds the debug
  profile, so \<^verbatim>\<open>+\<close>, \<^verbatim>\<open>-\<close> and \<^verbatim>\<open>*\<close> on \<^verbatim>\<open>usize\<close> panic on overflow: \<open>usize_add\<close>, \<open>usize_sub\<close> and
  \<open>usize_mul\<close> are those operators on \<open>nat\<close>, with the bound written out. Fixed-width values whose bits
  matter are words.

  The theory also holds the standard-library functions the sources call (indexing, slicing,
  \<^verbatim>\<open>leading_zeros\<close>, \<^verbatim>\<open>next_power_of_two\<close>, \<^verbatim>\<open>div_ceil\<close>, byte orders) with their laws, and the lemma
  collections the component proofs use.
\<close>

unbundle bit_operations_syntax

named_theorems rust_simps \<open>checked operations, unfolded\<close>

section \<open>Checked operations\<close>

type_synonym usize = nat
type_synonym u8 = "8 word"
type_synonym u32 = "32 word"
type_synonym u64 = "64 word"

definition usize_add :: "nat \<Rightarrow> nat \<Rightarrow> nat option" where
  "usize_add a b = (if a + b < 2 ^ 64 then Some (a + b) else None)"

definition usize_sub :: "nat \<Rightarrow> nat \<Rightarrow> nat option" where
  "usize_sub a b = (if b \<le> a then Some (a - b) else None)"

definition usize_mul :: "nat \<Rightarrow> nat \<Rightarrow> nat option" where
  "usize_mul a b = (if a * b < 2 ^ 64 then Some (a * b) else None)"

definition usize_shl :: "nat \<Rightarrow> nat \<Rightarrow> nat" where
  \<comment> \<open>a shift by less than 64 never panics, it drops the high bits\<close>
  "usize_shl a k = (a * 2 ^ k) mod 2 ^ 64"

definition rust_assert :: "bool \<Rightarrow> unit option" where
  "rust_assert b = (if b then Some () else None)"

definition nth_opt :: "'a list \<Rightarrow> nat \<Rightarrow> 'a option" where
  \<comment> \<open>\<open>xs[i]\<close>: an index out of range panics\<close>
  "nth_opt xs i = (if i < length xs then Some (xs ! i) else None)"

definition set_opt :: "'a list \<Rightarrow> nat \<Rightarrow> 'a \<Rightarrow> 'a list option" where
  \<comment> \<open>\<open>xs[i] = v\<close>\<close>
  "set_opt xs i v = (if i < length xs then Some (xs[i := v]) else None)"

definition slice_opt :: "'a list \<Rightarrow> nat \<Rightarrow> nat \<Rightarrow> 'a list option" where
  \<comment> \<open>\<open>xs[a..b]\<close>\<close>
  "slice_opt xs a b = (if a \<le> b \<and> b \<le> length xs then Some (take (b - a) (drop a xs)) else None)"

section \<open>Powers of two\<close>

fun bit_length :: "nat \<Rightarrow> nat" where
  "bit_length n = (if n = 0 then 0 else Suc (bit_length (n div 2)))"

declare bit_length.simps [simp del]

definition leading_zeros :: "nat \<Rightarrow> nat" where
  "leading_zeros n = 64 - bit_length n"

definition next_power_of_two :: "nat \<Rightarrow> nat option" where
  "next_power_of_two n =
     (if n \<le> 1 then Some 1
      else if bit_length (n - 1) < 64 then Some (2 ^ bit_length (n - 1)) else None)"

definition div_ceil :: "nat \<Rightarrow> nat \<Rightarrow> nat" where
  "div_ceil a b = (if a mod b = 0 then a div b else a div b + 1)"

section \<open>Laws of the checked operations\<close>

lemma usize_add_Some [rust_simps]:
  "usize_add a b = Some c \<longleftrightarrow> c = a + b \<and> a + b < 2 ^ 64"
  by (auto simp: usize_add_def)

lemma usize_sub_Some [rust_simps]:
  "usize_sub a b = Some c \<longleftrightarrow> b \<le> a \<and> c = a - b"
  by (auto simp: usize_sub_def)

lemma usize_mul_Some [rust_simps]:
  "usize_mul a b = Some c \<longleftrightarrow> c = a * b \<and> a * b < 2 ^ 64"
  by (auto simp: usize_mul_def)

lemma rust_assert_Some [rust_simps]: "rust_assert b = Some u \<longleftrightarrow> b"
  by (auto simp: rust_assert_def)

lemma nth_opt_Some [rust_simps]: "nth_opt xs i = Some x \<longleftrightarrow> i < length xs \<and> x = xs ! i"
  by (auto simp: nth_opt_def)

lemma set_opt_Some [rust_simps]: "set_opt xs i v = Some ys \<longleftrightarrow> i < length xs \<and> ys = xs[i := v]"
  by (auto simp: set_opt_def)

lemma slice_opt_Some [rust_simps]:
  "slice_opt xs a b = Some ys \<longleftrightarrow> a \<le> b \<and> b \<le> length xs \<and> ys = take (b - a) (drop a xs)"
  by (auto simp: slice_opt_def)

lemma usize_add_fits [simp]: "a + b < 2 ^ 64 \<Longrightarrow> usize_add a b = Some (a + b)"
  by (simp add: usize_add_def)

lemma usize_sub_fits [simp]: "b \<le> a \<Longrightarrow> usize_sub a b = Some (a - b)"
  by (simp add: usize_sub_def)

lemma nth_opt_in [simp]: "i < length xs \<Longrightarrow> nth_opt xs i = Some (xs ! i)"
  by (simp add: nth_opt_def)

lemma set_opt_in [simp]: "i < length xs \<Longrightarrow> set_opt xs i v = Some (xs[i := v])"
  by (simp add: set_opt_def)

lemma rust_assert_True [simp]: "rust_assert True = Some ()"
  by (simp add: rust_assert_def)

lemmas bind_Some_cases = bind_eq_Some_conv

section \<open>Laws of the powers of two\<close>

lemma bit_length_0 [simp]: "bit_length 0 = 0"
  by (subst bit_length.simps) simp

lemma bit_length_pos: "0 < n \<Longrightarrow> bit_length n = Suc (bit_length (n div 2))"
  by (subst bit_length.simps) simp

lemma less_two_power_bit_length: "n < 2 ^ bit_length n"
proof (induction n rule: bit_length.induct)
  case (1 n)
  show ?case
  proof (cases "n = 0")
    case False
    with 1 have "n div 2 < 2 ^ bit_length (n div 2)" by simp
    then have "n < 2 * 2 ^ bit_length (n div 2)" by linarith
    with False show ?thesis by (simp add: bit_length_pos)
  qed simp
qed

lemma two_power_bit_length_le: "0 < n \<Longrightarrow> 2 ^ (bit_length n - 1) \<le> n"
proof (induction n rule: bit_length.induct)
  case (1 n)
  show ?case
  proof (cases "n div 2 = 0")
    case True
    with 1(2) show ?thesis by (simp add: bit_length_pos)
  next
    case False
    with 1 have "2 ^ (bit_length (n div 2) - 1) \<le> n div 2" by simp
    then have "2 * 2 ^ (bit_length (n div 2) - 1) \<le> n" by linarith
    moreover have "0 < bit_length (n div 2)" using False by (simp add: bit_length_pos)
    ultimately show ?thesis using 1(2)
      by (simp add: bit_length_pos flip: power_Suc)
  qed
qed

lemma bit_length_le_iff: "bit_length n \<le> k \<longleftrightarrow> n < 2 ^ k"
proof
  assume "bit_length n \<le> k"
  then have "(2::nat) ^ bit_length n \<le> 2 ^ k" by (simp add: power_increasing)
  with less_two_power_bit_length [of n] show "n < 2 ^ k" by linarith
next
  assume lt: "n < 2 ^ k"
  show "bit_length n \<le> k"
  proof (rule ccontr)
    assume "\<not> bit_length n \<le> k"
    then have k: "k \<le> bit_length n - 1" and "0 < n"
      by (auto intro: Nat.gr0I)
    then have "(2::nat) ^ k \<le> 2 ^ (bit_length n - 1)" by (simp add: power_increasing)
    also have "\<dots> \<le> n" by (rule two_power_bit_length_le [OF \<open>0 < n\<close>])
    finally show False using lt by simp
  qed
qed

lemma bit_length_two_power [simp]: "bit_length (2 ^ k) = Suc k"
  using bit_length_le_iff [of "2 ^ k" k] bit_length_le_iff [of "2 ^ k" "Suc k"]
  by (simp add: le_Suc_eq)

lemma bit_length_two_power_minus_1: "bit_length (2 ^ k - Suc 0) = k"
proof (cases k)
  case (Suc j)
  have "bit_length (2 ^ k - Suc 0) \<le> k" by (simp add: bit_length_le_iff)
  moreover have "\<not> bit_length (2 ^ k - Suc 0) \<le> j"
    using Suc by (simp add: bit_length_le_iff)
  ultimately show ?thesis using Suc by simp
qed simp

text \<open>\<^verbatim>\<open>next_power_of_two\<close> is the least power of two that is not smaller than its argument.\<close>

lemma next_power_of_two_power [simp]: "k < 64 \<Longrightarrow> next_power_of_two (2 ^ k) = Some (2 ^ k)"
proof (cases k)
  case 0
  then show ?thesis by (simp add: next_power_of_two_def)
next
  case (Suc j)
  assume "k < 64"
  moreover have "\<not> (2::nat) ^ k \<le> 1" using one_less_power [of "2::nat" k] Suc by simp
  ultimately show ?thesis
    using bit_length_two_power_minus_1 [of k] by (simp add: next_power_of_two_def)
qed

lemma next_power_of_two_SomeD:
  assumes "next_power_of_two n = Some m"
  obtains k where "m = 2 ^ k" "n \<le> m" "k < 64" "\<And>j. n \<le> 2 ^ j \<Longrightarrow> m \<le> 2 ^ j"
proof (cases "n \<le> 1")
  case True
  with assms have "m = 1" by (simp add: next_power_of_two_def)
  with True show ?thesis using that [of 0] by simp
next
  case False
  with assms have m: "m = 2 ^ bit_length (n - 1)" "bit_length (n - 1) < 64"
    by (auto simp: next_power_of_two_def split: if_splits)
  moreover have "n - 1 < 2 ^ bit_length (n - 1)" by (rule less_two_power_bit_length)
  moreover have "m \<le> 2 ^ j" if "n \<le> 2 ^ j" for j
  proof -
    from that False have "n - 1 < 2 ^ j" by linarith
    then have "bit_length (n - 1) \<le> j" by (simp add: bit_length_le_iff)
    with m(1) show ?thesis by (simp add: power_increasing)
  qed
  ultimately show ?thesis using that [of "bit_length (n - 1)"] by simp
qed

lemma next_power_of_two_total: "n \<le> 2 ^ 63 \<Longrightarrow> \<exists>m. next_power_of_two n = Some m"
proof (cases "n \<le> 1")
  case False
  assume "n \<le> 2 ^ 63"
  then have "n - 1 < 2 ^ 63" using False by linarith
  then have "bit_length (n - 1) \<le> 63" by (simp add: bit_length_le_iff)
  then show ?thesis by (simp add: next_power_of_two_def)
qed (simp add: next_power_of_two_def)

lemma next_power_of_two_idem:
  "next_power_of_two n = Some m \<Longrightarrow> next_power_of_two m = Some m"
  by (elim next_power_of_two_SomeD) simp

lemma div_ceil_bounds:
  assumes "0 < b"
  shows "a \<le> div_ceil a b * b" "div_ceil a b * b < a + b"
proof -
  have a: "b * (a div b) + a mod b = a" and lt: "a mod b < b" using assms by simp_all
  define c where "c = (if a mod b = 0 then 0 else b)"
  have "div_ceil a b * b = b * (a div b) + c"
    by (simp add: div_ceil_def c_def algebra_simps)
  moreover have "a mod b \<le> c" "c < a mod b + b" using lt assms by (auto simp: c_def)
  ultimately show "a \<le> div_ceil a b * b" "div_ceil a b * b < a + b"
    using a by linarith+
qed

end
