(* ===== verification/Page_Interface.thy ===== *)
theory Page_Interface
  imports Kernel_Prelude
begin

text \<open>
  The interface of \<^verbatim>\<open>src/src/page.rs\<close> between the page allocators and the page tables: the trait
  \<^verbatim>\<open>PageAllocator\<close>, its error and the access modes \<^verbatim>\<open>PageACL\<close>.

  The locale \<open>page_allocator\<close> is what a client of the trait may rely on. An allocator state stands for a
  multiset of free pages (\<open>rep\<close>): a page handed out was free and stops being free, no page is free twice, and
  every page is below \<open>2 ^ 52\<close>, so that its address fits the machine word. The buddy allocator and the static
  allocator both interpret it, and the page tables are built over it.
\<close>

definition PAGE_BITS :: nat where "PAGE_BITS = 12"
definition VA_BITS :: nat where "VA_BITS = 48"
definition PAGE_SIZE :: nat where "PAGE_SIZE = 2 ^ PAGE_BITS"
definition VIRT_ADDR :: nat where "VIRT_ADDR = 0xffffffc040000000"
definition PHY_ADDR :: nat where "PHY_ADDR = 0x40000000"

datatype PageACL = Read | Write | Execute | User

datatype AllocError = OutOfMemory

locale page_allocator =
  fixes rep :: "'s \<Rightarrow> nat multiset \<Rightarrow> bool"
    and alloc_pages :: "'s \<Rightarrow> nat \<Rightarrow> ((AllocError + nat) \<times> 's) option"
  assumes alloc_fresh: "rep s F \<Longrightarrow> alloc_pages s 1 = Some (Inr p, s') \<Longrightarrow> \<exists>F'. rep s' F' \<and> add_mset p F' \<subseteq># F"
    and free_once: "rep s F \<Longrightarrow> count F p \<le> 1"
    and free_bound: "rep s F \<Longrightarrow> p \<in># F \<Longrightarrow> p < 2 ^ 52"
begin

text \<open>A page that was handed out is not handed out again before it is freed.\<close>

lemma alloc_page_taken:
  assumes "rep s F" "alloc_pages s 1 = Some (Inr p, s')"
  obtains F' where "rep s' F'" "p \<in># F" "p \<notin># F'" "F' \<subseteq># F"
proof -
  obtain F' where F': "rep s' F'" "add_mset p F' \<subseteq># F" using alloc_fresh [OF assms] by blast
  have "Suc (count F' p) \<le> count F p" using mset_subset_eq_count [OF F'(2), of p] by simp
  with free_once [OF assms(1), of p] have "count F p = 1" "count F' p = 0" by auto
  then have "p \<in># F" "p \<notin># F'" by (simp_all flip: count_greater_zero_iff)
  moreover have "F' \<subseteq># F" using F'(2) by (meson mset_subset_eq_insertD subset_mset.less_imp_le)
  ultimately show thesis using that F'(1) by blast
qed

lemma two_allocs_differ:
  assumes "rep s F" "alloc_pages s 1 = Some (Inr p, s')" "alloc_pages s' 1 = Some (Inr q, s'')"
  shows "p \<noteq> q"
  using alloc_page_taken [OF assms(1,2)] alloc_page_taken [OF _ assms(3)] by metis

end

end
