(* ===== verification/Page_Entry.thy ===== *)
theory Page_Entry
  imports Page_Interface
begin

text \<open>
  Addresses (\<^verbatim>\<open>src/src/address.rs\<close>) and page table entries: the trait \<^verbatim>\<open>Entry\<close> of
  \<^verbatim>\<open>src/src/page/mapping.rs\<close> and its two implementations, SV39 (\<^verbatim>\<open>src/src/arch/riscv64/page.rs\<close>) and VMSAv8-64
  (\<^verbatim>\<open>src/src/arch/arm64/page.rs\<close>).

  An entry is a 64-bit word on both architectures, and a table is a page of such words. A record of type
  \<open>Mapper\<close> holds the functions and constants a page table implementation provides; the locale \<open>page_entry\<close> states
  what the generic page table code relies on, and both architectures interpret it.
\<close>

section \<open>Addresses\<close>

definition virt_from_phys :: "nat \<Rightarrow> nat \<Rightarrow> nat option" where
  "virt_from_phys OFFSET pa = usize_add pa OFFSET"

definition phys_from_virt :: "nat \<Rightarrow> nat \<Rightarrow> nat option" where
  "phys_from_virt OFFSET va = usize_sub va OFFSET"

definition ADDR_OFFSET :: nat where "ADDR_OFFSET = VIRT_ADDR - PHY_ADDR"
definition PAGE_OFFSET :: nat where "PAGE_OFFSET = drop_bit PAGE_BITS (VIRT_ADDR - PHY_ADDR)"

lemma PAGE_OFFSET_eq: "PAGE_OFFSET = 0xffffffc000000"
  by (simp add: PAGE_OFFSET_def VIRT_ADDR_def PHY_ADDR_def PAGE_BITS_def drop_bit_eq_div)

lemma phys_virt_roundtrip: "phys_from_virt off v = Some p \<Longrightarrow> v < 2 ^ 64 \<Longrightarrow> virt_from_phys off p = Some v"
  by (auto simp: phys_from_virt_def virt_from_phys_def usize_sub_Some)

lemma virt_phys_roundtrip: "virt_from_phys off p = Some v \<Longrightarrow> phys_from_virt off v = Some p"
  by (auto simp: phys_from_virt_def virt_from_phys_def usize_add_Some)

section \<open>The trait\<close>

record Mapper =
  Entry_new :: "nat \<Rightarrow> bool \<Rightarrow> PageACL list \<Rightarrow> u64"
  Entry_empty :: u64
  Entry_page_number :: "u64 \<Rightarrow> nat"
  Entry_is_valid :: "u64 \<Rightarrow> bool"
  LEVEL :: nat
  PTES_PER_DIR :: nat
  PTE_BITS :: nat

locale page_entry =
  fixes M :: Mapper
  assumes new_valid [simp]: "Entry_is_valid M (Entry_new M p leaf mode)"
    and zero_invalid [simp]: "\<not> Entry_is_valid M 0"
    and empty_invalid [simp]: "\<not> Entry_is_valid M (Entry_empty M)"
    and table_page_number [simp]: "p < 2 ^ 52 \<Longrightarrow> Entry_page_number M (Entry_new M p False []) = p"
    and page_number_bound: "Entry_page_number M e < 2 ^ 54"
    and ptes: "PTES_PER_DIR M = 2 ^ PTE_BITS M"

section \<open>SV39\<close>

definition PTE_V_FLAG :: u64 where "PTE_V_FLAG = 1"
definition PTE_R_FLAG :: u64 where "PTE_R_FLAG = push_bit 1 1"
definition PTE_W_FLAG :: u64 where "PTE_W_FLAG = push_bit 2 1"
definition PTE_X_FLAG :: u64 where "PTE_X_FLAG = push_bit 3 1"
definition PTE_U_FLAG :: u64 where "PTE_U_FLAG = push_bit 4 1"

definition PageTableEntry_new :: "nat \<Rightarrow> bool \<Rightarrow> PageACL list \<Rightarrow> u64" where
  "PageTableEntry_new page_number leaf mode =
     (let entry = push_bit 10 (of_nat page_number);
          entry = (if Read \<in> set mode then entry OR PTE_R_FLAG else entry);
          entry = (if Write \<in> set mode then entry OR PTE_W_FLAG else entry);
          entry = (if Execute \<in> set mode then entry OR PTE_X_FLAG else entry);
          entry = (if User \<in> set mode then entry OR PTE_U_FLAG else entry)
      in entry OR PTE_V_FLAG)"

definition PageTableEntry_is_valid :: "u64 \<Rightarrow> bool" where
  "PageTableEntry_is_valid e \<longleftrightarrow> 0 < e AND PTE_V_FLAG"

definition PageTableEntry_page_number :: "u64 \<Rightarrow> nat" where
  "PageTableEntry_page_number e = drop_bit 10 (unat e)"

definition Sv39Mapper :: Mapper where
  "Sv39Mapper = \<lparr>Entry_new = PageTableEntry_new, Entry_empty = 0,
     Entry_page_number = PageTableEntry_page_number, Entry_is_valid = PageTableEntry_is_valid,
     LEVEL = 3, PTES_PER_DIR = 512, PTE_BITS = 9\<rparr>"

text \<open>The value \<^verbatim>\<open>set_satp\<close> writes.\<close>

definition MODE_SV39 :: u64 where "MODE_SV39 = 8"

definition satp_value :: "u64 \<Rightarrow> u64 \<Rightarrow> u64" where
  "satp_value ppn mode = ppn OR push_bit 60 mode"

section \<open>VMSAv8-64\<close>

definition TYPE_VALID :: u64 where "TYPE_VALID = 1"
definition TYPE_TABLE_ENTRY :: u64 where "TYPE_TABLE_ENTRY = 2"
definition TYPE_PAGE_ENTRY :: u64 where "TYPE_PAGE_ENTRY = 2"
definition AP1 :: u64 where "AP1 = 0x40"
definition AP2_RO :: u64 where "AP2_RO = 0x80"
definition AP2_RW :: u64 where "AP2_RW = 0"
definition AF :: u64 where "AF = push_bit 10 1"
definition PXN :: u64 where "PXN = push_bit 53 1"
definition UXN :: u64 where "UXN = push_bit 54 1"

definition TableDescriptor_new :: "nat \<Rightarrow> bool \<Rightarrow> PageACL list \<Rightarrow> u64" where
  "TableDescriptor_new page_number leaf mode =
     (let descriptor = push_bit 12 (of_nat page_number)
      in if leaf then
           let descriptor = (if User \<in> set mode then descriptor OR AP1 else descriptor);
               descriptor = (if Write \<in> set mode then descriptor OR AP2_RW else descriptor OR AP2_RO);
               descriptor = (if Execute \<notin> set mode then (descriptor OR UXN) OR PXN
                             else if User \<notin> set mode then descriptor OR UXN else descriptor)
           in descriptor OR (AF OR TYPE_VALID OR TYPE_PAGE_ENTRY)
         else descriptor OR (TYPE_VALID OR TYPE_TABLE_ENTRY))"

definition TableDescriptor_is_valid :: "u64 \<Rightarrow> bool" where
  "TableDescriptor_is_valid e \<longleftrightarrow> 0 < e AND TYPE_VALID"

definition TableDescriptor_page_number :: "u64 \<Rightarrow> nat" where
  "TableDescriptor_page_number e = drop_bit PAGE_BITS (unat e)"

definition Arm64Mapper :: Mapper where
  "Arm64Mapper = \<lparr>Entry_new = TableDescriptor_new, Entry_empty = 0,
     Entry_page_number = TableDescriptor_page_number, Entry_is_valid = TableDescriptor_is_valid,
     LEVEL = 4, PTES_PER_DIR = 512, PTE_BITS = 9\<rparr>"

section \<open>Bits of the entries\<close>

lemma word_and_1_pos: "0 < (e :: u64) AND 1 \<longleftrightarrow> bit e 0"
  by (simp add: word_gt_0 and_one_eq odd_iff_mod_2_eq_one bit_0)

lemmas sv39_defs = PageTableEntry_new_def PTE_V_FLAG_def PTE_R_FLAG_def PTE_W_FLAG_def PTE_X_FLAG_def PTE_U_FLAG_def
lemmas arm_defs = TableDescriptor_new_def TYPE_VALID_def TYPE_TABLE_ENTRY_def TYPE_PAGE_ENTRY_def AP1_def AP2_RO_def
  AP2_RW_def AF_def PXN_def UXN_def

lemma sv39_new_valid: "PageTableEntry_is_valid (PageTableEntry_new p leaf mode)"
  unfolding PageTableEntry_is_valid_def PTE_V_FLAG_def word_and_1_pos
  by (simp add: PageTableEntry_new_def Let_def PTE_V_FLAG_def bit_or_iff)

lemma arm_new_valid: "TableDescriptor_is_valid (TableDescriptor_new p leaf mode)"
  unfolding TableDescriptor_is_valid_def TYPE_VALID_def word_and_1_pos
  by (simp add: TableDescriptor_new_def Let_def TYPE_VALID_def bit_or_iff)

lemma entry_page_word:
  assumes p: "p < 2 ^ (64 - k)" and k: "k < 64" and f: "take_bit k (f :: u64) = f"
  shows "drop_bit k (unat (push_bit k (of_nat p) OR f)) = p"
proof -
  have high: "\<not> bit (of_nat p :: u64) n" if "64 - k \<le> n" for n
  proof -
    have "p < 2 ^ n" using p that by (meson order.strict_trans2 power_increasing one_le_numeral)
    then have "\<not> bit p n" by (simp add: bit_iff_odd)
    then show ?thesis by (simp add: bit_of_nat_iff)
  qed
  have low: "\<not> bit f (k + n)" for n using f by (metis bit_take_bit_iff not_add_less1)
  have "drop_bit k (push_bit k (of_nat p) OR f) = (of_nat p :: u64)"
  proof (rule bit_word_eqI)
    fix n assume "n < LENGTH(64)"
    show "bit (drop_bit k (push_bit k (of_nat p) OR f)) n = bit (of_nat p :: u64) n"
    proof (cases "k + n < 64")
      case True
      then show ?thesis by (simp add: bit_drop_bit_eq bit_or_iff bit_push_bit_iff low)
    next
      case False
      then have "\<not> bit (of_nat p :: u64) n" by (intro high) simp
      with False show ?thesis by (simp add: bit_drop_bit_eq bit_or_iff bit_push_bit_iff low)
    qed
  qed
  moreover have "drop_bit k (unat (push_bit k (of_nat p) OR f)) = unat (drop_bit k (push_bit k (of_nat p) OR f))"
    by (simp only: unat_drop_bit_eq)
  moreover have "p < 2 ^ 64" using p by (meson diff_le_self order.strict_trans2 power_increasing one_le_numeral)
  then have "unat (of_nat p :: u64) = p" by (simp add: unat_of_nat)
  ultimately show ?thesis by simp
qed

lemma sv39_page_number:
  assumes "p < 2 ^ 54"
  shows "PageTableEntry_page_number (PageTableEntry_new p leaf mode) = p"
proof -
  define f where "f = (if Read \<in> set mode then PTE_R_FLAG else 0) OR (if Write \<in> set mode then PTE_W_FLAG else 0) OR
    (if Execute \<in> set mode then PTE_X_FLAG else 0) OR (if User \<in> set mode then PTE_U_FLAG else 0) OR PTE_V_FLAG"
  have "PageTableEntry_new p leaf mode = push_bit 10 (of_nat p) OR f"
    unfolding PageTableEntry_new_def f_def Let_def by (auto simp: or.assoc)
  moreover have "take_bit 10 f = f" by (simp add: f_def take_bit_or sv39_defs)
  ultimately show ?thesis
    unfolding PageTableEntry_page_number_def using entry_page_word [of p 10 f] assms by simp
qed

lemma arm_table_page_number:
  assumes "p < 2 ^ 52"
  shows "TableDescriptor_page_number (TableDescriptor_new p False mode) = p"
proof -
  have "take_bit 12 (TYPE_VALID OR TYPE_TABLE_ENTRY) = TYPE_VALID OR TYPE_TABLE_ENTRY" by (simp add: arm_defs)
  then show ?thesis
    unfolding TableDescriptor_page_number_def TableDescriptor_new_def PAGE_BITS_def
    using entry_page_word [of p 12 "TYPE_VALID OR TYPE_TABLE_ENTRY"] assms by simp
qed

lemma invalid_0: "\<not> PageTableEntry_is_valid 0" "\<not> TableDescriptor_is_valid 0"
  by (simp_all add: PageTableEntry_is_valid_def TableDescriptor_is_valid_def)

interpretation sv39: page_entry Sv39Mapper
proof
  show "Entry_page_number Sv39Mapper e < 2 ^ 54" for e
  proof -
    have "unat e < 2 ^ 64" using unsigned_less [of e] by simp
    then show ?thesis
      by (simp add: Sv39Mapper_def PageTableEntry_page_number_def drop_bit_eq_div less_mult_imp_div_less)
  qed
qed (simp_all add: Sv39Mapper_def sv39_new_valid sv39_page_number invalid_0)

interpretation arm64: page_entry Arm64Mapper
proof
  show "Entry_page_number Arm64Mapper e < 2 ^ 54" for e
  proof -
    have "unat e < 2 ^ 64" using unsigned_less [of e] by simp
    then show ?thesis
      by (simp add: Arm64Mapper_def TableDescriptor_page_number_def drop_bit_eq_div less_mult_imp_div_less PAGE_BITS_def)
  qed
qed (simp_all add: Arm64Mapper_def arm_new_valid arm_table_page_number invalid_0)

end
