(* ===== verification/Page_Mapping.thy ===== *)
theory Page_Mapping
  imports Page_Entry
begin

text \<open>
  The page tables of \<^verbatim>\<open>src/src/page/mapping.rs\<close>, generic in the architecture (a record \<open>Mapper\<close>) and in the page
  allocator (the two functions of the trait, as arguments).

  A \<^verbatim>\<open>Table\<close> is a pointer to a page; the contents of all tables are one store, \<open>pt_mem\<close>, from page numbers and
  indices to entries, so that a table reached twice is the same table. \<open>translate\<close> is the walk the hardware
  performs and \<open>pt_pages\<close> lists the pages of a page table; the invariant of a page table is that no page is
  listed twice and none of them is free. The lemmas, proved once in the locale \<open>page_table\<close>, say that
  \<^verbatim>\<open>map_4k\<close> keeps it and changes the translation of one page only.
\<close>

section \<open>Tables\<close>

type_synonym pt_mem = "nat \<Rightarrow> nat \<Rightarrow> u64"
type_synonym table = nat
type_synonym 's alloc_op = "'s \<Rightarrow> nat \<Rightarrow> ((AllocError + nat) \<times> 's) option"
type_synonym 's free_op = "'s \<Rightarrow> nat \<Rightarrow> nat \<Rightarrow> 's option"

definition MAX_SUPPORTED_LEVEL :: nat where "MAX_SUPPORTED_LEVEL = 5"

definition Table_empty :: table where "Table_empty = 0"

definition Table_new :: "'s alloc_op \<Rightarrow> pt_mem \<Rightarrow> 's \<Rightarrow> (table \<times> pt_mem \<times> 's) option" where
  "Table_new alloc m s = do {
     (r, s) \<leftarrow> alloc s 1;
     page \<leftarrow> (case r of Inl e \<Rightarrow> None | Inr page \<Rightarrow> Some page);
     let ptr = usize_shl page PAGE_BITS;
     Some (ptr, m(ptr div PAGE_SIZE := (\<lambda>_. 0)), s)
   }"

definition Table_from_page :: "nat \<Rightarrow> table" where
  "Table_from_page page_number = usize_shl page_number PAGE_BITS"

definition Table_page_number :: "table \<Rightarrow> nat option" where
  "Table_page_number t = phys_from_virt PAGE_OFFSET (drop_bit PAGE_BITS t)"

definition set_entry :: "pt_mem \<Rightarrow> table \<Rightarrow> nat \<Rightarrow> u64 \<Rightarrow> pt_mem" where
  "set_entry m t index entry = m(t div PAGE_SIZE := (m (t div PAGE_SIZE))(index := entry))"

definition get_entry :: "pt_mem \<Rightarrow> table \<Rightarrow> nat \<Rightarrow> u64" where
  "get_entry m t index = m (t div PAGE_SIZE) index"

definition Table_is_empty :: "Mapper \<Rightarrow> pt_mem \<Rightarrow> table \<Rightarrow> nat \<Rightarrow> bool" where
  "Table_is_empty M m t entry_count = list_all (\<lambda>index. \<not> Entry_is_valid M (get_entry m t index)) [0..<entry_count]"

section \<open>Mapping and unmapping a page\<close>

definition pt_index :: "Mapper \<Rightarrow> nat \<Rightarrow> nat \<Rightarrow> nat" where
  "pt_index M level vpn = drop_bit (PTE_BITS M * level) vpn AND (PTES_PER_DIR M - 1)"

text \<open>\<^verbatim>\<open>for level in (1..Self::LEVEL).rev()\<close> of \<^verbatim>\<open>map_4k\<close>, from \<open>level\<close> downwards.\<close>

fun map_walk ::
  "Mapper \<Rightarrow> 's alloc_op \<Rightarrow> nat \<Rightarrow> table \<Rightarrow> nat \<Rightarrow> pt_mem \<Rightarrow> 's \<Rightarrow> (table \<times> pt_mem \<times> 's) option" where
  "map_walk M alloc 0 current_table vpn m s = Some (current_table, m, s)"
| "map_walk M alloc (Suc l) current_table vpn m s = do {
     let index = pt_index M (Suc l) vpn;
     let entry = get_entry m current_table index;
     (entry, m, s) \<leftarrow>
       (if \<not> Entry_is_valid M entry then do {
          (sub_table, m, s) \<leftarrow> Table_new alloc m s;
          ppn \<leftarrow> Table_page_number sub_table;
          let entry = Entry_new M ppn False [];
          Some (entry, set_entry m current_table index entry, s)
        } else Some (entry, m, s));
     page \<leftarrow> virt_from_phys PAGE_OFFSET (Entry_page_number M entry);
     map_walk M alloc l (Table_from_page page) vpn m s
   }"

definition map_4k ::
  "Mapper \<Rightarrow> 's alloc_op \<Rightarrow> table \<Rightarrow> nat \<Rightarrow> nat \<Rightarrow> PageACL list \<Rightarrow> pt_mem \<Rightarrow> 's \<Rightarrow> (pt_mem \<times> 's) option" where
  "map_4k M alloc root vpn ppn mode m s = do {
     (current_table, m, s) \<leftarrow> map_walk M alloc (LEVEL M - 1) root vpn m s;
     let entry = Entry_new M ppn True mode;
     Some (set_entry m current_table (vpn AND (PTES_PER_DIR M - 1)) entry, s)
   }"

fun map_with_allocator ::
  "Mapper \<Rightarrow> 's alloc_op \<Rightarrow> table \<Rightarrow> nat \<Rightarrow> nat \<Rightarrow> nat \<Rightarrow> PageACL list \<Rightarrow> pt_mem \<Rightarrow> 's \<Rightarrow> (pt_mem \<times> 's) option" where
  "map_with_allocator M alloc root vpn ppn 0 mode m s = Some (m, s)"
| "map_with_allocator M alloc root vpn ppn (Suc pages) mode m s = do {
     (m, s) \<leftarrow> map_4k M alloc root vpn ppn mode m s;
     vpn \<leftarrow> usize_add vpn 1;
     ppn \<leftarrow> usize_add ppn 1;
     map_with_allocator M alloc root vpn ppn pages mode m s
   }"

text \<open>The first loop of \<^verbatim>\<open>unmap_4k\<close>, from \<open>level\<close> downwards, over the array \<^verbatim>\<open>page_tables\<close>.\<close>

fun unmap_walk :: "Mapper \<Rightarrow> nat \<Rightarrow> table list \<Rightarrow> nat \<Rightarrow> pt_mem \<Rightarrow> (table list \<times> pt_mem) option" where
  "unmap_walk M 0 pts vpn m = do {
     t \<leftarrow> nth_opt pts 0;
     Some (pts, set_entry m t (pt_index M 0 vpn) (Entry_empty M))
   }"
| "unmap_walk M (Suc l) pts vpn m = do {
     t \<leftarrow> nth_opt pts (Suc l);
     let entry = get_entry m t (pt_index M (Suc l) vpn);
     page \<leftarrow> virt_from_phys PAGE_OFFSET (Entry_page_number M entry);
     pts \<leftarrow> set_opt pts l (Table_from_page page);
     unmap_walk M l pts vpn m
   }"

text \<open>The second loop: tables without a valid entry go back to the allocator, up to the first that has one.\<close>

fun free_empty_tables :: "Mapper \<Rightarrow> 's free_op \<Rightarrow> table list \<Rightarrow> pt_mem \<Rightarrow> 's \<Rightarrow> 's option" where
  "free_empty_tables M dealloc [] m s = Some s"
| "free_empty_tables M dealloc (t # ts) m s =
     (if Table_is_empty M m t (PTES_PER_DIR M)
      then do {
        ppn \<leftarrow> Table_page_number t;
        page_start \<leftarrow> virt_from_phys PAGE_OFFSET ppn;
        s \<leftarrow> dealloc s page_start 1;
        free_empty_tables M dealloc ts m s
      }
      else Some s)"

definition unmap_4k :: "Mapper \<Rightarrow> 's free_op \<Rightarrow> table \<Rightarrow> nat \<Rightarrow> pt_mem \<Rightarrow> 's \<Rightarrow> (pt_mem \<times> 's) option" where
  "unmap_4k M dealloc root vpn m s = do {
     rust_assert (LEVEL M \<le> MAX_SUPPORTED_LEVEL);
     pts \<leftarrow> set_opt (replicate MAX_SUPPORTED_LEVEL Table_empty) (LEVEL M - 1) root;
     (pts, m) \<leftarrow> unmap_walk M (LEVEL M - 1) pts vpn m;
     s \<leftarrow> free_empty_tables M dealloc (take (LEVEL M - 1) pts) m s;
     Some (m, s)
   }"

fun unmap_with_allocator ::
  "Mapper \<Rightarrow> 's free_op \<Rightarrow> table \<Rightarrow> nat \<Rightarrow> nat \<Rightarrow> pt_mem \<Rightarrow> 's \<Rightarrow> (pt_mem \<times> 's) option" where
  "unmap_with_allocator M dealloc root vpn 0 m s = Some (m, s)"
| "unmap_with_allocator M dealloc root vpn (Suc pages) m s = do {
     (m, s) \<leftarrow> unmap_4k M dealloc root vpn m s;
     vpn \<leftarrow> usize_add vpn 1;
     unmap_with_allocator M dealloc root vpn pages m s
   }"

section \<open>Destroying a page table\<close>

fun free_entries :: "Mapper \<Rightarrow> 's free_op \<Rightarrow> pt_mem \<Rightarrow> table \<Rightarrow> nat list \<Rightarrow> 's \<Rightarrow> 's option" where
  "free_entries M dealloc m t [] s = Some s"
| "free_entries M dealloc m t (index # is) s = do {
     let entry = get_entry m t index;
     s \<leftarrow> (if Entry_is_valid M entry then do {
              page \<leftarrow> virt_from_phys PAGE_OFFSET (Entry_page_number M entry);
              dealloc s page 1
            } else Some s);
     free_entries M dealloc m t is s
   }"

text \<open>The \<^verbatim>\<open>loop\<close> of \<^verbatim>\<open>destroy_with_allocator\<close>.\<close>

record 's destroy_state =
  current_level :: nat
  page_tables :: "table list"
  indexes :: "nat list"
  the_alloc :: 's

partial_function (option) destroy_loop ::
  "Mapper \<Rightarrow> 's free_op \<Rightarrow> pt_mem \<Rightarrow> 's destroy_state \<Rightarrow> 's option" where
  "destroy_loop M dealloc m st =
     (if current_level st = 1 then do {
        t \<leftarrow> nth_opt (page_tables st) (current_level st);
        s \<leftarrow> free_entries M dealloc m t [0..<PTES_PER_DIR M] (the_alloc st);
        i \<leftarrow> nth_opt (indexes st) (Suc (current_level st));
        is \<leftarrow> set_opt (indexes st) (Suc (current_level st)) (Suc i);
        destroy_loop M dealloc m (st\<lparr>current_level := Suc (current_level st), indexes := is, the_alloc := s\<rparr>)
      } else do {
        t \<leftarrow> nth_opt (page_tables st) (current_level st);
        i \<leftarrow> nth_opt (indexes st) (current_level st);
        if i = PTES_PER_DIR M then do {
          ppn \<leftarrow> Table_page_number t;
          page \<leftarrow> virt_from_phys PAGE_OFFSET ppn;
          s \<leftarrow> dealloc (the_alloc st) page 1;
          if current_level st = LEVEL M - 1 then Some s
          else do {
            is \<leftarrow> set_opt (indexes st) (current_level st) 0;
            j \<leftarrow> nth_opt is (Suc (current_level st));
            is \<leftarrow> set_opt is (Suc (current_level st)) (Suc j);
            destroy_loop M dealloc m (st\<lparr>current_level := Suc (current_level st), indexes := is, the_alloc := s\<rparr>)
          }
        } else if \<not> Entry_is_valid M (get_entry m t i) then do {
          is \<leftarrow> set_opt (indexes st) (current_level st) (Suc i);
          destroy_loop M dealloc m (st\<lparr>indexes := is\<rparr>)
        } else do {
          level \<leftarrow> usize_sub (current_level st) 1;
          page \<leftarrow> virt_from_phys PAGE_OFFSET (Entry_page_number M (get_entry m t i));
          ts \<leftarrow> set_opt (page_tables st) level (Table_from_page page);
          destroy_loop M dealloc m (st\<lparr>current_level := level, page_tables := ts\<rparr>)
        }
      })"

definition destroy_with_allocator :: "Mapper \<Rightarrow> 's free_op \<Rightarrow> table \<Rightarrow> pt_mem \<Rightarrow> 's \<Rightarrow> 's option" where
  "destroy_with_allocator M dealloc root m s = do {
     rust_assert (LEVEL M \<le> MAX_SUPPORTED_LEVEL);
     level \<leftarrow> usize_sub (LEVEL M) 1;
     ts \<leftarrow> set_opt (replicate MAX_SUPPORTED_LEVEL Table_empty) level root;
     destroy_loop M dealloc m
       \<lparr>current_level = level, page_tables = ts, indexes = replicate MAX_SUPPORTED_LEVEL 0, the_alloc = s\<rparr>
   }"

section \<open>The hardware's view\<close>

definition child_page :: "Mapper \<Rightarrow> u64 \<Rightarrow> nat" where
  "child_page M e = (Entry_page_number M e + PAGE_OFFSET) mod 2 ^ 52"

fun translate :: "Mapper \<Rightarrow> pt_mem \<Rightarrow> nat \<Rightarrow> nat \<Rightarrow> nat \<Rightarrow> u64 option" where
  "translate M m 0 p vpn =
     (let e = m p (pt_index M 0 vpn) in if Entry_is_valid M e then Some e else None)"
| "translate M m (Suc l) p vpn =
     (let e = m p (pt_index M (Suc l) vpn)
      in if Entry_is_valid M e then translate M m l (child_page M e) vpn else None)"

fun pt_pages :: "Mapper \<Rightarrow> pt_mem \<Rightarrow> nat \<Rightarrow> nat \<Rightarrow> nat list" where
  "pt_pages M m 0 p = [p]"
| "pt_pages M m (Suc l) p = p # concat (map (\<lambda>i.
     if Entry_is_valid M (m p i) then pt_pages M m l (child_page M (m p i)) else []) [0..<PTES_PER_DIR M])"

text \<open>The table the walk from a table of level \<open>l\<close> reaches at level \<open>k\<close>, valid entries or not.\<close>

fun walk_to :: "Mapper \<Rightarrow> pt_mem \<Rightarrow> nat \<Rightarrow> nat \<Rightarrow> nat \<Rightarrow> nat \<Rightarrow> nat" where
  "walk_to M m 0 k p vpn = p"
| "walk_to M m (Suc l) k p vpn =
     (if k = Suc l then p else walk_to M m l k (child_page M (m p (pt_index M (Suc l) vpn))) vpn)"

definition same_indexes :: "Mapper \<Rightarrow> nat \<Rightarrow> nat \<Rightarrow> nat \<Rightarrow> bool" where
  "same_indexes M l v w \<longleftrightarrow> (\<forall>k \<le> l. pt_index M k v = pt_index M k w)"

text \<open>The invariant of a page table beside its allocator: its tables form a tree of pages none of which is
  free. \<open>lookup\<close> is the entry the hardware finds for a page.\<close>

definition pt_inv :: "('s \<Rightarrow> nat multiset \<Rightarrow> bool) \<Rightarrow> Mapper \<Rightarrow> table \<Rightarrow> pt_mem \<Rightarrow> 's \<Rightarrow> bool" where
  "pt_inv rep M root m s \<longleftrightarrow> (\<exists>F. rep s F \<and> distinct (pt_pages M m (LEVEL M - 1) (root div PAGE_SIZE)) \<and>
     set (pt_pages M m (LEVEL M - 1) (root div PAGE_SIZE)) \<inter> set_mset F = {})"

definition lookup :: "Mapper \<Rightarrow> pt_mem \<Rightarrow> table \<Rightarrow> nat \<Rightarrow> u64 option" where
  "lookup M m root vpn = translate M m (LEVEL M - 1) (root div PAGE_SIZE) vpn"

definition same_page :: "Mapper \<Rightarrow> nat \<Rightarrow> nat \<Rightarrow> bool" where
  "same_page M v w \<longleftrightarrow> take_bit (PTE_BITS M * LEVEL M) v = take_bit (PTE_BITS M * LEVEL M) w"

lemma Table_from_page_page: "Table_from_page p div PAGE_SIZE = p mod 2 ^ 52"
proof -
  have "(p * 2 ^ 12) mod 2 ^ 64 = (p mod 2 ^ 52) * (2 ^ 12 :: nat)"
    using mult_mod_left [of p "2 ^ 52" "2 ^ 12 :: nat"] by simp
  then show ?thesis by (simp add: Table_from_page_def usize_shl_def PAGE_SIZE_def PAGE_BITS_def)
qed

lemma pt_pages_self: "p \<in> set (pt_pages M m l p)"
  by (cases l) auto

lemma pt_pages_child:
  "i < PTES_PER_DIR M \<Longrightarrow> Entry_is_valid M (m p i) \<Longrightarrow> q \<in> set (pt_pages M m l (child_page M (m p i))) \<Longrightarrow>
   q \<in> set (pt_pages M m (Suc l) p)"
  by (auto intro!: bexI [of _ i])

lemma pt_pages_cong:
  "(\<And>q. q \<in> set (pt_pages M m l p) \<Longrightarrow> m' q = m q) \<Longrightarrow> pt_pages M m' l p = pt_pages M m l p"
proof (induction l arbitrary: p)
  case (Suc l)
  have p: "m' p = m p" using Suc.prems by simp
  have "pt_pages M m' l (child_page M (m p i)) = pt_pages M m l (child_page M (m p i))"
    if "i < PTES_PER_DIR M" "Entry_is_valid M (m p i)" for i
    using that Suc.prems pt_pages_child by (intro Suc.IH) blast
  then show ?case unfolding pt_pages.simps p by (intro arg_cong [of _ _ "(#) p"] arg_cong [of _ _ concat] map_cong) auto
qed simp

lemma translate_cong:
  "(\<And>q. q \<in> set (pt_pages M m l p) \<Longrightarrow> m' q = m q) \<Longrightarrow> (\<And>k v. pt_index M k v < PTES_PER_DIR M) \<Longrightarrow>
   translate M m' l p vpn = translate M m l p vpn"
proof (induction l arbitrary: p)
  case (Suc l)
  have p: "m' p = m p" using Suc.prems(1) by simp
  show ?case
  proof (cases "Entry_is_valid M (m p (pt_index M (Suc l) vpn))")
    case True
    with Suc.prems pt_pages_child have "translate M m' l (child_page M (m p (pt_index M (Suc l) vpn))) vpn =
        translate M m l (child_page M (m p (pt_index M (Suc l) vpn))) vpn"
      by (intro Suc.IH) blast+
    then show ?thesis by (simp add: p Let_def)
  qed (simp add: p Let_def)
qed simp

lemma distinct_concat_upt:
  "distinct (concat (map f [0..<n])) \<longleftrightarrow>
   (\<forall>i < n. distinct (f i)) \<and> (\<forall>i < n. \<forall>j < n. i \<noteq> j \<longrightarrow> set (f i) \<inter> set (f j) = {})"
proof (induction n)
  case (Suc n)
  have eq: "concat (map f [0..<Suc n]) = concat (map f [0..<n]) @ f n" by simp
  have "set (concat (map f [0..<n])) = (\<Union>i<n. set (f i))" by (simp add: atLeast0LessThan)
  then have disj: "set (concat (map f [0..<n])) \<inter> set (f n) = {} \<longleftrightarrow> (\<forall>i < n. set (f i) \<inter> set (f n) = {})" by blast
  show ?case unfolding eq distinct_append Suc.IH disj less_Suc_eq by blast
qed simp

section \<open>Page tables over an allocator\<close>

locale page_table = page_allocator rep alloc_pages + page_entry M
  for rep :: "'s \<Rightarrow> nat multiset \<Rightarrow> bool" and alloc_pages :: "'s \<Rightarrow> nat \<Rightarrow> ((AllocError + nat) \<times> 's) option"
    and M :: Mapper
begin

lemma pt_index_less: "pt_index M k v < PTES_PER_DIR M"
proof -
  have "pt_index M k v = take_bit (PTE_BITS M) (drop_bit (PTE_BITS M * k) v)"
    by (simp add: pt_index_def ptes take_bit_eq_mask mask_eq_exp_minus_1)
  then show ?thesis by (simp add: ptes)
qed

lemma virt_from_phys_entry: "virt_from_phys PAGE_OFFSET (Entry_page_number M e) = Some (Entry_page_number M e + PAGE_OFFSET)"
  using page_number_bound [of e] by (simp add: virt_from_phys_def PAGE_OFFSET_eq)

lemma Table_new_fresh:
  assumes rep: "rep s F" and run: "Table_new alloc_pages m s = Some (t, m', s')"
  obtains p F' where "t = Table_from_page p" "t div PAGE_SIZE = p" "drop_bit PAGE_BITS t = p" "p < 2 ^ 52"
    "m' = m(p := (\<lambda>_. 0))" "rep s' F'" "p \<in># F" "p \<notin># F'" "F' \<subseteq># F"
proof -
  from run obtain r s1 where a: "alloc_pages s 1 = Some (r, s1)" by (auto simp: Table_new_def bind_eq_Some_conv)
  then obtain p where p: "alloc_pages s 1 = Some (Inr p, s')" "t = Table_from_page p" "m' = m(t div PAGE_SIZE := (\<lambda>_. 0))"
    using run by (cases r) (auto simp: Table_new_def Let_def Table_from_page_def)
  obtain F' where F': "rep s' F'" "p \<in># F" "p \<notin># F'" "F' \<subseteq># F" using alloc_page_taken [OF rep p(1)] by blast
  have b: "p < 2 ^ 52" using free_bound [OF rep F'(2)] .
  then have pg: "t div PAGE_SIZE = p" using p(2) Table_from_page_page [of p] by simp
  moreover have "drop_bit PAGE_BITS t = p" using pg by (simp add: drop_bit_eq_div PAGE_SIZE_def)
  ultimately show thesis using that p F' b by simp
qed

lemma map_walk_valid:
  assumes "Entry_is_valid M (m (t div PAGE_SIZE) (pt_index M (Suc l) vpn))"
  obtains t' where "t' div PAGE_SIZE = child_page M (m (t div PAGE_SIZE) (pt_index M (Suc l) vpn))"
    "\<And>s. map_walk M alloc_pages (Suc l) t vpn m s = map_walk M alloc_pages l t' vpn m s"
  using that [of "Table_from_page (Entry_page_number M (m (t div PAGE_SIZE) (pt_index M (Suc l) vpn)) + PAGE_OFFSET)"] assms
  by (simp add: get_entry_def virt_from_phys_entry Table_from_page_page child_page_def)

text \<open>One level of the walk: the entry on the way is valid afterwards, a new table is fresh and empty.\<close>

lemma map_walk_step:
  assumes run: "map_walk M alloc_pages (Suc l) t vpn m s = Some res" and rep: "rep s F"
    and P: "P = t div PAGE_SIZE" "P \<notin># F" and i: "i = pt_index M (Suc l) vpn"
  obtains m1 s1 F1 t1 where "map_walk M alloc_pages l t1 vpn m1 s1 = Some res" "rep s1 F1" "F1 \<subseteq># F"
    "Entry_is_valid M (m1 P i)" "t1 div PAGE_SIZE = child_page M (m1 P i)"
    "Entry_is_valid M (m P i) \<and> m1 = m \<and> F1 = F \<or>
     \<not> Entry_is_valid M (m P i) \<and> child_page M (m1 P i) \<in># F \<and> child_page M (m1 P i) \<notin># F1 \<and>
       m1 (child_page M (m1 P i)) = (\<lambda>_. 0) \<and> (\<forall>j. j \<noteq> i \<longrightarrow> m1 P j = m P j) \<and>
       (\<forall>q. q \<noteq> P \<and> q \<noteq> child_page M (m1 P i) \<longrightarrow> m1 q = m q)"
proof (cases "Entry_is_valid M (m P i)")
  case True
  with run P i have "map_walk M alloc_pages l (Table_from_page (Entry_page_number M (m P i) + PAGE_OFFSET)) vpn m s = Some res"
    by (simp add: get_entry_def virt_from_phys_entry)
  with True rep show thesis
    using that [of _ m s F] Table_from_page_page by (simp add: child_page_def)
next
  case False
  with run P i obtain q m0 s1 ppn where new: "Table_new alloc_pages m s = Some (q, m0, s1)"
    and ppn: "Table_page_number q = Some ppn"
    and rest: "map_walk M alloc_pages l (Table_from_page (Entry_page_number M (Entry_new M ppn False []) + PAGE_OFFSET)) vpn
      (set_entry m0 t i (Entry_new M ppn False [])) s1 = Some res"
    by (auto simp: get_entry_def virt_from_phys_entry bind_eq_Some_conv Let_def)
  obtain p F' where q: "drop_bit PAGE_BITS q = p" "p < 2 ^ 52" "m0 = m(p := (\<lambda>_. 0))" "rep s1 F'" "p \<in># F"
    "p \<notin># F'" "F' \<subseteq># F"
    using Table_new_fresh [OF rep new] by metis
  from ppn q have off: "PAGE_OFFSET \<le> p" "ppn = p - PAGE_OFFSET"
    by (auto simp: Table_page_number_def phys_from_virt_def usize_sub_Some)
  let ?e = "Entry_new M ppn False []"
  have child: "child_page M ?e = p" using q off by (simp add: child_page_def)
  have "p \<noteq> P" using P q by auto
  define m1 where "m1 = set_entry m0 t i ?e"
  have m1: "m1 P i = ?e" "m1 p = (\<lambda>_. 0)" "\<And>j. j \<noteq> i \<Longrightarrow> m1 P j = m P j" "\<And>q. q \<noteq> P \<Longrightarrow> q \<noteq> p \<Longrightarrow> m1 q = m q"
    using q(3) \<open>p \<noteq> P\<close> P by (auto simp: m1_def set_entry_def)
  show thesis
    using that [OF rest [folded m1_def] q(4,7)] False m1 child q(5,6) Table_from_page_page by (simp add: child_page_def)
qed

text \<open>The new table: what is reached from one of its entries, where nothing else changed.\<close>

lemma pt_pages_zero: "m p = (\<lambda>_. 0) \<Longrightarrow> pt_pages M m l p = [p]"
  by (cases l) (simp_all add: concat_eq_Nil_conv)

lemma pt_pages_one:
  assumes "m p = (\<lambda>_. 0)(0 := e)" "Entry_is_valid M e"
  shows "pt_pages M m (Suc l) p = p # pt_pages M m l (child_page M e)"
proof -
  have n: "[0..<PTES_PER_DIR M] = 0 # [1..<PTES_PER_DIR M]" using ptes by (simp add: upt_conv_Cons)
  have "concat (map (\<lambda>i. if Entry_is_valid M (m p i) then pt_pages M m l (child_page M (m p i)) else []) [1..<PTES_PER_DIR M]) = []"
    using assms(1) by (auto simp: concat_eq_Nil_conv)
  then show ?thesis unfolding pt_pages.simps n using assms by simp
qed

definition sub_pages :: "pt_mem \<Rightarrow> nat \<Rightarrow> nat \<Rightarrow> nat \<Rightarrow> nat list" where
  "sub_pages m l p i = (if Entry_is_valid M (m p i) then pt_pages M m l (child_page M (m p i)) else [])"

lemma pt_pages_sub: "pt_pages M m (Suc l) p = p # concat (map (sub_pages m l p) [0..<PTES_PER_DIR M])"
  by (simp add: sub_pages_def [abs_def])

lemma distinct_pt_pages:
  "distinct (pt_pages M m (Suc l) p) \<longleftrightarrow>
   (\<forall>i < PTES_PER_DIR M. p \<notin> set (sub_pages m l p i) \<and> distinct (sub_pages m l p i)) \<and>
   (\<forall>i < PTES_PER_DIR M. \<forall>j < PTES_PER_DIR M. i \<noteq> j \<longrightarrow> set (sub_pages m l p i) \<inter> set (sub_pages m l p j) = {})"
  unfolding pt_pages_sub distinct.simps distinct_concat_upt by auto

lemma set_pt_pages: "set (pt_pages M m (Suc l) p) = insert p (\<Union>i<PTES_PER_DIR M. set (sub_pages m l p i))"
  unfolding pt_pages_sub by (auto simp: atLeast0LessThan)

text \<open>What mapping one page does to the tables from level \<open>l\<close> downwards.\<close>

definition map_effect ::
  "nat \<Rightarrow> nat \<Rightarrow> nat \<Rightarrow> u64 \<Rightarrow> nat set \<Rightarrow> nat set \<Rightarrow> pt_mem \<Rightarrow> pt_mem \<Rightarrow> bool" where
  "map_effect l p vpn e F F' m m' \<longleftrightarrow>
     distinct (pt_pages M m' l p) \<and>
     set (pt_pages M m l p) \<subseteq> set (pt_pages M m' l p) \<and>
     set (pt_pages M m' l p) \<subseteq> set (pt_pages M m l p) \<union> (F - F') \<and>
     (\<forall>q. q \<notin> set (pt_pages M m' l p) \<longrightarrow> m' q = m q) \<and>
     translate M m' l p vpn = Some e \<and>
     (\<forall>w. \<not> same_indexes M l vpn w \<longrightarrow> translate M m' l p w = translate M m l p w)"

lemma map_effect_leaf:
  assumes "Entry_is_valid M e"
  shows "map_effect 0 p vpn e F F' m (m(p := (m p)(pt_index M 0 vpn := e)))"
  using assms by (auto simp: map_effect_def same_indexes_def Let_def)

lemma map_effect_Suc:
  assumes eff: "map_effect l c vpn e F1 F' m1 m'" and c: "c = child_page M (m1 p i)" and i: "i = pt_index M (Suc l) vpn"
    and valid: "Entry_is_valid M (m1 p i)" and F1: "F1 \<subseteq> F" and F': "F' \<subseteq> F1"
    and dist: "distinct (pt_pages M m (Suc l) p)" and free: "set (pt_pages M m (Suc l) p) \<inter> F = {}"
    and child: "set (pt_pages M m1 l c) \<subseteq> set (sub_pages m l p i) \<union> (F - F1)"
      "set (sub_pages m l p i) \<subseteq> set (pt_pages M m1 l c)"
    and old: "\<And>w. Entry_is_valid M (m p i) \<Longrightarrow> translate M m1 l c w = translate M m l (child_page M (m p i)) w"
      "\<And>w. \<not> Entry_is_valid M (m p i) \<Longrightarrow> translate M m1 l c w = None"
    and row: "\<And>j. j \<noteq> i \<Longrightarrow> m1 p j = m p j" and rest: "\<And>q. q \<noteq> p \<Longrightarrow> q \<noteq> c \<Longrightarrow> m1 q = m q"
  shows "map_effect (Suc l) p vpn e F F' m m'"
proof -
  let ?n = "PTES_PER_DIR M"
  have i_less: "i < ?n" unfolding i by (rule pt_index_less)
  note d = dist [unfolded distinct_pt_pages]
  have new: "set (pt_pages M m' l c) \<subseteq> set (sub_pages m l p i) \<union> (F - F')"
    using eff child(1) F1 F' unfolding map_effect_def by blast
  have pc: "p \<notin> set (pt_pages M m' l c)"
    using new d i_less free unfolding set_pt_pages by blast
  then have mp: "m' p = m1 p" using eff by (simp add: map_effect_def)
  have sib: "set (sub_pages m l p j) \<inter> set (pt_pages M m' l c) = {}" if "j < ?n" "j \<noteq> i" for j
    using new d i_less that free unfolding set_pt_pages by blast
  have same: "m' q = m q" if "q \<in> set (sub_pages m l p j)" "j < ?n" "j \<noteq> i" for q j
  proof -
    have "q \<noteq> p" using that d by blast
    moreover have "q \<noteq> c" using that sib [OF that(2,3)] pt_pages_self [of c M m' l] by blast
    moreover have "m' q = m1 q" using eff sib [OF that(2,3)] that(1) unfolding map_effect_def by blast
    ultimately show ?thesis using rest by simp
  qed
  have sub: "sub_pages m' l p j = (if j = i then pt_pages M m' l c else sub_pages m l p j)" if "j < ?n" for j
  proof (cases "j = i")
    case True
    then show ?thesis using valid c mp by (simp add: sub_pages_def)
  next
    case False
    have "m' p j = m p j" using mp row [OF False] by simp
    moreover have "pt_pages M m' l (child_page M (m p j)) = pt_pages M m l (child_page M (m p j))"
      if "Entry_is_valid M (m p j)"
      using same [of _ j] \<open>j < ?n\<close> False that by (intro pt_pages_cong) (simp add: sub_pages_def)
    ultimately show ?thesis using False by (simp add: sub_pages_def)
  qed
  have grow: "set (sub_pages m l p j) \<subseteq> set (sub_pages m' l p j)" if "j < ?n" for j
    using sub [OF that] child(2) eff by (cases "j = i") (auto simp: map_effect_def)
  have shrink: "set (sub_pages m' l p j) \<subseteq> set (sub_pages m l p j) \<union> (F - F')" if "j < ?n" for j
    using sub [OF that] new by (cases "j = i") auto
  have "distinct (pt_pages M m' (Suc l) p)"
    unfolding distinct_pt_pages
  proof (intro conjI allI impI)
    fix j assume j: "j < ?n"
    show "p \<notin> set (sub_pages m' l p j)" using sub [OF j] d j pc by simp
    show "distinct (sub_pages m' l p j)" using sub [OF j] d j eff by (simp add: map_effect_def)
    fix k assume k: "k < ?n" "j \<noteq> k"
    show "set (sub_pages m' l p j) \<inter> set (sub_pages m' l p k) = {}"
      using sub [OF j] sub [OF k(1)] d j k sib [OF j] sib [OF k(1)] by (cases "j = i"; cases "k = i") auto
  qed
  moreover have "set (pt_pages M m (Suc l) p) \<subseteq> set (pt_pages M m' (Suc l) p)"
    unfolding set_pt_pages using grow by blast
  moreover have "set (pt_pages M m' (Suc l) p) \<subseteq> set (pt_pages M m (Suc l) p) \<union> (F - F')"
    unfolding set_pt_pages using shrink by blast
  moreover have "m' q = m q" if q: "q \<notin> set (pt_pages M m' (Suc l) p)" for q
  proof -
    have "q \<noteq> p" "q \<notin> set (sub_pages m' l p i)" using q i_less unfolding set_pt_pages by blast+
    then have "q \<noteq> p" "q \<notin> set (pt_pages M m' l c)" using sub [OF i_less] by simp_all
    moreover from this have "q \<noteq> c" using pt_pages_self by blast
    ultimately show ?thesis using eff rest unfolding map_effect_def by simp
  qed
  moreover have "translate M m' (Suc l) p vpn = Some e"
    using eff valid c i mp unfolding map_effect_def by (simp add: Let_def)
  moreover have "translate M m' (Suc l) p w = translate M m (Suc l) p w" if w: "\<not> same_indexes M (Suc l) vpn w" for w
  proof (cases "pt_index M (Suc l) w = i")
    case True
    with w i have "\<not> same_indexes M l vpn w" by (auto simp: same_indexes_def le_Suc_eq)
    then have "translate M m' l c w = translate M m1 l c w" using eff by (simp add: map_effect_def)
    then show ?thesis using True valid c mp old by (cases "Entry_is_valid M (m p i)") (simp_all add: Let_def)
  next
    case False
    let ?j = "pt_index M (Suc l) w"
    have j: "?j < ?n" by (rule pt_index_less)
    have "translate M m' l (child_page M (m p ?j)) w = translate M m l (child_page M (m p ?j)) w"
      if "Entry_is_valid M (m p ?j)"
      using same [OF _ j False] that by (intro translate_cong pt_index_less) (simp add: sub_pages_def)
    then show ?thesis using mp row [OF False] by (simp add: Let_def)
  qed
  ultimately show ?thesis unfolding map_effect_def by blast
qed

lemma map_walk_effect:
  assumes "map_walk M alloc_pages l t vpn m s = Some (t', m1, s')" "rep s F"
    and "distinct (pt_pages M m l (t div PAGE_SIZE))" "set (pt_pages M m l (t div PAGE_SIZE)) \<inter> set_mset F = {}"
    and "Entry_is_valid M e"
  shows "\<exists>F'. rep s' F' \<and> F' \<subseteq># F \<and>
    map_effect l (t div PAGE_SIZE) vpn e (set_mset F) (set_mset F') m (set_entry m1 t' (pt_index M 0 vpn) e)"
  using assms
proof (induction l arbitrary: t m s F)
  case 0
  then have "t' = t" "m1 = m" "s' = s" by simp_all
  then show ?case using 0 map_effect_leaf [OF assms(5)] unfolding set_entry_def by blast
next
  case (Suc l)
  define p where "p = t div PAGE_SIZE"
  define i where "i = pt_index M (Suc l) vpn"
  note dist = Suc.prems(3) [folded p_def] and free = Suc.prems(4) [folded p_def]
  have i_less: "i < PTES_PER_DIR M" unfolding i_def by (rule pt_index_less)
  have "p \<notin># F" using free pt_pages_self [of p M m "Suc l"] by blast
  note step = map_walk_step [OF Suc.prems(1,2) p_def this i_def]
  obtain m2 s2 F2 t2 where
    st: "map_walk M alloc_pages l t2 vpn m2 s2 = Some (t', m1, s')" "rep s2 F2" "F2 \<subseteq># F"
      "Entry_is_valid M (m2 p i)" "t2 div PAGE_SIZE = child_page M (m2 p i)"
      "Entry_is_valid M (m p i) \<and> m2 = m \<and> F2 = F \<or>
       \<not> Entry_is_valid M (m p i) \<and> child_page M (m2 p i) \<in># F \<and> child_page M (m2 p i) \<notin># F2 \<and>
         m2 (child_page M (m2 p i)) = (\<lambda>_. 0) \<and> (\<forall>j. j \<noteq> i \<longrightarrow> m2 p j = m p j) \<and>
         (\<forall>q. q \<noteq> p \<and> q \<noteq> child_page M (m2 p i) \<longrightarrow> m2 q = m q)" by (rule step)
  define c where "c = child_page M (m2 p i)"
  have F2: "set_mset F2 \<subseteq> set_mset F" using st(3) by (rule set_mset_mono)
  have pages: "set (pt_pages M m2 l c) \<subseteq> set (sub_pages m l p i) \<union> (set_mset F - set_mset F2) \<and>
      set (sub_pages m l p i) \<subseteq> set (pt_pages M m2 l c) \<and> distinct (pt_pages M m2 l c) \<and>
      set (pt_pages M m2 l c) \<inter> set_mset F2 = {}"
  proof (cases "Entry_is_valid M (m p i)")
    case True
    then have "pt_pages M m2 l c = sub_pages m l p i" using st(6) by (simp add: sub_pages_def c_def)
    moreover have "set (sub_pages m l p i) \<subseteq> set (pt_pages M m (Suc l) p)" unfolding set_pt_pages using i_less by blast
    moreover from this have "set (sub_pages m l p i) \<inter> set_mset F2 = {}" using free F2 by blast
    ultimately show ?thesis using dist [unfolded distinct_pt_pages] i_less by simp
  next
    case False
    then have "pt_pages M m2 l c = [c]" "c \<in># F" "c \<notin># F2" using st(6) pt_pages_zero by (auto simp: c_def)
    with False show ?thesis by (simp add: sub_pages_def)
  qed
  from Suc.IH [OF st(1,2)] pages assms(5) obtain F' where F': "rep s' F'" "F' \<subseteq># F2"
    "map_effect l c vpn e (set_mset F2) (set_mset F') m2 (set_entry m1 t' (pt_index M 0 vpn) e)"
    unfolding st(5) c_def [symmetric] by blast
  have zero: "translate M m2 l c w = None" if "\<not> Entry_is_valid M (m p i)" for w
    using st(6) that by (cases l) (auto simp: c_def Let_def)
  have "map_effect (Suc l) p vpn e (set_mset F) (set_mset F') m (set_entry m1 t' (pt_index M 0 vpn) e)"
  proof (rule map_effect_Suc [OF F'(3) c_def i_def st(4) F2 set_mset_mono [OF F'(2)] dist free])
    show "translate M m2 l c w = translate M m l (child_page M (m p i)) w" if "Entry_is_valid M (m p i)" for w
      using st(6) that by (simp add: c_def)
    show "m2 p j = m p j" if "j \<noteq> i" for j using st(6) that by auto
    show "m2 q = m q" if "q \<noteq> p" "q \<noteq> c" for q using st(6) that by (auto simp: c_def)
  qed (use pages zero in blast)+
  then show ?case using F' subset_mset.order_trans [OF F'(2) st(3)] unfolding p_def by blast
qed

lemma map_4k_effect:
  assumes run: "map_4k M alloc_pages root vpn ppn mode m s = Some (m', s')" and rep: "rep s F"
    and dist: "distinct (pt_pages M m (LEVEL M - 1) (root div PAGE_SIZE))"
    and free: "set (pt_pages M m (LEVEL M - 1) (root div PAGE_SIZE)) \<inter> set_mset F = {}"
  shows "\<exists>F'. rep s' F' \<and> F' \<subseteq># F \<and>
    map_effect (LEVEL M - 1) (root div PAGE_SIZE) vpn (Entry_new M ppn True mode) (set_mset F) (set_mset F') m m'"
proof -
  have idx: "vpn AND (PTES_PER_DIR M - 1) = pt_index M 0 vpn" by (simp add: pt_index_def)
  from run obtain t m1 where "map_walk M alloc_pages (LEVEL M - 1) root vpn m s = Some (t, m1, s')"
    "m' = set_entry m1 t (pt_index M 0 vpn) (Entry_new M ppn True mode)"
    unfolding map_4k_def idx Let_def by (auto simp: bind_eq_Some_conv)
  with map_walk_effect [OF _ rep dist free new_valid] show ?thesis by blast
qed

lemma same_indexes_iff: "same_indexes M l v w \<longleftrightarrow> take_bit (PTE_BITS M * Suc l) v = take_bit (PTE_BITS M * Suc l) w"
proof -
  define b where "b = PTE_BITS M"
  have idx: "pt_index M k v = take_bit b (drop_bit (b * k) v)" for k v
    by (simp add: pt_index_def ptes take_bit_eq_mask mask_eq_exp_minus_1 b_def)
  show ?thesis
  proof
    assume same: "same_indexes M l v w"
    show "take_bit (PTE_BITS M * Suc l) v = take_bit (PTE_BITS M * Suc l) w"
    proof (rule bit_eqI)
      fix n
      have "bit v n = bit w n" if n: "n < b * Suc l"
      proof -
        have b: "0 < b" using n by (cases b) auto
        have k: "n div b \<le> l" using n b by (metis less_Suc_eq_le less_mult_imp_div_less mult.commute)
        have split: "b * (n div b) + n mod b = n" by simp
        have "take_bit b (drop_bit (b * (n div b)) v) = take_bit b (drop_bit (b * (n div b)) w)"
          using same k by (simp add: same_indexes_def idx)
        then have "bit (take_bit b (drop_bit (b * (n div b)) v)) (n mod b) = bit (take_bit b (drop_bit (b * (n div b)) w)) (n mod b)"
          by (rule arg_cong)
        then show ?thesis using b split by (simp add: bit_take_bit_iff bit_drop_bit_eq)
      qed
      then show "bit (take_bit (PTE_BITS M * Suc l) v) n = bit (take_bit (PTE_BITS M * Suc l) w) n"
        by (auto simp: bit_take_bit_iff b_def)
    qed
  next
    assume eq: "take_bit (PTE_BITS M * Suc l) v = take_bit (PTE_BITS M * Suc l) w"
    have "take_bit b (drop_bit (b * k) u) = take_bit b (drop_bit (b * k) (take_bit (b * Suc l) u))" if "k \<le> l" for k u
    proof -
      have "b * k + b \<le> b * Suc l" using that by (metis mult_Suc_right add.commute mult_le_mono2 Suc_le_mono)
      then show ?thesis by (simp add: take_bit_drop_bit)
    qed
    then show "same_indexes M l v w" using eq unfolding same_indexes_def idx b_def by metis
  qed
qed

lemma map_4k_correct:
  assumes level: "0 < LEVEL M" and run: "map_4k M alloc_pages root vpn ppn mode m s = Some (m', s')"
    and inv: "pt_inv rep M root m s"
  shows "pt_inv rep M root m' s'" "lookup M m' root vpn = Some (Entry_new M ppn True mode)"
    "\<And>w. \<not> same_page M vpn w \<Longrightarrow> lookup M m' root w = lookup M m root w"
proof -
  obtain F where F: "rep s F" "distinct (pt_pages M m (LEVEL M - 1) (root div PAGE_SIZE))"
    "set (pt_pages M m (LEVEL M - 1) (root div PAGE_SIZE)) \<inter> set_mset F = {}" using inv by (auto simp: pt_inv_def)
  obtain F' where F': "rep s' F'" "F' \<subseteq># F"
    "map_effect (LEVEL M - 1) (root div PAGE_SIZE) vpn (Entry_new M ppn True mode) (set_mset F) (set_mset F') m m'"
    using map_4k_effect [OF run F] by blast
  note e = F'(3) [unfolded map_effect_def]
  have "set (pt_pages M m' (LEVEL M - 1) (root div PAGE_SIZE)) \<inter> set_mset F' = {}"
    using e F(3) set_mset_mono [OF F'(2)] by blast
  then show "pt_inv rep M root m' s'" using e F'(1) unfolding pt_inv_def by blast
  show "lookup M m' root vpn = Some (Entry_new M ppn True mode)" using e by (simp add: lookup_def)
  show "lookup M m' root w = lookup M m root w" if "\<not> same_page M vpn w" for w
    using e that level same_indexes_iff [of "LEVEL M - 1" vpn w] by (simp add: lookup_def same_page_def)
qed

lemma map_with_allocator_correct:
  assumes "0 < LEVEL M" "map_with_allocator M alloc_pages root vpn ppn n mode m s = Some (m', s')"
    and "pt_inv rep M root m s" "vpn + n \<le> 2 ^ (PTE_BITS M * LEVEL M)"
  shows "pt_inv rep M root m' s' \<and>
    (\<forall>k < n. lookup M m' root (vpn + k) = Some (Entry_new M (ppn + k) True mode)) \<and>
    (\<forall>w. (\<forall>k < n. \<not> same_page M (vpn + k) w) \<longrightarrow> lookup M m' root w = lookup M m root w)"
  using assms
proof (induction n arbitrary: vpn ppn m s)
  case (Suc n)
  from Suc.prems(2) obtain m1 s1 where run: "map_4k M alloc_pages root vpn ppn mode m s = Some (m1, s1)"
    "map_with_allocator M alloc_pages root (Suc vpn) (Suc ppn) n mode m1 s1 = Some (m', s')"
    by (auto simp: bind_eq_Some_conv usize_add_Some)
  note one = map_4k_correct [OF Suc.prems(1) run(1) Suc.prems(3)]
  note IH = Suc.IH [OF Suc.prems(1) run(2) one(1)]
  have other: "\<not> same_page M (Suc vpn + k) vpn" if "k < n" for k
    using that Suc.prems(4) by (simp add: same_page_def take_bit_nat_eq_self)
  have "lookup M m' root (vpn + k) = Some (Entry_new M (ppn + k) True mode)" if "k < Suc n" for k
  proof (cases k)
    case 0
    then show ?thesis using IH other one(2) Suc.prems(4) by simp
  next
    case (Suc j)
    then show ?thesis using IH that Suc.prems(4) by simp
  qed
  moreover have "lookup M m' root w = lookup M m root w" if w: "\<forall>k < Suc n. \<not> same_page M (vpn + k) w" for w
  proof -
    have "\<not> same_page M vpn w" using w by force
    moreover have "\<forall>k < n. \<not> same_page M (Suc vpn + k) w" using w by (metis Suc_less_eq add_Suc_shift)
    ultimately show ?thesis using IH one(3) Suc.prems(4) by simp
  qed
  ultimately show ?case using IH Suc.prems(4) by simp
qed simp

lemma Table_new_inv:
  assumes "Table_new alloc_pages m s = Some (root, m', s')" "rep s F"
  shows "pt_inv rep M root m' s'" "\<And>vpn. lookup M m' root vpn = None"
proof -
  obtain p F' where p: "root div PAGE_SIZE = p" "m' = m(p := (\<lambda>_. 0))" "rep s' F'" "p \<notin># F'"
    using Table_new_fresh [OF assms(2,1)] by metis
  then show "pt_inv rep M root m' s'" using pt_pages_zero [of m' p] by (auto simp: pt_inv_def)
  show "lookup M m' root vpn = None" for vpn
    using p by (cases "LEVEL M - 1") (simp_all add: lookup_def Let_def)
qed

section \<open>Unmapping\<close>

definition clear_entry :: "pt_mem \<Rightarrow> nat \<Rightarrow> nat \<Rightarrow> pt_mem" where
  "clear_entry m q i = m(q := (m q)(i := Entry_empty M))"

lemma set_entry_clear: "set_entry m t i (Entry_empty M) = clear_entry m (t div PAGE_SIZE) i"
  by (simp only: set_entry_def clear_entry_def)

lemma clear_entry_other: "q' \<noteq> q \<Longrightarrow> clear_entry m q i q' = m q'" "clear_entry m q i q i = Entry_empty M"
  "j \<noteq> i \<Longrightarrow> clear_entry m q i q j = m q j"
  by (simp_all add: clear_entry_def)

text \<open>The walk of \<^verbatim>\<open>unmap_4k\<close> never panics, fills the array with the tables on the way and clears one entry.\<close>

lemma unmap_walk_spec:
  assumes "l < length pts"
  shows "\<exists>pts'. unmap_walk M l pts vpn m =
      Some (pts', clear_entry m (walk_to M m l 0 (pts ! l div PAGE_SIZE) vpn) (pt_index M 0 vpn)) \<and>
    length pts' = length pts \<and> (\<forall>k \<ge> l. pts' ! k = pts ! k) \<and>
    (\<forall>k \<le> l. pts' ! k div PAGE_SIZE = walk_to M m l k (pts ! l div PAGE_SIZE) vpn)"
  using assms
proof (induction l arbitrary: pts)
  case 0
  then show ?case by (simp add: set_entry_clear)
next
  case (Suc l)
  let ?e = "m (pts ! Suc l div PAGE_SIZE) (pt_index M (Suc l) vpn)"
  let ?t = "Table_from_page (Entry_page_number M ?e + PAGE_OFFSET)"
  have page: "?t div PAGE_SIZE = child_page M ?e" by (simp add: Table_from_page_page child_page_def)
  have l: "l < length (pts[l := ?t])" using Suc.prems by simp
  from Suc.IH [OF l] obtain pts' where IH: "unmap_walk M l (pts[l := ?t]) vpn m =
      Some (pts', clear_entry m (walk_to M m l 0 (child_page M ?e) vpn) (pt_index M 0 vpn))"
    "length pts' = length pts" "\<forall>k \<ge> l. pts' ! k = pts[l := ?t] ! k"
    "\<forall>k \<le> l. pts' ! k div PAGE_SIZE = walk_to M m l k (child_page M ?e) vpn"
    using l page by auto
  have "unmap_walk M (Suc l) pts vpn m = unmap_walk M l (pts[l := ?t]) vpn m"
    using Suc.prems by (simp add: get_entry_def virt_from_phys_entry)
  moreover have "\<forall>k \<ge> Suc l. pts' ! k = pts ! k" using IH(3) by simp
  moreover from this have "\<forall>k \<le> Suc l. pts' ! k div PAGE_SIZE = walk_to M m (Suc l) k (pts ! Suc l div PAGE_SIZE) vpn"
    using IH(4) by (auto simp: le_Suc_eq)
  ultimately show ?case using IH(1,2) by simp
qed

lemma translate_clear:
  assumes "distinct (pt_pages M m l p)" "translate M m l p vpn \<noteq> None"
    and "q = walk_to M m l 0 p vpn" and m': "m' = clear_entry m q (pt_index M 0 vpn)"
  shows "translate M m' l p vpn = None \<and> pt_pages M m' l p = pt_pages M m l p \<and> q \<in> set (pt_pages M m l p) \<and>
    (\<forall>w. \<not> same_indexes M l vpn w \<longrightarrow> translate M m' l p w = translate M m l p w)"
  using assms(1,2,3)
proof (induction l arbitrary: p)
  case 0
  then show ?case using m' by (auto simp: Let_def same_indexes_def clear_entry_other)
next
  case (Suc l)
  let ?i = "pt_index M (Suc l) vpn"
  let ?c = "child_page M (m p ?i)"
  have i: "?i < PTES_PER_DIR M" by (rule pt_index_less)
  note d = Suc.prems(1) [unfolded distinct_pt_pages]
  have valid: "Entry_is_valid M (m p ?i)" and tr: "translate M m l ?c vpn \<noteq> None" and q: "q = walk_to M m l 0 ?c vpn"
    using Suc.prems(2,3) by (auto simp: Let_def split: if_splits)
  have sub: "sub_pages m l p ?i = pt_pages M m l ?c" using valid by (simp add: sub_pages_def)
  then have "distinct (pt_pages M m l ?c)" using d i by metis
  note IH = Suc.IH [OF this tr q]
  have qp: "q \<noteq> p" using IH d i sub by metis
  then have mp: "m' p = m p" using m' by (simp add: clear_entry_other)
  have sib: "m' r = m r" if "r \<in> set (sub_pages m l p j)" "j < PTES_PER_DIR M" "j \<noteq> ?i" for r j
  proof -
    have "set (sub_pages m l p j) \<inter> set (sub_pages m l p ?i) = {}" using d that i by blast
    moreover have "q \<in> set (sub_pages m l p ?i)" using IH sub by simp
    ultimately have "r \<noteq> q" using that by blast
    then show ?thesis using m' by (simp add: clear_entry_other)
  qed
  have "sub_pages m' l p j = sub_pages m l p j" if j: "j < PTES_PER_DIR M" for j
  proof (cases "j = ?i")
    case True
    then show ?thesis using IH mp valid by (simp add: sub_pages_def)
  next
    case False
    then show ?thesis
      using sib [OF _ j False] mp pt_pages_cong [of M m l "child_page M (m p j)" m'] by (simp add: sub_pages_def)
  qed
  then have pages: "pt_pages M m' (Suc l) p = pt_pages M m (Suc l) p"
    unfolding pt_pages_sub by (intro arg_cong [of _ _ "(#) p"] arg_cong [of _ _ concat] map_cong) auto
  have "translate M m' (Suc l) p w = translate M m (Suc l) p w" if w: "\<not> same_indexes M (Suc l) vpn w" for w
  proof (cases "pt_index M (Suc l) w = ?i")
    case True
    with w have "\<not> same_indexes M l vpn w" by (auto simp: same_indexes_def le_Suc_eq)
    then show ?thesis using IH True mp by (simp add: Let_def)
  next
    case False
    let ?j = "pt_index M (Suc l) w"
    have "translate M m' l (child_page M (m p ?j)) w = translate M m l (child_page M (m p ?j)) w"
      if "Entry_is_valid M (m p ?j)"
      using sib [OF _ pt_index_less False] that by (intro translate_cong pt_index_less) (simp add: sub_pages_def)
    then show ?thesis using mp by (simp add: Let_def)
  qed
  moreover have "q \<in> set (pt_pages M m (Suc l) p)" using pt_pages_child [of ?i M m p q l] i valid IH by blast
  moreover have "translate M m' (Suc l) p vpn = None" using IH mp by (simp add: Let_def)
  ultimately show ?case using pages by blast
qed

lemma unmap_4k_walk:
  assumes level: "0 < LEVEL M" "LEVEL M \<le> MAX_SUPPORTED_LEVEL"
    and run: "unmap_4k M dealloc root vpn m s = Some (m', s')"
  obtains pts where "m' = clear_entry m (walk_to M m (LEVEL M - 1) 0 (root div PAGE_SIZE) vpn) (pt_index M 0 vpn)"
    "length pts = MAX_SUPPORTED_LEVEL" "free_empty_tables M dealloc (take (LEVEL M - 1) pts) m' s = Some s'"
    "\<And>k. k \<le> LEVEL M - 1 \<Longrightarrow> pts ! k div PAGE_SIZE = walk_to M m (LEVEL M - 1) k (root div PAGE_SIZE) vpn"
proof -
  let ?pts = "(replicate MAX_SUPPORTED_LEVEL Table_empty)[LEVEL M - 1 := root]"
  have l: "LEVEL M - 1 < length ?pts" using level by simp
  then have root: "?pts ! (LEVEL M - 1) = root" by simp
  from unmap_walk_spec [OF l, of vpn m] obtain pts where
    w: "unmap_walk M (LEVEL M - 1) ?pts vpn m =
      Some (pts, clear_entry m (walk_to M m (LEVEL M - 1) 0 (root div PAGE_SIZE) vpn) (pt_index M 0 vpn))"
    "length pts = MAX_SUPPORTED_LEVEL"
    "\<forall>k \<le> LEVEL M - 1. pts ! k div PAGE_SIZE = walk_to M m (LEVEL M - 1) k (root div PAGE_SIZE) vpn"
    unfolding root by auto
  have "unmap_4k M dealloc root vpn m s = do {
      (pts, m) \<leftarrow> unmap_walk M (LEVEL M - 1) ?pts vpn m;
      s \<leftarrow> free_empty_tables M dealloc (take (LEVEL M - 1) pts) m s;
      Some (m, s) }"
    using level l by (simp add: unmap_4k_def)
  with run w(1) have "m' = clear_entry m (walk_to M m (LEVEL M - 1) 0 (root div PAGE_SIZE) vpn) (pt_index M 0 vpn)"
    "free_empty_tables M dealloc (take (LEVEL M - 1) pts) m' s = Some s'"
    by (auto simp: bind_eq_Some_conv)
  with w that show thesis by blast
qed

lemma unmap_4k_correct:
  assumes level: "0 < LEVEL M" "LEVEL M \<le> MAX_SUPPORTED_LEVEL"
    and run: "unmap_4k M dealloc root vpn m s = Some (m', s')"
    and dist: "distinct (pt_pages M m (LEVEL M - 1) (root div PAGE_SIZE))" and mapped: "lookup M m root vpn \<noteq> None"
  shows "lookup M m' root vpn = None" "\<And>w. \<not> same_page M vpn w \<Longrightarrow> lookup M m' root w = lookup M m root w"
    "pt_pages M m' (LEVEL M - 1) (root div PAGE_SIZE) = pt_pages M m (LEVEL M - 1) (root div PAGE_SIZE)"
proof -
  obtain pts where m': "m' = clear_entry m (walk_to M m (LEVEL M - 1) 0 (root div PAGE_SIZE) vpn) (pt_index M 0 vpn)"
    using unmap_4k_walk [OF level run] by blast
  from translate_clear [OF dist mapped [unfolded lookup_def] refl m']
  show "lookup M m' root vpn = None" "\<And>w. \<not> same_page M vpn w \<Longrightarrow> lookup M m' root w = lookup M m root w"
    "pt_pages M m' (LEVEL M - 1) (root div PAGE_SIZE) = pt_pages M m (LEVEL M - 1) (root div PAGE_SIZE)"
    using same_indexes_iff [of "LEVEL M - 1" vpn] level by (simp_all add: lookup_def same_page_def)
qed

lemma walk_to_valid:
  assumes "translate M m l p vpn \<noteq> None" "0 < k" "k \<le> l"
  shows "Entry_is_valid M (m (walk_to M m l k p vpn) (pt_index M k vpn))"
  using assms
proof (induction l arbitrary: p)
  case (Suc l)
  then show ?case by (cases "k = Suc l") (auto simp: Let_def split: if_splits)
qed simp

lemma walk_to_distinct:
  assumes "distinct (pt_pages M m l p)" "translate M m l p vpn \<noteq> None" "0 < k" "k \<le> l"
  shows "walk_to M m l k p vpn \<noteq> walk_to M m l 0 p vpn"
  using assms
proof (induction l arbitrary: p)
  case (Suc l)
  let ?i = "pt_index M (Suc l) vpn"
  let ?c = "child_page M (m p ?i)"
  have i: "?i < PTES_PER_DIR M" by (rule pt_index_less)
  have valid: "Entry_is_valid M (m p ?i)" and tr: "translate M m l ?c vpn \<noteq> None"
    using Suc.prems(2) by (auto simp: Let_def split: if_splits)
  have sub: "sub_pages m l p ?i = pt_pages M m l ?c" using valid by (simp add: sub_pages_def)
  with Suc.prems(1) i have d: "distinct (pt_pages M m l ?c)" "p \<notin> set (pt_pages M m l ?c)"
    unfolding distinct_pt_pages by metis+
  have "walk_to M m l 0 ?c vpn \<in> set (pt_pages M m l ?c)" using translate_clear [OF d(1) tr refl refl] by blast
  with d(2) show ?case using Suc.IH [OF d(1) tr Suc.prems(3)] Suc.prems(3,4) by (cases "k = Suc l") auto
qed simp

text \<open>When the last page of a table is unmapped, the table goes back to the allocator and stays in the tree.\<close>

lemma unmap_4k_dangling:
  assumes level: "1 < LEVEL M" "LEVEL M \<le> MAX_SUPPORTED_LEVEL"
    and run: "unmap_4k M dealloc root vpn m s = Some (m', s')"
    and dist: "distinct (pt_pages M m (LEVEL M - 1) (root div PAGE_SIZE))" and mapped: "lookup M m root vpn \<noteq> None"
    and q: "q = walk_to M m (LEVEL M - 1) 0 (root div PAGE_SIZE) vpn"
    and last: "\<And>j. j < PTES_PER_DIR M \<Longrightarrow> j \<noteq> pt_index M 0 vpn \<Longrightarrow> \<not> Entry_is_valid M (m q j)"
  shows "dealloc s q 1 = Some s'" "q \<in> set (pt_pages M m' (LEVEL M - 1) (root div PAGE_SIZE))"
proof -
  have l0: "0 < LEVEL M" using level by simp
  obtain pts where w: "m' = clear_entry m q (pt_index M 0 vpn)" "length pts = MAX_SUPPORTED_LEVEL"
    "free_empty_tables M dealloc (take (LEVEL M - 1) pts) m' s = Some s'"
    "\<And>k. k \<le> LEVEL M - 1 \<Longrightarrow> pts ! k div PAGE_SIZE = walk_to M m (LEVEL M - 1) k (root div PAGE_SIZE) vpn"
    using unmap_4k_walk [OF l0 level(2) run] unfolding q by metis
  note tr = mapped [unfolded lookup_def]
  from translate_clear [OF dist tr q w(1)]
  show "q \<in> set (pt_pages M m' (LEVEL M - 1) (root div PAGE_SIZE))" by simp
  have t0: "pts ! 0 div PAGE_SIZE = q" using w(4) [of 0] q by simp
  have empty: "Table_is_empty M m' (pts ! 0) (PTES_PER_DIR M)"
    using last by (auto simp: Table_is_empty_def get_entry_def t0 w(1) list_all_iff clear_entry_def)
  have "LEVEL M - 1 = Suc (LEVEL M - 2)" using level by simp
  moreover obtain t ts where pts: "pts = t # ts" using w(2) by (cases pts) (auto simp: MAX_SUPPORTED_LEVEL_def)
  ultimately have "free_empty_tables M dealloc (t # take (LEVEL M - 2) ts) m' s = Some s'" using w(3) by simp
  then obtain ppn page s1 where st: "Table_page_number t = Some ppn" "virt_from_phys PAGE_OFFSET ppn = Some page"
    "dealloc s page 1 = Some s1" "free_empty_tables M dealloc (take (LEVEL M - 2) ts) m' s1 = Some s'"
    using empty pts by (auto simp: bind_eq_Some_conv)
  have "drop_bit PAGE_BITS t = q" using t0 pts by (simp add: drop_bit_eq_div PAGE_SIZE_def)
  with st(1,2) have page: "page = q"
    by (auto simp: Table_page_number_def phys_from_virt_def virt_from_phys_def usize_sub_Some usize_add_Some)
  have "s1 = s'"
  proof (cases "LEVEL M = 2")
    case False
    with level have l1: "1 \<le> LEVEL M - 1" by simp
    obtain u us where ts: "ts = u # us" using w(2) pts by (cases ts) (auto simp: MAX_SUPPORTED_LEVEL_def)
    define r where "r = walk_to M m (LEVEL M - 1) 1 (root div PAGE_SIZE) vpn"
    have u: "u div PAGE_SIZE = r" using w(4) [OF l1] pts ts by (simp add: r_def)
    have "r \<noteq> q" unfolding r_def q using l1 by (intro walk_to_distinct [OF dist tr]) auto
    then have "m' r = m r" using w(1) by (simp add: clear_entry_other)
    moreover have "Entry_is_valid M (m r (pt_index M 1 vpn))" unfolding r_def using l1 by (intro walk_to_valid [OF tr]) auto
    ultimately have "\<not> Table_is_empty M m' u (PTES_PER_DIR M)"
      using pt_index_less [of 1 vpn] by (auto simp: Table_is_empty_def get_entry_def u list_all_iff)
    moreover obtain n where "LEVEL M - 2 = Suc n" using False level by (cases "LEVEL M - 2") auto
    ultimately show ?thesis using st(4) ts by simp
  qed (use st(4) in simp)
  then show "dealloc s q 1 = Some s'" using st(3) page by simp
qed

lemma walk_to_bound: "k < l \<Longrightarrow> walk_to M m l k p vpn < 2 ^ 52"
proof (induction l arbitrary: p)
  case (Suc l)
  then show ?case by (cases "k = l") (auto simp: less_Suc_eq child_page_def, cases l, auto)
qed simp

lemma free_empty_tables_total:
  assumes "\<And>t. t \<in> set ts \<Longrightarrow> PAGE_OFFSET \<le> t div PAGE_SIZE \<and> t div PAGE_SIZE < 2 ^ 52"
    and "\<And>s p. \<exists>s'. dealloc s p 1 = Some s'"
  shows "\<exists>s'. free_empty_tables M dealloc ts m s = Some s'"
  using assms(1)
proof (induction ts arbitrary: s)
  case (Cons t ts)
  obtain s1 where s1: "dealloc s (t div PAGE_SIZE) 1 = Some s1" using assms(2) by blast
  have "Table_page_number t = Some (t div PAGE_SIZE - PAGE_OFFSET)"
    using Cons.prems [of t] by (simp add: Table_page_number_def phys_from_virt_def drop_bit_eq_div PAGE_SIZE_def)
  moreover have "virt_from_phys PAGE_OFFSET (t div PAGE_SIZE - PAGE_OFFSET) = Some (t div PAGE_SIZE)"
    using Cons.prems [of t] by (simp add: virt_from_phys_def)
  ultimately show ?case using s1 Cons by simp
qed simp

text \<open>Unmapping does not panic as long as the tables on the way are kernel pages.\<close>

lemma unmap_4k_total:
  assumes level: "0 < LEVEL M" "LEVEL M \<le> MAX_SUPPORTED_LEVEL"
    and walk: "\<And>k. k < LEVEL M - 1 \<Longrightarrow> PAGE_OFFSET \<le> walk_to M m (LEVEL M - 1) k (root div PAGE_SIZE) vpn"
    and total: "\<And>s p. \<exists>s'. dealloc s p 1 = Some s'"
  shows "\<exists>m' s'. unmap_4k M dealloc root vpn m s = Some (m', s')"
proof -
  let ?pts = "(replicate MAX_SUPPORTED_LEVEL Table_empty)[LEVEL M - 1 := root]"
  have l: "LEVEL M - 1 < length ?pts" using level by simp
  then have root: "?pts ! (LEVEL M - 1) = root" by simp
  from unmap_walk_spec [OF l, of vpn m] obtain pts where
    w: "unmap_walk M (LEVEL M - 1) ?pts vpn m =
      Some (pts, clear_entry m (walk_to M m (LEVEL M - 1) 0 (root div PAGE_SIZE) vpn) (pt_index M 0 vpn))"
    "length pts = MAX_SUPPORTED_LEVEL"
    "\<forall>k \<le> LEVEL M - 1. pts ! k div PAGE_SIZE = walk_to M m (LEVEL M - 1) k (root div PAGE_SIZE) vpn"
    unfolding root by auto
  have "PAGE_OFFSET \<le> t div PAGE_SIZE \<and> t div PAGE_SIZE < 2 ^ 52" if t: "t \<in> set (take (LEVEL M - 1) pts)" for t
  proof -
    from t obtain k where k: "k < LEVEL M - 1" "t = pts ! k" by (auto simp: in_set_conv_nth)
    then show ?thesis using w(3) walk [OF k(1)] walk_to_bound [OF k(1)] by simp
  qed
  then obtain s' where
    "free_empty_tables M dealloc (take (LEVEL M - 1) pts)
      (clear_entry m (walk_to M m (LEVEL M - 1) 0 (root div PAGE_SIZE) vpn) (pt_index M 0 vpn)) s = Some s'"
    using free_empty_tables_total [of "take (LEVEL M - 1) pts" dealloc] total by blast
  with w(1) l level show ?thesis by (simp add: unmap_4k_def)
qed

end

end
