(* ===== verification/Buddy_Pool.thy ===== *)
theory Buddy_Pool
  imports Page_Interface
begin

text \<open>
  The \<^verbatim>\<open>FreeNode\<close> allocator of \<^verbatim>\<open>src/src/page/buddy_allocator.rs\<close> (lines 12-108): a static array of
  nodes, and extended arrays placed on pages the buddy allocator hands out to itself, whose unused
  nodes are threaded on one singly linked list.

  A node's address is a \<open>node_ptr\<close>: \<open>PoolNode i\<close> is \<^verbatim>\<open>&node_pool.free_nodes[i]\<close> and \<open>ExtNode p i\<close> is
  \<^verbatim>\<open>&pool.free_nodes[i]\<close> of the extended pool on page \<open>p\<close>. The contents of all nodes are one store,
  the field \<open>free_nodes\<close> of the pool, so that aliasing between the lists is explicit: \<open>node_path\<close>
  says which nodes a list of the store runs through.
\<close>

section \<open>Constants of the allocator\<close>

definition NODE_COMPATIBILITY :: nat where "NODE_COMPATIBILITY = 512"
definition EXT_NODE_COMPATIBILITY :: nat where "EXT_NODE_COMPATIBILITY = 8196"
definition BUDDY_ALLOC_MAX_POW :: nat where "BUDDY_ALLOC_MAX_POW = VA_BITS - PAGE_BITS"
definition MIN_POOL_REMAIN :: nat where "MIN_POOL_REMAIN = BUDDY_ALLOC_MAX_POW"
definition MEM_ZONES :: nat where "MEM_ZONES = 16"

section \<open>Nodes and the node pool\<close>

datatype node_ptr = PoolNode nat | ExtNode nat nat

record FreeNode =
  page_number :: nat
  next_node :: "node_ptr option"

type_synonym node_mem = "node_ptr \<Rightarrow> FreeNode"

definition FreeNode_default :: FreeNode where
  "FreeNode_default = \<lparr>page_number = 0, next_node = None\<rparr>"

definition FreeNode_new :: "nat \<Rightarrow> FreeNode" where
  "FreeNode_new n = \<lparr>page_number = n, next_node = None\<rparr>"

record FreeNodePool =
  free_nodes :: node_mem
  freenode_remain :: nat
  free_start :: "node_ptr option"

definition FreeNodePool_default :: FreeNodePool where
  "FreeNodePool_default =
     \<lparr>free_nodes = (\<lambda>_. FreeNode_default), freenode_remain = 0, free_start = None\<rparr>"

definition write_next :: "node_mem \<Rightarrow> node_ptr \<Rightarrow> node_ptr option \<Rightarrow> node_mem" where
  "write_next m a p = m(a := (m a)\<lparr>next_node := p\<rparr>)"

text \<open>The loop both \<^verbatim>\<open>init\<close> functions run over an array of \<open>n\<close> nodes whose addresses are \<open>addr i\<close>.\<close>

definition link_nodes :: "(nat \<Rightarrow> node_ptr) \<Rightarrow> nat \<Rightarrow> node_mem \<Rightarrow> node_mem" where
  "link_nodes addr n m =
     write_next
       (fold (\<lambda>i m. write_next m (addr i) (Some (addr (Suc i)))) [0..<n - 1] m)
       (addr (n - 1)) None"

definition FreeNodePool_init :: "FreeNodePool \<Rightarrow> FreeNodePool" where
  "FreeNodePool_init pool =
     pool\<lparr>freenode_remain := NODE_COMPATIBILITY,
          free_start := Some (PoolNode 0),
          free_nodes := link_nodes PoolNode NODE_COMPATIBILITY (free_nodes pool)\<rparr>"

definition alloc_node :: "FreeNodePool \<Rightarrow> (node_ptr \<times> FreeNodePool) option" where
  "alloc_node pool = do {
     new_node \<leftarrow> free_start pool;
     remain \<leftarrow> usize_sub (freenode_remain pool) 1;
     Some (new_node, pool\<lparr>freenode_remain := remain,
                          free_start := next_node (free_nodes pool new_node)\<rparr>)
   }"

definition recycle_node :: "FreeNodePool \<Rightarrow> node_ptr \<Rightarrow> FreeNodePool option" where
  "recycle_node pool node = do {
     remain \<leftarrow> usize_add (freenode_remain pool) 1;
     Some (pool\<lparr>free_nodes := write_next (free_nodes pool) node (free_start pool),
                free_start := Some node,
                freenode_remain := remain\<rparr>)
   }"

definition ExtendedFreeNodePool_init :: "nat \<Rightarrow> node_mem \<Rightarrow> node_mem" where
  "ExtendedFreeNodePool_init page = link_nodes (ExtNode page) EXT_NODE_COMPATIBILITY"

section \<open>Lists in the store\<close>

fun node_path :: "node_mem \<Rightarrow> node_ptr option \<Rightarrow> node_ptr list \<Rightarrow> bool" where
  "node_path m p [] = (p = None)"
| "node_path m p (a # as) = (p = Some a \<and> node_path m (next_node (m a)) as)"

text \<open>\<open>pool_rep d pool frees\<close>: the unused nodes are \<open>frees\<close>, and the counter \<open>freenode_remain\<close> is \<open>d\<close> ahead
  of their number (\<^verbatim>\<open>new_extended_pool\<close> raises the counter before the nodes exist).\<close>

definition pool_rep :: "nat \<Rightarrow> FreeNodePool \<Rightarrow> node_ptr list \<Rightarrow> bool" where
  "pool_rep d pool frees \<longleftrightarrow>
     node_path (free_nodes pool) (free_start pool) frees \<and>
     freenode_remain pool = length frees + d \<and> distinct frees"

lemma write_next_other [simp]:
  "a \<noteq> b \<Longrightarrow> write_next m a p b = m b" "b \<noteq> a \<Longrightarrow> write_next m a p b = m b"
  by (simp_all add: write_next_def)

lemma write_next_page [simp]: "page_number (write_next m a p b) = page_number (m b)"
  by (simp add: write_next_def)

lemma write_next_same [simp]: "next_node (write_next m a p a) = p"
  by (simp add: write_next_def)

lemma node_path_None [simp]: "node_path m None as \<longleftrightarrow> as = []"
  by (cases as) auto

lemma node_path_Some: "node_path m (Some a) as \<longleftrightarrow> (\<exists>bs. as = a # bs \<and> node_path m (next_node (m a)) bs)"
  by (cases as) auto

lemma node_path_cong:
  "(\<And>a. a \<in> set as \<Longrightarrow> next_node (m a) = next_node (m' a)) \<Longrightarrow> node_path m p as = node_path m' p as"
  by (induction as arbitrary: p) auto

lemma node_path_upd [simp]: "a \<notin> set as \<Longrightarrow> node_path (m(a := v)) p as = node_path m p as"
  by (rule node_path_cong) auto

lemma node_path_write_next [simp]:
  "a \<notin> set as \<Longrightarrow> node_path (write_next m a q) p as = node_path m p as"
  by (simp add: write_next_def)

lemma node_path_unique: "node_path m p as \<Longrightarrow> node_path m p bs \<Longrightarrow> as = bs"
proof (induction as arbitrary: p bs)
  case Nil
  then show ?case by (cases bs) auto
next
  case (Cons a as)
  then show ?case by (cases bs) auto
qed

text \<open>\<open>link_nodes\<close> threads \<open>addr 0\<close>, ..., \<open>addr (n - 1)\<close> in this order and leaves every other node
  alone.\<close>

lemma link_fold_next:
  assumes "inj addr"
  shows "next_node (fold (\<lambda>i m. write_next m (addr i) (Some (addr (Suc i)))) [0..<k] m a) =
    (if a \<in> addr ` {0..<k} then Some (addr (Suc (inv_into UNIV addr a))) else next_node (m a))"
proof (induction k)
  case (Suc k)
  have "inv_into UNIV addr (addr k) = k" by (rule inv_f_f [OF assms])
  with Suc show ?case
    by (cases "a = addr k") (auto simp: less_Suc_eq image_iff dest: injD [OF assms])
qed simp

lemma link_fold_other:
  "a \<notin> addr ` {0..<k} \<Longrightarrow>
   fold (\<lambda>i m. write_next m (addr i) (Some (addr (Suc i)))) [0..<k] m a = m a"
proof (induction k)
  case (Suc k)
  then have "a \<notin> addr ` {0..<k}" "a \<noteq> addr k" by auto
  with Suc.IH show ?case by simp
qed simp

lemma link_nodes_other:
  "0 < n \<Longrightarrow> a \<notin> addr ` {0..<n} \<Longrightarrow> link_nodes addr n m a = m a"
proof -
  assume "0 < n" and a: "a \<notin> addr ` {0..<n}"
  then have "a \<noteq> addr (n - 1)" "a \<notin> addr ` {0..<n - 1}" by auto
  then show ?thesis using link_fold_other [of a addr "n - 1" m] by (simp add: link_nodes_def)
qed

lemma link_nodes_next:
  assumes "inj addr" "i < n"
  shows "next_node (link_nodes addr n m (addr i)) = (if i = n - 1 then None else Some (addr (Suc i)))"
proof -
  have "inv_into UNIV addr (addr i) = i" by (rule inv_f_f [OF assms(1)])
  moreover have "i \<noteq> n - 1 \<Longrightarrow> addr i \<noteq> addr (n - 1)" using injD [OF assms(1)] by blast
  ultimately show ?thesis using assms(2)
    unfolding link_nodes_def by (cases "i = n - 1") (auto simp: link_fold_next [OF assms(1)])
qed

lemma link_nodes_path_from:
  assumes "inj addr" "i < n"
  shows "node_path (link_nodes addr n m) (Some (addr i)) (map addr [i..<n])"
  using assms(2)
proof (induction "n - i" arbitrary: i)
  case (Suc d)
  show ?case
  proof (cases "i = n - 1")
    case True
    with Suc.prems have "[i..<n] = [i]" by (simp add: upt_rec)
    with True show ?thesis using link_nodes_next [OF assms(1) Suc.prems] by simp
  next
    case False
    with Suc.prems have "node_path (link_nodes addr n m) (Some (addr (Suc i))) (map addr [i + 1..<n])"
      using Suc.hyps(1) [of "Suc i"] Suc.hyps(2) by simp
    with False Suc.prems show ?thesis
      using link_nodes_next [OF assms(1) Suc.prems] by (simp add: upt_conv_Cons)
  qed
qed simp

lemma inj_PoolNode [simp]: "inj PoolNode" and inj_ExtNode [simp]: "inj (ExtNode p)"
  by (auto intro: injI)

lemma pool_rep_init:
  "pool_rep 0 (FreeNodePool_init pool) (map PoolNode [0..<NODE_COMPATIBILITY])"
  using link_nodes_path_from [of PoolNode 0 NODE_COMPATIBILITY "free_nodes pool"]
  by (simp add: pool_rep_def FreeNodePool_init_def NODE_COMPATIBILITY_def distinct_map inj_on_def)

section \<open>The pool's operations on its list\<close>

lemma alloc_node_rep:
  assumes "pool_rep d pool (a # frees)"
  obtains pool' where "alloc_node pool = Some (a, pool')" "pool_rep d pool' frees"
    "free_nodes pool' = free_nodes pool"
proof
  let ?pool' = "pool\<lparr>freenode_remain := length frees + d,
                     free_start := next_node (free_nodes pool a)\<rparr>"
  show "alloc_node pool = Some (a, ?pool')"
    using assms by (simp add: pool_rep_def alloc_node_def)
  show "pool_rep d ?pool' frees" using assms by (simp add: pool_rep_def)
qed simp

lemma alloc_node_empty: "pool_rep d pool [] \<Longrightarrow> alloc_node pool = None"
  by (simp add: pool_rep_def alloc_node_def)

lemma recycle_node_rep:
  assumes "pool_rep d pool frees" "a \<notin> set frees" "length frees + d + 1 < 2 ^ 64"
  obtains pool' where "recycle_node pool a = Some pool'" "pool_rep d pool' (a # frees)"
    "free_nodes pool' = write_next (free_nodes pool) a (free_start pool)"
proof
  let ?pool' = "pool\<lparr>free_nodes := write_next (free_nodes pool) a (free_start pool),
                free_start := Some a, freenode_remain := length frees + d + 1\<rparr>"
  show "recycle_node pool a = Some ?pool'"
    using assms by (simp add: pool_rep_def recycle_node_def)
  show "pool_rep d ?pool' (a # frees)" using assms by (simp add: pool_rep_def)
qed simp

end
