(* ===== verification/Buddy_Zone.thy ===== *)
theory Buddy_Zone
  imports Buddy_Pool
begin

text \<open>
  The memory zones of \<^verbatim>\<open>src/src/page/buddy_allocator.rs\<close> (lines 110-280). A zone holds one free list per
  power of two; the lists live in the node store of \<^verbatim>\<open>Buddy_Pool\<close>.

  The first half translates \<^verbatim>\<open>MemoryZone\<close> and its methods, pointers and all. The second half is the
  abstract allocator the pointers implement: free lists as lists of page numbers
  (\<open>l_alloc\<close>, \<open>l_free\<close>). \<^verbatim>\<open>Buddy_Refinement\<close> relates the two.
\<close>

section \<open>MemoryZone\<close>

record MemoryZone =
  base :: nat
  pages :: nat
  pows :: "node_ptr option list"

definition MemoryZone_default :: MemoryZone where
  "MemoryZone_default = \<lparr>base = 0, pages = 0, pows = replicate BUDDY_ALLOC_MAX_POW None\<rparr>"

definition floor_to_power_2 :: "nat \<Rightarrow> nat option" where
  "floor_to_power_2 mem_size = do {
     bits \<leftarrow> usize_sub 64 (leading_zeros mem_size);
     usize_sub bits 1
   }"

definition ceil_to_power_2 :: "nat \<Rightarrow> nat option" where
  "ceil_to_power_2 mem_size = next_power_of_two mem_size"

definition add_node ::
  "MemoryZone \<Rightarrow> FreeNodePool \<Rightarrow> nat \<Rightarrow> FreeNode \<Rightarrow> (MemoryZone \<times> FreeNodePool) option" where
  "add_node zone pool pow node = do {
     (new_node, pool) \<leftarrow> alloc_node pool;
     head \<leftarrow> nth_opt (pows zone) pow;
     let pool = pool\<lparr>free_nodes := (free_nodes pool)(new_node := node\<lparr>next_node := head\<rparr>)\<rparr>;
     heads \<leftarrow> set_opt (pows zone) pow (Some new_node);
     Some (zone\<lparr>pows := heads\<rparr>, pool)
   }"

definition new_node :: "MemoryZone \<Rightarrow> FreeNodePool \<Rightarrow> nat \<Rightarrow> (node_ptr \<times> MemoryZone) option" where
  "new_node zone pool pow = do {
     head \<leftarrow> nth_opt (pows zone) pow;
     node \<leftarrow> head;
     heads \<leftarrow> set_opt (pows zone) pow (next_node (free_nodes pool node));
     Some (node, zone\<lparr>pows := heads\<rparr>)
   }"

text \<open>The loop of \<^verbatim>\<open>MemoryZone::new\<close> that cuts a run of pages into powers of two, largest first.\<close>

function zone_fill ::
  "MemoryZone \<Rightarrow> FreeNodePool \<Rightarrow> nat \<Rightarrow> nat \<Rightarrow> (MemoryZone \<times> FreeNodePool) option" where
  "zone_fill zone pool n current_ptr =
     (if 0 < n then do {
        pow \<leftarrow> floor_to_power_2 n;
        (zone, pool) \<leftarrow> add_node zone pool pow (FreeNode_new current_ptr);
        rest \<leftarrow> usize_sub n (2 ^ pow);
        current_ptr \<leftarrow> usize_add current_ptr (2 ^ pow);
        zone_fill zone pool rest current_ptr
      } else Some (zone, pool))"
  by pat_completeness auto
termination
  by (relation "measure (\<lambda>(zone, pool, n, current_ptr). n)") (auto simp: rust_simps)

declare zone_fill.simps [simp del]

definition MemoryZone_new ::
  "FreeNodePool \<Rightarrow> nat \<Rightarrow> nat \<Rightarrow> (MemoryZone \<times> FreeNodePool) option" where
  "MemoryZone_new pool b n =
     zone_fill \<lparr>base = b, pages = n, pows = replicate BUDDY_ALLOC_MAX_POW None\<rparr> pool n 0"

text \<open>\<^verbatim>\<open>for i in (0..pow).rev()\<close> of \<^verbatim>\<open>alloc_pages\<close>: the right halves go back, the left half is kept.\<close>

fun split_loop ::
  "nat \<Rightarrow> MemoryZone \<Rightarrow> FreeNodePool \<Rightarrow> nat \<Rightarrow> nat \<Rightarrow> (nat option \<times> MemoryZone \<times> FreeNodePool) option" where
  "split_loop 0 zone pool left_start pages_count = Some (None, zone, pool)"
| "split_loop (Suc i) zone pool left_start pages_count = do {
     right_start \<leftarrow> usize_add left_start (2 ^ i);
     (zone, pool) \<leftarrow> add_node zone pool i (FreeNode_new right_start);
     if pages_count = 2 ^ i
     then do { r \<leftarrow> usize_add (base zone) left_start; Some (Some r, zone, pool) }
     else split_loop i zone pool left_start pages_count
   }"

fun zone_alloc_loop ::
  "nat list \<Rightarrow> MemoryZone \<Rightarrow> FreeNodePool \<Rightarrow> nat \<Rightarrow> (nat option \<times> MemoryZone \<times> FreeNodePool) option" where
  "zone_alloc_loop [] zone pool pages_count = Some (None, zone, pool)"
| "zone_alloc_loop (pow # ps) zone pool pages_count = do {
     start \<leftarrow> nth_opt (pows zone) pow;
     if start \<noteq> None \<and> 2 ^ pow = pages_count
     then do {
       (node, zone) \<leftarrow> new_node zone pool pow;
       pool \<leftarrow> recycle_node pool node;
       r \<leftarrow> usize_add (base zone) (page_number (free_nodes pool node));
       Some (Some r, zone, pool)
     }
     else if start \<noteq> None \<and> pages_count < 2 ^ pow
     then do {
       (node, zone) \<leftarrow> new_node zone pool pow;
       let left_start = page_number (free_nodes pool node);
       pool \<leftarrow> recycle_node pool node;
       (r, zone, pool) \<leftarrow> split_loop pow zone pool left_start pages_count;
       (case r of
          Some r \<Rightarrow> Some (Some r, zone, pool)
        | None \<Rightarrow> zone_alloc_loop ps zone pool pages_count)
     }
     else zone_alloc_loop ps zone pool pages_count
   }"

definition zone_alloc_pages ::
  "MemoryZone \<Rightarrow> FreeNodePool \<Rightarrow> nat \<Rightarrow> (nat option \<times> MemoryZone \<times> FreeNodePool) option" where
  "zone_alloc_pages zone pool pages_count = do {
     up \<leftarrow> next_power_of_two pages_count;
     rust_assert (pages_count = up);
     zone_alloc_loop [0..<BUDDY_ALLOC_MAX_POW] zone pool pages_count
   }"

text \<open>The \<^verbatim>\<open>while let\<close> walk of \<^verbatim>\<open>free_pages\<close> over the nodes behind \<open>current\<close>: the node before the partner
  and the partner, if some node passes the test. A cyclic list would make it run forever.\<close>

partial_function (option) find_partner ::
  "node_mem \<Rightarrow> (nat \<Rightarrow> bool option) \<Rightarrow> node_ptr \<Rightarrow> (node_ptr \<times> node_ptr) option option" where
  "find_partner m is_partner current =
     (case next_node (m current) of
        None \<Rightarrow> Some None
      | Some nxt \<Rightarrow> do {
          hit \<leftarrow> is_partner (page_number (m nxt));
          if hit then Some (Some (current, nxt)) else find_partner m is_partner nxt
        })"

definition left_node_test :: "nat \<Rightarrow> nat \<Rightarrow> nat \<Rightarrow> bool option" where
  "left_node_test page_relative found_pages n = do {
     s \<leftarrow> usize_add page_relative found_pages;
     Some (s = n)
   }"

definition right_node_test :: "nat \<Rightarrow> nat \<Rightarrow> nat \<Rightarrow> bool option" where
  "right_node_test page_relative found_pages n = do {
     s \<leftarrow> usize_add n found_pages;
     Some (s = page_relative)
   }"

text \<open>What both halves of the merge do with a list: unlink the partner, if it is there, and recycle its
  node.\<close>

definition take_partner ::
  "MemoryZone \<Rightarrow> FreeNodePool \<Rightarrow> nat \<Rightarrow> (nat \<Rightarrow> bool option) \<Rightarrow> node_ptr \<Rightarrow>
   (bool \<times> MemoryZone \<times> FreeNodePool) option" where
  "take_partner zone pool pow is_partner current = do {
     hit \<leftarrow> is_partner (page_number (free_nodes pool current));
     if hit then do {
       heads \<leftarrow> set_opt (pows zone) pow (next_node (free_nodes pool current));
       pool \<leftarrow> recycle_node pool current;
       Some (True, zone\<lparr>pows := heads\<rparr>, pool)
     } else do {
       found \<leftarrow> find_partner (free_nodes pool) is_partner current;
       (case found of
          None \<Rightarrow> Some (False, zone, pool)
        | Some (prev, nxt) \<Rightarrow> do {
            let pool = pool\<lparr>free_nodes :=
              write_next (free_nodes pool) prev (next_node (free_nodes pool nxt))\<rparr>;
            pool \<leftarrow> recycle_node pool nxt;
            Some (True, zone, pool)
          })
     }
   }"

fun merge_loop ::
  "nat list \<Rightarrow> MemoryZone \<Rightarrow> FreeNodePool \<Rightarrow> nat \<Rightarrow> nat \<Rightarrow> nat \<Rightarrow>
   (MemoryZone \<times> FreeNodePool \<times> nat \<times> nat) option" where
  "merge_loop [] zone pool pow_final page_relative pages_count =
     Some (zone, pool, pow_final, page_relative)"
| "merge_loop (pow # ps) zone pool pow_final page_relative pages_count = do {
     head \<leftarrow> nth_opt (pows zone) pow;
     (case head of
        None \<Rightarrow> Some (zone, pool, pow_final, page_relative)
      | Some current \<Rightarrow>
          if 2 ^ (pow + 1) dvd page_relative then do {
            (hit, zone, pool) \<leftarrow>
              take_partner zone pool pow (left_node_test page_relative (2 ^ pow)) current;
            if hit then do {
              pow_final \<leftarrow> usize_add pow_final 1;
              merge_loop ps zone pool pow_final page_relative (usize_shl pages_count 1)
            } else merge_loop ps zone pool pow_final page_relative pages_count
          } else do {
            (hit, zone, pool) \<leftarrow>
              take_partner zone pool pow (right_node_test page_relative (2 ^ pow)) current;
            if hit then do {
              pow_final \<leftarrow> usize_add pow_final 1;
              page_relative \<leftarrow> usize_sub page_relative pages_count;
              merge_loop ps zone pool pow_final page_relative (usize_shl pages_count 1)
            } else merge_loop ps zone pool pow_final page_relative pages_count
          })
   }"

definition start_pow :: "nat \<Rightarrow> nat \<Rightarrow> nat" where
  "start_pow n pages_count =
     (case find (\<lambda>pow. 2 ^ pow = pages_count) [0..<n] of None \<Rightarrow> 0 | Some pow \<Rightarrow> pow)"

definition zone_free_pages ::
  "MemoryZone \<Rightarrow> FreeNodePool \<Rightarrow> nat \<Rightarrow> nat \<Rightarrow> (MemoryZone \<times> FreeNodePool) option" where
  "zone_free_pages zone pool page_start pages_count = do {
     up \<leftarrow> next_power_of_two pages_count;
     rust_assert (pages_count = up);
     page_relative \<leftarrow> usize_sub page_start (base zone);
     let pow_start = start_pow (length (pows zone)) pages_count;
     (zone, pool, pow_final, page_relative) \<leftarrow>
       merge_loop [pow_start..<BUDDY_ALLOC_MAX_POW] zone pool pow_start page_relative pages_count;
     add_node zone pool pow_final (FreeNode_new page_relative)
   }"

section \<open>The free lists without pointers\<close>

type_synonym free_lists = "nat list list"

definition l_add :: "free_lists \<Rightarrow> nat \<Rightarrow> nat \<Rightarrow> free_lists" where
  "l_add fl k pg = fl[k := pg # fl ! k]"

fun l_split :: "nat \<Rightarrow> free_lists \<Rightarrow> nat \<Rightarrow> nat \<Rightarrow> nat option \<times> free_lists" where
  "l_split 0 fl left cnt = (None, fl)"
| "l_split (Suc i) fl left cnt =
     (let fl = l_add fl i (left + 2 ^ i)
      in if cnt = 2 ^ i then (Some left, fl) else l_split i fl left cnt)"

fun l_alloc :: "nat list \<Rightarrow> free_lists \<Rightarrow> nat \<Rightarrow> nat option \<times> free_lists" where
  "l_alloc [] fl cnt = (None, fl)"
| "l_alloc (pow # ps) fl cnt =
     (if fl ! pow \<noteq> [] \<and> 2 ^ pow = cnt then (Some (hd (fl ! pow)), fl[pow := tl (fl ! pow)])
      else if fl ! pow \<noteq> [] \<and> cnt < 2 ^ pow
      then l_split pow (fl[pow := tl (fl ! pow)]) (hd (fl ! pow)) cnt
      else l_alloc ps fl cnt)"

definition buddy_of :: "nat \<Rightarrow> nat \<Rightarrow> nat" where
  "buddy_of pow pg = (if 2 ^ (pow + 1) dvd pg then pg + 2 ^ pow else pg - 2 ^ pow)"

fun l_merge :: "nat list \<Rightarrow> free_lists \<Rightarrow> nat \<Rightarrow> nat \<Rightarrow> free_lists \<times> nat \<times> nat" where
  "l_merge [] fl pf rel = (fl, pf, rel)"
| "l_merge (pow # ps) fl pf rel =
     (if fl ! pow = [] then (fl, pf, rel)
      else if 2 ^ (pow + 1) dvd rel then
        (if rel + 2 ^ pow \<in> set (fl ! pow)
         then l_merge ps (fl[pow := remove1 (rel + 2 ^ pow) (fl ! pow)]) (Suc pf) rel
         else l_merge ps fl pf rel)
      else
        (if 2 ^ pow \<le> rel \<and> rel - 2 ^ pow \<in> set (fl ! pow)
         then l_merge ps (fl[pow := remove1 (rel - 2 ^ pow) (fl ! pow)]) (Suc pf) (rel - 2 ^ pf)
         else l_merge ps fl pf rel))"

definition l_free :: "free_lists \<Rightarrow> nat \<Rightarrow> nat \<Rightarrow> free_lists" where
  "l_free fl k rel =
     (case l_merge [k..<BUDDY_ALLOC_MAX_POW] fl k rel of (fl, pf, rel) \<Rightarrow> l_add fl pf rel)"

function l_fill :: "free_lists \<Rightarrow> nat \<Rightarrow> nat \<Rightarrow> free_lists" where
  "l_fill fl n cur =
     (if 0 < n
      then let pow = bit_length n - 1 in l_fill (l_add fl pow cur) (n - 2 ^ pow) (cur + 2 ^ pow)
      else fl)"
  by pat_completeness auto
termination
  by (relation "measure (\<lambda>(fl, n, cur). n)") auto

declare l_fill.simps [simp del]

end
