(* ===== verification/Buddy_Refinement.thy ===== *)
theory Buddy_Refinement
  imports Buddy_Zone
begin

text \<open>
  The pointer code of a memory zone implements the list code of \<^verbatim>\<open>Buddy_Zone\<close>.

  \<open>zone_rep d zone pool nss frees\<close> says that the heads of \<open>zone\<close> run through the node lists \<open>nss\<close>, one per
  power, and the pool's head through \<open>frees\<close>, with no node on two lists; \<open>zone_lists\<close> reads the page numbers
  off. \<open>zone_frame\<close> says what an operation may not do: lose or invent a node, or write a node that is not
  its own, so that several zones can share one pool.
\<close>

definition zone_rep :: "nat \<Rightarrow> MemoryZone \<Rightarrow> FreeNodePool \<Rightarrow> node_ptr list list \<Rightarrow> node_ptr list \<Rightarrow> bool" where
  "zone_rep d zone pool nss frees \<longleftrightarrow>
     length (pows zone) = BUDDY_ALLOC_MAX_POW \<and> length nss = BUDDY_ALLOC_MAX_POW \<and>
     (\<forall>k < BUDDY_ALLOC_MAX_POW. node_path (free_nodes pool) (pows zone ! k) (nss ! k)) \<and>
     pool_rep d pool frees \<and> distinct (concat nss @ frees) \<and> length (concat nss @ frees) + d < 2 ^ 64"

definition zone_lists :: "FreeNodePool \<Rightarrow> node_ptr list list \<Rightarrow> free_lists" where
  "zone_lists pool nss = map (map (\<lambda>a. page_number (free_nodes pool a))) nss"

definition zone_frame ::
  "MemoryZone \<Rightarrow> FreeNodePool \<Rightarrow> node_ptr list list \<Rightarrow> node_ptr list \<Rightarrow>
   MemoryZone \<Rightarrow> FreeNodePool \<Rightarrow> node_ptr list list \<Rightarrow> node_ptr list \<Rightarrow> bool" where
  "zone_frame zone pool nss frees zone' pool' nss' frees' \<longleftrightarrow>
     base zone' = base zone \<and> pages zone' = pages zone \<and>
     mset (concat nss' @ frees') = mset (concat nss @ frees) \<and>
     (\<forall>a. a \<notin> set (concat nss) \<union> set frees \<longrightarrow> free_nodes pool' a = free_nodes pool a)"

text \<open>Every block of the lists is aligned to its size and lies in the first \<open>n\<close> pages.\<close>

definition lists_ok :: "nat \<Rightarrow> free_lists \<Rightarrow> bool" where
  "lists_ok n fl \<longleftrightarrow> length fl = BUDDY_ALLOC_MAX_POW \<and>
     (\<forall>k < BUDDY_ALLOC_MAX_POW. \<forall>pg \<in> set (fl ! k). 2 ^ k dvd pg \<and> pg + 2 ^ k \<le> n)"

section \<open>Lists of lists\<close>

lemma mset_concat_update:
  "k < length xss \<Longrightarrow> mset (concat (xss[k := ys])) + mset (xss ! k) = mset (concat xss) + mset ys"
proof (induction xss arbitrary: k)
  case (Cons xs xss)
  then show ?case by (cases k) (auto simp: ac_simps)
qed simp

lemma distinct_concat_nth_disjoint:
  assumes "distinct (concat xss)" "i < length xss" "j < length xss" "i \<noteq> j"
  shows "set (xss ! i) \<inter> set (xss ! j) = {}"
  using assms
proof (induction xss arbitrary: i j)
  case (Cons xs xss)
  have "set xs \<inter> set (xss ! k) = {}" if "k < length xss" for k
    using Cons.prems(1) that nth_mem [OF that] by fastforce
  with Cons show ?case by (cases i; cases j) auto
qed simp

lemma nth_subset_concat: "k < length xss \<Longrightarrow> set (xss ! k) \<subseteq> set (concat xss)"
  using nth_mem by fastforce

section \<open>Frames\<close>

lemma zone_frame_refl [simp]: "zone_frame zone pool nss frees zone pool nss frees"
  by (simp add: zone_frame_def)

lemma zone_frame_set:
  "zone_frame zone pool nss frees zone' pool' nss' frees' \<Longrightarrow>
   set (concat nss') \<union> set frees' = set (concat nss) \<union> set frees"
  by (metis zone_frame_def set_append set_mset_mset)

lemma zone_frame_trans:
  "zone_frame z p n f z' p' n' f' \<Longrightarrow> zone_frame z' p' n' f' z'' p'' n'' f'' \<Longrightarrow>
   zone_frame z p n f z'' p'' n'' f''"
  using zone_frame_set unfolding zone_frame_def by metis

lemma zone_repD:
  assumes "zone_rep d zone pool nss frees"
  shows "length (pows zone) = BUDDY_ALLOC_MAX_POW" "length nss = BUDDY_ALLOC_MAX_POW"
    "\<And>k. k < BUDDY_ALLOC_MAX_POW \<Longrightarrow> node_path (free_nodes pool) (pows zone ! k) (nss ! k)"
    "pool_rep d pool frees" "distinct (concat nss @ frees)" "length (concat nss @ frees) + d < 2 ^ 64"
  using assms by (auto simp: zone_rep_def)

lemma zone_lists_length [simp]: "length (zone_lists pool nss) = length nss"
  by (simp add: zone_lists_def)

lemma zone_lists_nth [simp]:
  "k < length nss \<Longrightarrow> zone_lists pool nss ! k = map (\<lambda>a. page_number (free_nodes pool a)) (nss ! k)"
  by (simp add: zone_lists_def)

text \<open>The shape every step has: the heads of one list and the pool change, the nodes are permuted, and the
  store changes only at nodes that are now on the changed list or in the pool.\<close>

lemma zone_rep_step:
  assumes rep: "zone_rep d zone pool nss frees" and k: "k < BUDDY_ALLOC_MAX_POW"
    and path: "node_path (free_nodes pool') h ns'"
    and free': "pool_rep d pool' frees'"
    and nodes: "mset ns' + mset frees' = mset (nss ! k) + mset frees"
    and same: "\<And>a. a \<notin> set (nss ! k) \<union> set frees \<Longrightarrow> free_nodes pool' a = free_nodes pool a"
    and zone': "zone' = zone\<lparr>pows := (pows zone)[k := h]\<rparr>"
  shows "zone_rep d zone' pool' (nss[k := ns']) frees'"
    "zone_frame zone pool nss frees zone' pool' (nss[k := ns']) frees'"
proof -
  note [simp] = zone_repD(1,2) [OF rep]
  from mset_concat_update [of k nss ns'] k nodes
  have "mset (concat (nss[k := ns'])) + mset frees' + mset (nss ! k) = mset (concat nss @ frees) + mset (nss ! k)"
    by (simp add: ac_simps)
  then have ms: "mset (concat (nss[k := ns']) @ frees') = mset (concat nss @ frees)" by simp
  have sub: "set (nss ! k) \<subseteq> set (concat nss)" using k by (intro nth_subset_concat) simp
  show "zone_frame zone pool nss frees zone' pool' (nss[k := ns']) frees'"
    using ms same sub zone' unfolding zone_frame_def by auto
  have "node_path (free_nodes pool') (pows zone' ! i) (nss[k := ns'] ! i)"
    if i: "i < BUDDY_ALLOC_MAX_POW" for i
  proof (cases "i = k")
    case True
    with path k zone' show ?thesis by simp
  next
    case False
    have "set (nss ! i) \<inter> set (nss ! k) = {}"
      using zone_repD(5) [OF rep] i k False by (intro distinct_concat_nth_disjoint) auto
    moreover have "set (nss ! i) \<inter> set frees = {}"
      using zone_repD(5) [OF rep] nth_subset_concat [of i nss] i by auto
    ultimately have "free_nodes pool' a = free_nodes pool a" if "a \<in> set (nss ! i)" for a
      using same [of a] that by blast
    then have "node_path (free_nodes pool') (pows zone ! i) (nss ! i)"
      using zone_repD(3) [OF rep i] node_path_cong [of "nss ! i" "free_nodes pool'" "free_nodes pool"]
      by simp
    then show ?thesis using False zone' by simp
  qed
  moreover have "distinct (concat (nss[k := ns']) @ frees')"
    using mset_eq_imp_distinct_iff [OF ms] zone_repD(5) [OF rep] by blast
  moreover have "length (concat (nss[k := ns']) @ frees') + d < 2 ^ 64"
    using mset_eq_length [OF ms] zone_repD(6) [OF rep] by argo
  ultimately show "zone_rep d zone' pool' (nss[k := ns']) frees'"
    unfolding zone_rep_def using free' zone' by simp
qed

lemma zone_lists_step:
  assumes rep: "zone_rep d zone pool nss frees" and k: "k < BUDDY_ALLOC_MAX_POW"
    and same: "\<And>a. a \<notin> set (nss ! k) \<union> set frees \<Longrightarrow> free_nodes pool' a = free_nodes pool a"
  shows "zone_lists pool' (nss[k := ns']) =
    (zone_lists pool nss)[k := map (\<lambda>a. page_number (free_nodes pool' a)) ns']"
proof (rule nth_equalityI)
  fix i assume "i < length (zone_lists pool' (nss[k := ns']))"
  then have i: "i < length nss" by simp
  show "zone_lists pool' (nss[k := ns']) ! i =
    (zone_lists pool nss)[k := map (\<lambda>a. page_number (free_nodes pool' a)) ns'] ! i"
  proof (cases "i = k")
    case False
    have "set (nss ! i) \<inter> set (nss ! k) = {}"
      using zone_repD(2,5) [OF rep] i k False by (intro distinct_concat_nth_disjoint) auto
    moreover have "set (nss ! i) \<inter> set frees = {}"
      using zone_repD(5) [OF rep] nth_subset_concat [of i nss] i by auto
    ultimately have "free_nodes pool' a = free_nodes pool a" if "a \<in> set (nss ! i)" for a
      using same [of a] that by blast
    with i False show ?thesis by simp
  qed (use i in simp)
qed simp

section \<open>Adding and removing a block\<close>

lemma add_node_refines:
  assumes rep: "zone_rep d zone pool nss (a # frees)" and k: "k < BUDDY_ALLOC_MAX_POW"
  obtains zone' pool' where "add_node zone pool k (FreeNode_new pg) = Some (zone', pool')"
    "zone_rep d zone' pool' (nss[k := a # nss ! k]) frees"
    "zone_lists pool' (nss[k := a # nss ! k]) = l_add (zone_lists pool nss) k pg"
    "zone_frame zone pool nss (a # frees) zone' pool' (nss[k := a # nss ! k]) frees"
proof -
  note [simp] = zone_repD(1,2) [OF rep]
  obtain p1 where p1: "alloc_node pool = Some (a, p1)" "pool_rep d p1 frees"
    "free_nodes p1 = free_nodes pool"
    using alloc_node_rep [OF zone_repD(4) [OF rep]] .
  define node where "node = (FreeNode_new pg)\<lparr>next_node := pows zone ! k\<rparr>"
  define pool' where "pool' = p1\<lparr>free_nodes := (free_nodes p1)(a := node)\<rparr>"
  define zone' where "zone' = zone\<lparr>pows := (pows zone)[k := Some a]\<rparr>"
  have a: "a \<notin> set (nss ! k)" "a \<notin> set frees"
    using zone_repD(5) [OF rep] nth_subset_concat [of k nss] k by auto
  have add: "add_node zone pool k (FreeNode_new pg) = Some (zone', pool')"
    using k p1 by (simp add: add_node_def pool'_def zone'_def node_def)
  have path: "node_path (free_nodes pool') (Some a) (a # nss ! k)"
    using zone_repD(3) [OF rep k] a p1(3) by (simp add: pool'_def node_def)
  have free': "pool_rep d pool' frees"
    using p1(2) a by (simp add: pool_rep_def pool'_def)
  have nodes: "mset (a # nss ! k) + mset frees = mset (nss ! k) + mset (a # frees)" by simp
  have same: "free_nodes pool' b = free_nodes pool b" if "b \<notin> set (nss ! k) \<union> set (a # frees)" for b
    using that p1(3) by (simp add: pool'_def)
  have old: "map (\<lambda>b. page_number (free_nodes pool' b)) (nss ! k) = zone_lists pool nss ! k"
    using a p1(3) k by (auto simp: pool'_def)
  have new: "page_number (free_nodes pool' a) = pg"
    by (simp add: pool'_def node_def FreeNode_new_def)
  have "zone_lists pool' (nss[k := a # nss ! k]) =
      (zone_lists pool nss)[k := map (\<lambda>b. page_number (free_nodes pool' b)) (a # nss ! k)]"
    by (rule zone_lists_step [OF rep k]) (rule same)
  then have lists: "zone_lists pool' (nss[k := a # nss ! k]) = l_add (zone_lists pool nss) k pg"
    by (simp only: l_add_def list.map old new)
  show thesis
    using that [OF add zone_rep_step(1) [OF rep k path free' nodes same zone'_def] lists
      zone_rep_step(2) [OF rep k path free' nodes same zone'_def]] .
qed

lemma pop_refines:
  assumes rep: "zone_rep d zone pool nss frees" and k: "k < BUDDY_ALLOC_MAX_POW"
    and ns: "nss ! k = a # as"
  obtains zone' pool' where "new_node zone pool k = Some (a, zone')"
    "recycle_node pool a = Some pool'"
    "page_number (free_nodes pool' a) = page_number (free_nodes pool a)"
    "zone_rep d zone' pool' (nss[k := as]) (a # frees)"
    "zone_lists pool' (nss[k := as]) = (zone_lists pool nss)[k := tl (zone_lists pool nss ! k)]"
    "zone_frame zone pool nss frees zone' pool' (nss[k := as]) (a # frees)"
proof -
  note [simp] = zone_repD(1,2) [OF rep]
  have "set (nss ! k) \<subseteq> set (concat nss)" using k by (intro nth_subset_concat) simp
  with zone_repD(5) [OF rep] ns have a: "a \<notin> set frees" by auto
  have "distinct (nss ! k)" using zone_repD(5) [OF rep] k by (simp add: distinct_concat_iff)
  with ns have a': "a \<notin> set as" by simp
  have "length frees + 1 \<le> length (concat nss @ frees)"
    using ns k nth_mem [of k nss] by (cases "concat nss") (auto dest: concat_eq_Nil_conv [THEN iffD1])
  then have bound: "length frees + d + 1 < 2 ^ 64" using zone_repD(6) [OF rep] by linarith
  obtain pool' where pool': "recycle_node pool a = Some pool'" "pool_rep d pool' (a # frees)"
    "free_nodes pool' = write_next (free_nodes pool) a (free_start pool)"
    using recycle_node_rep [OF zone_repD(4) [OF rep] a bound] .
  define zone' where "zone' = zone\<lparr>pows := (pows zone)[k := next_node (free_nodes pool a)]\<rparr>"
  have hd: "pows zone ! k = Some a" "node_path (free_nodes pool) (next_node (free_nodes pool a)) as"
    using zone_repD(3) [OF rep k] ns by auto
  have new: "new_node zone pool k = Some (a, zone')"
    using k hd by (simp add: new_node_def zone'_def)
  have path: "node_path (free_nodes pool') (next_node (free_nodes pool a)) as"
    using hd a' pool'(3) by simp
  have nodes: "mset as + mset (a # frees) = mset (nss ! k) + mset frees" using ns by simp
  have same: "free_nodes pool' b = free_nodes pool b" if "b \<notin> set (nss ! k) \<union> set frees" for b
    using that pool'(3) ns by simp
  have lists: "zone_lists pool' (nss[k := as]) = (zone_lists pool nss)[k := tl (zone_lists pool nss ! k)]"
    using zone_lists_step [OF rep k same, of as] k ns pool'(3) by simp
  show thesis
    using that [OF new pool'(1) _ zone_rep_step(1) [OF rep k path pool'(2) nodes same zone'_def] lists
      zone_rep_step(2) [OF rep k path pool'(2) nodes same zone'_def]] pool'(3) by simp
qed

section \<open>Unlinking a partner\<close>

lemma find_partner_none:
  assumes "node_path m (next_node (m cur)) ns"
    and "\<And>a. a \<in> set ns \<Longrightarrow> is_partner (page_number (m a)) = Some False"
  shows "find_partner m is_partner cur = Some None"
  using assms
proof (induction ns arbitrary: cur)
  case Nil
  then show ?case by (simp add: find_partner.simps)
next
  case (Cons a ns)
  then have "find_partner m is_partner a = Some None" by simp
  with Cons.prems show ?case by (subst find_partner.simps) simp
qed

lemma find_partner_some:
  assumes "node_path m (next_node (m cur)) (xs @ b # ys)"
    and "\<And>a. a \<in> set xs \<Longrightarrow> is_partner (page_number (m a)) = Some False"
    and "is_partner (page_number (m b)) = Some True"
  shows "find_partner m is_partner cur = Some (Some (last (cur # xs), b))"
  using assms
proof (induction xs arbitrary: cur)
  case Nil
  then show ?case by (subst find_partner.simps) simp
next
  case (Cons a xs)
  then have "find_partner m is_partner a = Some (Some (last (a # xs), b))" by simp
  with Cons.prems show ?case by (subst find_partner.simps) simp
qed

lemma node_path_unlink:
  assumes "node_path m p (xs @ prev # b # ys)" "distinct (xs @ prev # b # ys)"
  shows "node_path (write_next m prev (next_node (m b))) p (xs @ prev # ys)"
  using assms by (induction xs arbitrary: p) auto

lemma take_partner_miss:
  assumes rep: "zone_rep d zone pool nss frees" and k: "k < BUDDY_ALLOC_MAX_POW"
    and head: "pows zone ! k = Some current"
    and test: "\<And>n. n \<in> set (zone_lists pool nss ! k) \<Longrightarrow> is_partner n = Some (n = partner)"
    and miss: "partner \<notin> set (zone_lists pool nss ! k)"
  shows "take_partner zone pool k is_partner current = Some (False, zone, pool)"
proof -
  from zone_repD(3) [OF rep k] head obtain as where
    ns: "nss ! k = current # as" and path: "node_path (free_nodes pool) (next_node (free_nodes pool current)) as"
    by (auto simp: node_path_Some)
  have "is_partner (page_number (free_nodes pool a)) = Some False" if "a \<in> set (nss ! k)" for a
    using that test [of "page_number (free_nodes pool a)"] miss k zone_repD(2) [OF rep] by auto
  with ns path show ?thesis
    using find_partner_none [OF path, of is_partner] by (simp add: take_partner_def)
qed

lemma take_partner_hit:
  assumes rep: "zone_rep d zone pool nss frees" and k: "k < BUDDY_ALLOC_MAX_POW"
    and head: "pows zone ! k = Some current"
    and test: "\<And>n. n \<in> set (zone_lists pool nss ! k) \<Longrightarrow> is_partner n = Some (n = partner)"
    and hit: "partner \<in> set (zone_lists pool nss ! k)"
  obtains zone' pool' ns' b where
    "take_partner zone pool k is_partner current = Some (True, zone', pool')"
    "zone_rep d zone' pool' (nss[k := ns']) (b # frees)"
    "zone_lists pool' (nss[k := ns']) = (zone_lists pool nss)[k := remove1 partner (zone_lists pool nss ! k)]"
    "zone_frame zone pool nss frees zone' pool' (nss[k := ns']) (b # frees)"
proof -
  note [simp] = zone_repD(1,2) [OF rep]
  define pn where "pn a = page_number (free_nodes pool a)" for a
  have fl: "zone_lists pool nss ! k = map pn (nss ! k)" using k by (simp add: pn_def)
  from hit obtain us vs where "map pn (nss ! k) = us @ partner # vs" "partner \<notin> set us"
    unfolding fl by (meson split_list_first)
  then obtain xs b ys where ns: "nss ! k = xs @ b # ys" and b: "pn b = partner"
    and xs: "partner \<notin> pn ` set xs"
    by (auto simp: map_eq_append_conv)
  have test': "is_partner (pn a) = Some (pn a = partner)" if "a \<in> set (nss ! k)" for a
    using that test [of "pn a"] fl by simp
  show thesis
  proof (cases xs)
    case Nil
    with ns have nsk: "nss ! k = b # ys" by simp
    with zone_repD(3) [OF rep k] head have cur: "current = b" by simp
    obtain zone' pool' where step: "new_node zone pool k = Some (b, zone')"
      "recycle_node pool b = Some pool'" "zone_rep d zone' pool' (nss[k := ys]) (b # frees)"
      "zone_lists pool' (nss[k := ys]) = (zone_lists pool nss)[k := tl (zone_lists pool nss ! k)]"
      "zone_frame zone pool nss frees zone' pool' (nss[k := ys]) (b # frees)"
      using pop_refines [OF rep k nsk] by metis
    have "take_partner zone pool k is_partner current = Some (True, zone', pool')"
      using step(1,2) test' [of b] nsk b k head cur
      by (auto simp: take_partner_def new_node_def pn_def)
    moreover have "tl (zone_lists pool nss ! k) = remove1 partner (zone_lists pool nss ! k)"
      using fl nsk b by simp
    ultimately show thesis using that step(3,4,5) by metis
  next
    case (Cons c xs')
    with zone_repD(3) [OF rep k] head ns have cur: "c = current"
      and path: "node_path (free_nodes pool) (next_node (free_nodes pool current)) (xs' @ b # ys)" by auto
    define prev where "prev = last (current # xs')"
    obtain ws where ws: "current # xs' = ws @ [prev]"
      unfolding prev_def by (metis append_butlast_last_id list.distinct(1))
    with ns Cons cur have nsk: "nss ! k = ws @ prev # b # ys" by simp
    have dist: "distinct (nss ! k)" using zone_repD(5) [OF rep] k by (simp add: distinct_concat_iff)
    have sub: "set (nss ! k) \<subseteq> set (concat nss)" using k by (intro nth_subset_concat) simp
    have bfree: "b \<notin> set frees" "prev \<notin> set frees"
      using zone_repD(5) [OF rep] sub nsk by auto
    define pool1 where
      "pool1 = pool\<lparr>free_nodes := write_next (free_nodes pool) prev (next_node (free_nodes pool b))\<rparr>"
    have rep1: "pool_rep d pool1 frees"
      using zone_repD(4) [OF rep] bfree by (simp add: pool_rep_def pool1_def)
    have "length frees + 1 \<le> length (concat nss @ frees)"
      using nsk sub by (cases "concat nss") auto
    then have bound: "length frees + d + 1 < 2 ^ 64" using zone_repD(6) [OF rep] by linarith
    obtain pool' where pool': "recycle_node pool1 b = Some pool'" "pool_rep d pool' (b # frees)"
      "free_nodes pool' = write_next (free_nodes pool1) b (free_start pool1)"
      using recycle_node_rep [OF rep1 bfree(1) bound] .
    have fp: "find_partner (free_nodes pool) is_partner current = Some (Some (prev, b))"
      unfolding prev_def
    proof (rule find_partner_some [OF path])
      show "is_partner (page_number (free_nodes pool a)) = Some False" if "a \<in> set xs'" for a
        using test' [of a] xs that ns Cons by (auto simp: pn_def)
      show "is_partner (page_number (free_nodes pool b)) = Some True"
        using test' [of b] b ns by (simp add: pn_def)
    qed
    have take: "take_partner zone pool k is_partner current = Some (True, zone, pool')"
      using test' [of current] xs Cons cur ns fp pool'(1)
      by (auto simp: take_partner_def pn_def pool1_def)
    have "node_path (free_nodes pool1) (pows zone ! k) (ws @ prev # ys)"
      using node_path_unlink zone_repD(3) [OF rep k] dist by (simp add: nsk pool1_def)
    moreover have "b \<notin> set (ws @ prev # ys)" using dist nsk by auto
    ultimately have path': "node_path (free_nodes pool') (pows zone ! k) (ws @ prev # ys)"
      by (metis pool'(3) node_path_write_next)
    have nodes: "mset (ws @ prev # ys) + mset (b # frees) = mset (nss ! k) + mset frees"
      using nsk by simp
    have same: "free_nodes pool' a = free_nodes pool a" if "a \<notin> set (nss ! k) \<union> set frees" for a
      using that pool'(3) nsk by (simp add: pool1_def)
    have zone: "zone = zone\<lparr>pows := (pows zone)[k := pows zone ! k]\<rparr>" by simp
    have pn': "page_number (free_nodes pool' a) = pn a" for a
      using pool'(3) by (simp add: pool1_def pn_def)
    have "zone_lists pool' (nss[k := ws @ prev # ys]) =
        (zone_lists pool nss)[k := map (\<lambda>a. page_number (free_nodes pool' a)) (ws @ prev # ys)]"
      by (rule zone_lists_step [OF rep k]) (rule same)
    moreover have "map (\<lambda>a. page_number (free_nodes pool' a)) (ws @ prev # ys) =
        remove1 partner (zone_lists pool nss ! k)"
      using xs Cons cur ws b unfolding fl nsk pn' by (auto simp: remove1_append)
    ultimately show thesis
      using that [OF take zone_rep_step(1) [OF rep k path' pool'(2) nodes same zone] _
        zone_rep_step(2) [OF rep k path' pool'(2) nodes same zone]] by simp
  qed
qed

section \<open>The loops\<close>

lemma l_add_length [simp]: "length (l_add fl k pg) = length fl"
  by (simp add: l_add_def)

lemma split_loop_refines:
  assumes "zone_rep d zone pool nss frees" "i \<le> length frees + j" "i \<le> BUDDY_ALLOC_MAX_POW"
    and "j < i" "base zone + (left + 2 ^ i) < 2 ^ 64"
  shows "\<exists>zone' pool' nss' frees'.
    split_loop i zone pool left (2 ^ j) = Some (Some (base zone + left), zone', pool') \<and>
    zone_rep d zone' pool' nss' frees' \<and>
    l_split i (zone_lists pool nss) left (2 ^ j) = (Some left, zone_lists pool' nss') \<and>
    zone_frame zone pool nss frees zone' pool' nss' frees'"
  using assms
proof (induction i arbitrary: zone pool nss frees)
  case (Suc i)
  from Suc.prems(2,4) obtain a fs where frees: "frees = a # fs" by (cases frees) auto
  have rep: "zone_rep d zone pool nss (a # fs)" and i: "i < BUDDY_ALLOC_MAX_POW"
    using Suc.prems frees by simp_all
  obtain zone1 pool1 where
    step: "add_node zone pool i (FreeNode_new (left + 2 ^ i)) = Some (zone1, pool1)"
      "zone_rep d zone1 pool1 (nss[i := a # nss ! i]) fs"
      "zone_lists pool1 (nss[i := a # nss ! i]) = l_add (zone_lists pool nss) i (left + 2 ^ i)"
      "zone_frame zone pool nss (a # fs) zone1 pool1 (nss[i := a # nss ! i]) fs"
    using add_node_refines [OF rep i] .
  have b: "base zone1 = base zone" using step(4) by (simp add: zone_frame_def)
  show ?case
  proof (cases "j = i")
    case True
    then have "split_loop (Suc i) zone pool left (2 ^ j) = Some (Some (base zone + left), zone1, pool1)"
      using step(1) b Suc.prems(5) by simp
    moreover have "l_split (Suc i) (zone_lists pool nss) left (2 ^ j) =
        (Some left, zone_lists pool1 (nss[i := a # nss ! i]))"
      using True step(3) by simp
    ultimately show ?thesis using step(2,4) frees by blast
  next
    case False
    have "base zone1 + (left + 2 ^ i) < 2 ^ 64" using b Suc.prems(5) by simp
    then obtain zone' pool' nss' frees' where
      IH: "split_loop i zone1 pool1 left (2 ^ j) = Some (Some (base zone1 + left), zone', pool')"
        "zone_rep d zone' pool' nss' frees'"
        "l_split i (zone_lists pool1 (nss[i := a # nss ! i])) left (2 ^ j) = (Some left, zone_lists pool' nss')"
        "zone_frame zone1 pool1 (nss[i := a # nss ! i]) fs zone' pool' nss' frees'"
      using Suc.IH [OF step(2)] Suc.prems False frees by auto
    have "split_loop (Suc i) zone pool left (2 ^ j) = Some (Some (base zone + left), zone', pool')"
      using step(1) IH(1) b False Suc.prems(5) by simp
    moreover have "l_split (Suc i) (zone_lists pool nss) left (2 ^ j) = (Some left, zone_lists pool' nss')"
      using False IH(3) step(3) by simp
    moreover have "zone_frame zone pool nss frees zone' pool' nss' frees'"
      using zone_frame_trans step(4) IH(4) frees by blast
    ultimately show ?thesis using IH(2) by blast
  qed
qed simp

text \<open>A split that does not panic had a node for every level.\<close>

lemma split_loop_nodes:
  assumes "zone_rep d zone pool nss frees" "i \<le> BUDDY_ALLOC_MAX_POW" "j < i"
    and "split_loop i zone pool left (2 ^ j) = Some x"
  shows "i \<le> length frees + j"
  using assms
proof (induction i arbitrary: zone pool nss frees)
  case (Suc i)
  from Suc.prems(4) obtain zone1 pool1 where
    add: "add_node zone pool i (FreeNode_new (left + 2 ^ i)) = Some (zone1, pool1)"
    and rest: "j \<noteq> i \<Longrightarrow> split_loop i zone1 pool1 left (2 ^ j) = Some x"
    by (auto simp: bind_eq_Some_conv usize_add_Some split: if_splits)
  show ?case
  proof (cases frees)
    case Nil
    then show ?thesis using add alloc_node_empty zone_repD(4) [OF Suc.prems(1)] by (simp add: add_node_def)
  next
    case (Cons a fs)
    with Suc.prems add obtain "zone_rep d zone1 pool1 (nss[i := a # nss ! i]) fs"
      using add_node_refines [of d zone pool nss a fs i "left + 2 ^ i"] by force
    with Suc.IH rest Suc.prems(2,3) Cons show ?thesis by (cases "j = i") auto
  qed
qed simp

lemma zone_alloc_loop_refines:
  assumes rep: "zone_rep d zone pool nss frees" and ok: "lists_ok n (zone_lists pool nss)"
    and n: "base zone + n < 2 ^ 64"
    and frees: "n < 2 ^ (length frees + j + 2) \<or> zone_alloc_loop ps zone pool (2 ^ j) \<noteq> None"
    and ps: "\<forall>pow \<in> set ps. pow < BUDDY_ALLOC_MAX_POW"
  shows "\<exists>zone' pool' nss' frees'.
    zone_alloc_loop ps zone pool (2 ^ j) =
      Some (map_option ((+) (base zone)) (fst (l_alloc ps (zone_lists pool nss) (2 ^ j))), zone', pool') \<and>
    zone_rep d zone' pool' nss' frees' \<and>
    zone_lists pool' nss' = snd (l_alloc ps (zone_lists pool nss) (2 ^ j)) \<and>
    zone_frame zone pool nss frees zone' pool' nss' frees'"
  using ps frees
proof (induction ps)
  case Nil
  have "zone_frame zone pool nss frees zone pool nss frees" by simp
  with rep show ?case by fastforce
next
  case (Cons pow ps)
  note [simp] = zone_repD(1,2) [OF rep]
  from Cons.prems have pow: "pow < BUDDY_ALLOC_MAX_POW" by simp
  have path: "node_path (free_nodes pool) (pows zone ! pow) (nss ! pow)"
    by (rule zone_repD(3) [OF rep pow])
  show ?case
  proof (cases "nss ! pow = [] \<or> 2 ^ pow < (2 ^ j :: nat)")
    case True
    then have "zone_alloc_loop (pow # ps) zone pool (2 ^ j) = zone_alloc_loop ps zone pool (2 ^ j)"
      using path pow by auto
    moreover have "l_alloc (pow # ps) (zone_lists pool nss) (2 ^ j) = l_alloc ps (zone_lists pool nss) (2 ^ j)"
      using True pow by auto
    ultimately show ?thesis using Cons by simp
  next
    case False
    then obtain a as where ns: "nss ! pow = a # as" by (cases "nss ! pow") auto
    with path have start: "pows zone ! pow = Some a" by simp
    obtain zone1 pool1 where
      step: "new_node zone pool pow = Some (a, zone1)" "recycle_node pool a = Some pool1"
        "page_number (free_nodes pool1 a) = page_number (free_nodes pool a)"
        "zone_rep d zone1 pool1 (nss[pow := as]) (a # frees)"
        "zone_lists pool1 (nss[pow := as]) = (zone_lists pool nss)[pow := tl (zone_lists pool nss ! pow)]"
        "zone_frame zone pool nss frees zone1 pool1 (nss[pow := as]) (a # frees)"
      using pop_refines [OF rep pow ns] .
    have hd: "hd (zone_lists pool nss ! pow) = page_number (free_nodes pool a)"
      "zone_lists pool nss ! pow \<noteq> []" using ns pow by simp_all
    have pg: "page_number (free_nodes pool a) + 2 ^ pow \<le> n"
      using ok pow ns by (auto simp: lists_ok_def)
    have b: "base zone1 = base zone" using step(6) by (simp add: zone_frame_def)
    show ?thesis
    proof (cases "pow = j")
      case True
      then have "zone_alloc_loop (pow # ps) zone pool (2 ^ j) =
          Some (Some (base zone + page_number (free_nodes pool a)), zone1, pool1)"
        using start step(1,2,3) pow b pg n by simp
      then show ?thesis using True hd step(4,5,6) by auto
    next
      case ne: False
      with False have lt: "j < pow" by (simp add: not_less)
      have "base zone1 + (page_number (free_nodes pool a) + 2 ^ pow) < 2 ^ 64" using b pg n by simp
      have nodes: "pow \<le> length (a # frees) + j"
        using Cons.prems(2)
      proof
        assume "n < 2 ^ (length frees + j + 2)"
        then have "2 ^ pow < (2::nat) ^ (length frees + j + 2)" using pg by linarith
        then have "pow < length frees + j + 2" by (rule power_less_imp_less_exp [rotated]) simp
        then show ?thesis by simp
      next
        assume "zone_alloc_loop (pow # ps) zone pool (2 ^ j) \<noteq> None"
        then obtain x where "split_loop pow zone1 pool1 (page_number (free_nodes pool a)) (2 ^ j) = Some x"
          using start step(1,2) pow lt ne by (auto simp: bind_eq_None_conv)
        then show ?thesis using split_loop_nodes [OF step(4) _ lt] pow by simp
      qed
      from split_loop_refines [OF step(4) nodes _ lt \<open>base zone1 + _ < _\<close>] pow
      obtain zone2 pool2 nss2 frees2 where
        split: "split_loop pow zone1 pool1 (page_number (free_nodes pool a)) (2 ^ j) =
            Some (Some (base zone1 + page_number (free_nodes pool a)), zone2, pool2)"
          "zone_rep d zone2 pool2 nss2 frees2"
          "l_split pow (zone_lists pool1 (nss[pow := as])) (page_number (free_nodes pool a)) (2 ^ j) =
            (Some (page_number (free_nodes pool a)), zone_lists pool2 nss2)"
          "zone_frame zone1 pool1 (nss[pow := as]) (a # frees) zone2 pool2 nss2 frees2"
        by auto
      have "zone_alloc_loop (pow # ps) zone pool (2 ^ j) =
          Some (Some (base zone + page_number (free_nodes pool a)), zone2, pool2)"
        using start step(1,2,3) split(1) pow b lt ne by simp
      moreover have "l_alloc (pow # ps) (zone_lists pool nss) (2 ^ j) =
          (Some (page_number (free_nodes pool a)), zone_lists pool2 nss2)"
        using lt ne hd split(3) step(5) by simp
      moreover have "zone_frame zone pool nss frees zone2 pool2 nss2 frees2"
        by (rule zone_frame_trans [OF step(6) split(4)])
      ultimately show ?thesis using split(2) by auto
    qed
  qed
qed

lemma MAX_POW_36: "BUDDY_ALLOC_MAX_POW = 36"
  by (simp add: BUDDY_ALLOC_MAX_POW_def VA_BITS_def PAGE_BITS_def)

lemma lists_ok_update:
  assumes "lists_ok n fl" "k < BUDDY_ALLOC_MAX_POW" "\<And>pg. pg \<in> set xs \<Longrightarrow> 2 ^ k dvd pg \<and> pg + 2 ^ k \<le> n"
  shows "lists_ok n (fl[k := xs])"
  using assms unfolding lists_ok_def by (auto simp: nth_list_update)

lemma lists_ok_remove1: "lists_ok n fl \<Longrightarrow> k < BUDDY_ALLOC_MAX_POW \<Longrightarrow> lists_ok n (fl[k := remove1 x (fl ! k)])"
  by (rule lists_ok_update) (auto simp: lists_ok_def dest: notin_set_remove1)

lemma lists_okD:
  "lists_ok n fl \<Longrightarrow> k < BUDDY_ALLOC_MAX_POW \<Longrightarrow> pg \<in> set (fl ! k) \<Longrightarrow> 2 ^ k dvd pg \<and> pg + 2 ^ k \<le> n"
  by (simp add: lists_ok_def)

lemma left_node_test_eq:
  "rel + f < 2 ^ 64 \<Longrightarrow> left_node_test rel f m = Some (m = rel + f)"
  by (auto simp: left_node_test_def)

lemma right_node_test_eq:
  "m + f < 2 ^ 64 \<Longrightarrow> f \<le> rel \<Longrightarrow> right_node_test rel f m = Some (m = rel - f)"
  "m + f < 2 ^ 64 \<Longrightarrow> \<not> f \<le> rel \<Longrightarrow> right_node_test rel f m = Some False"
  by (auto simp: right_node_test_def)

lemma usize_shl_double: "pf < 63 \<Longrightarrow> usize_shl (2 ^ pf) 1 = 2 ^ Suc pf"
proof -
  assume "pf < 63"
  then have "(2::nat) ^ Suc pf < 2 ^ 64" by (intro power_strict_increasing) auto
  then show ?thesis by (simp add: usize_shl_def mult.commute)
qed

text \<open>One level of the merge, with the two symmetric halves of the source put together: the test the code
  applies to the nodes of the level, whether a partner is there, which one, and where the merged block
  starts.\<close>

definition level_test :: "nat \<Rightarrow> nat \<Rightarrow> nat \<Rightarrow> bool option" where
  "level_test rel k =
     (if 2 ^ (k + 1) dvd rel then left_node_test rel (2 ^ k) else right_node_test rel (2 ^ k))"

definition level_hit :: "free_lists \<Rightarrow> nat \<Rightarrow> nat \<Rightarrow> bool" where
  "level_hit fl rel k \<longleftrightarrow> (2 ^ (k + 1) dvd rel \<or> 2 ^ k \<le> rel) \<and> buddy_of k rel \<in> set (fl ! k)"

definition level_start :: "nat \<Rightarrow> nat \<Rightarrow> nat \<Rightarrow> nat" where
  "level_start rel k pf = (if 2 ^ (k + 1) dvd rel then rel else rel - 2 ^ pf)"

lemma l_merge_Cons:
  "l_merge (k # ks) fl pf rel =
     (if fl ! k = [] then (fl, pf, rel)
      else if level_hit fl rel k
      then l_merge ks (fl[k := remove1 (buddy_of k rel) (fl ! k)]) (Suc pf) (level_start rel k pf)
      else l_merge ks fl pf rel)"
  by (auto simp: level_hit_def buddy_of_def level_start_def)

declare l_merge.simps(2) [simp del]

lemma merge_loop_miss:
  assumes "k < length (pows zone)" "pows zone ! k = Some current"
    and "take_partner zone pool k (level_test rel k) current = Some (False, zone, pool)"
  shows "merge_loop (k # ks) zone pool pf rel cnt = merge_loop ks zone pool pf rel cnt"
  using assms by (simp add: level_test_def split: if_splits)

lemma merge_loop_hit:
  assumes "k < length (pows zone)" "pows zone ! k = Some current"
    and "take_partner zone pool k (level_test rel k) current = Some (True, zone', pool')"
    and "2 ^ (k + 1) dvd rel \<or> 2 ^ pf \<le> rel" "pf < 63"
  shows "merge_loop (k # ks) zone pool pf rel (2 ^ pf) =
    merge_loop ks zone' pool' (Suc pf) (level_start rel k pf) (2 ^ Suc pf)"
  using assms usize_shl_double [OF assms(5)]
  by (auto simp: level_test_def level_start_def split: if_splits)

lemma level_test_eq:
  assumes "lists_ok n fl" "n < 2 ^ 36" "k < BUDDY_ALLOC_MAX_POW" "rel \<le> n" "pg \<in> set (fl ! k)"
  shows "level_test rel k pg =
    Some (pg = (if 2 ^ (k + 1) dvd rel \<or> 2 ^ k \<le> rel then buddy_of k rel else n))"
proof -
  have "pg + 2 ^ k \<le> n" using lists_okD [OF assms(1,3,5)] by simp
  moreover have "(2::nat) ^ k < 2 ^ 36"
    by (rule power_strict_increasing) (use assms(3) in \<open>simp_all add: MAX_POW_36\<close>)
  ultimately have "pg + 2 ^ k < 2 ^ 64" "rel + 2 ^ k < 2 ^ 64" "pg \<noteq> n"
    using assms(2,4) by auto
  then show ?thesis
    by (auto simp: level_test_def buddy_of_def left_node_test_eq right_node_test_eq)
qed

lemma level_start_bound:
  assumes ok: "lists_ok n fl" and k: "k < BUDDY_ALLOC_MAX_POW" and hit: "level_hit fl rel k"
    and pf: "pf \<le> k" and rel: "rel + 2 ^ pf \<le> n"
  shows "2 ^ (k + 1) dvd rel \<or> 2 ^ pf \<le> rel" "level_start rel k pf + 2 ^ Suc pf \<le> n"
proof -
  have le: "(2::nat) ^ pf \<le> 2 ^ k" using pf by (simp add: power_increasing)
  have "rel + 2 ^ k + 2 ^ k \<le> n" if "2 ^ (k + 1) dvd rel"
    using hit that lists_okD [OF ok k] by (auto simp: level_hit_def buddy_of_def)
  moreover have sub: "2 ^ pf \<le> rel" if "\<not> 2 ^ (k + 1) dvd rel"
    using hit that order_trans [OF le] by (auto simp: level_hit_def)
  ultimately show "level_start rel k pf + 2 ^ Suc pf \<le> n"
    using le rel by (cases "2 ^ (k + 1) dvd rel") (auto simp: level_start_def simp del: power_increasing_iff)
  show "2 ^ (k + 1) dvd rel \<or> 2 ^ pf \<le> rel" using sub by blast
qed

lemma merge_loop_refines:
  assumes "zone_rep d zone pool nss frees" "lists_ok n (zone_lists pool nss)"
    and "n < 2 ^ BUDDY_ALLOC_MAX_POW" "rel + 2 ^ pf \<le> n" "pf \<le> k"
  shows "\<exists>zone' pool' nss' frees' pf' rel'.
    merge_loop [k..<BUDDY_ALLOC_MAX_POW] zone pool pf rel (2 ^ pf) = Some (zone', pool', pf', rel') \<and>
    l_merge [k..<BUDDY_ALLOC_MAX_POW] (zone_lists pool nss) pf rel = (zone_lists pool' nss', pf', rel') \<and>
    zone_rep d zone' pool' nss' frees' \<and> zone_frame zone pool nss frees zone' pool' nss' frees' \<and>
    length frees \<le> length frees' \<and> rel' + 2 ^ pf' \<le> n \<and> lists_ok n (zone_lists pool' nss')"
  using assms
proof (induction "BUDDY_ALLOC_MAX_POW - k" arbitrary: k zone pool nss frees rel pf)
  case 0
  then have "[k..<BUDDY_ALLOC_MAX_POW] = []" by simp
  moreover have "zone_frame zone pool nss frees zone pool nss frees" by simp
  ultimately show ?case using 0 by fastforce
next
  case (Suc m)
  note rep = Suc.prems(1) and ok = Suc.prems(2) and n = Suc.prems(3)
  note [simp] = zone_repD(1,2) [OF rep]
  from Suc.hyps(2) have k: "k < BUDDY_ALLOC_MAX_POW" and m: "m = BUDDY_ALLOC_MAX_POW - Suc k" by simp_all
  have ps: "[k..<BUDDY_ALLOC_MAX_POW] = k # [Suc k..<BUDDY_ALLOC_MAX_POW]"
    using k by (simp add: upt_conv_Cons)
  have path: "node_path (free_nodes pool) (pows zone ! k) (nss ! k)" by (rule zone_repD(3) [OF rep k])
  show ?case
  proof (cases "nss ! k")
    case Nil
    with path k have "merge_loop [k..<BUDDY_ALLOC_MAX_POW] zone pool pf rel (2 ^ pf) = Some (zone, pool, pf, rel)"
      "l_merge [k..<BUDDY_ALLOC_MAX_POW] (zone_lists pool nss) pf rel = (zone_lists pool nss, pf, rel)"
      by (simp_all add: ps l_merge_Cons)
    moreover have "zone_frame zone pool nss frees zone pool nss frees" by simp
    ultimately show ?thesis using Suc.prems by blast
  next
    case (Cons current as)
    with path have head: "pows zone ! k = Some current" by simp
    have ne: "zone_lists pool nss ! k \<noteq> []" using Cons k by simp
    define partner where "partner = (if 2 ^ (k + 1) dvd rel \<or> 2 ^ k \<le> rel then buddy_of k rel else n)"
    have test: "level_test rel k pg = Some (pg = partner)" if "pg \<in> set (zone_lists pool nss ! k)" for pg
      using level_test_eq [OF ok _ k _ that] n Suc.prems(4) by (simp add: partner_def MAX_POW_36)
    have hit: "level_hit (zone_lists pool nss) rel k \<longleftrightarrow> partner \<in> set (zone_lists pool nss ! k)"
      using lists_okD [OF ok k, of n] by (auto simp: level_hit_def partner_def)
    show ?thesis
    proof (cases "level_hit (zone_lists pool nss) rel k")
      case False
      with hit have "partner \<notin> set (zone_lists pool nss ! k)" by simp
      from merge_loop_miss [OF _ head take_partner_miss [OF rep k head test this]] k ne False
      show ?thesis using Suc.hyps(1) [OF m rep ok n Suc.prems(4)] Suc.prems(5)
        by (simp add: ps l_merge_Cons)
    next
      case True
      with hit have "partner \<in> set (zone_lists pool nss ! k)" by simp
      from take_partner_hit [OF rep k head test this]
      obtain zone1 pool1 ns1 b where step:
        "take_partner zone pool k (level_test rel k) current = Some (True, zone1, pool1)"
        "zone_rep d zone1 pool1 (nss[k := ns1]) (b # frees)"
        "zone_lists pool1 (nss[k := ns1]) =
           (zone_lists pool nss)[k := remove1 partner (zone_lists pool nss ! k)]"
        "zone_frame zone pool nss frees zone1 pool1 (nss[k := ns1]) (b # frees)"
        by blast
      note start = level_start_bound [OF ok k True Suc.prems(5,4)]
      have ok1: "lists_ok n (zone_lists pool1 (nss[k := ns1]))"
        unfolding step(3) by (rule lists_ok_remove1 [OF ok k])
      have partner: "partner = buddy_of k rel" using True by (auto simp: partner_def level_hit_def)
      have eq: "merge_loop [k..<BUDDY_ALLOC_MAX_POW] zone pool pf rel (2 ^ pf) =
          merge_loop [Suc k..<BUDDY_ALLOC_MAX_POW] zone1 pool1 (Suc pf) (level_start rel k pf) (2 ^ Suc pf)"
        unfolding ps by (rule merge_loop_hit [OF _ head step(1) start(1)])
          (use k Suc.prems(5) in \<open>simp_all add: MAX_POW_36\<close>)
      have leq: "l_merge [k..<BUDDY_ALLOC_MAX_POW] (zone_lists pool nss) pf rel =
          l_merge [Suc k..<BUDDY_ALLOC_MAX_POW] (zone_lists pool1 (nss[k := ns1])) (Suc pf) (level_start rel k pf)"
        unfolding ps l_merge_Cons step(3) partner using ne True by simp
      have "Suc pf \<le> Suc k" using Suc.prems(5) by simp
      from Suc.hyps(1) [OF m step(2) ok1 n start(2) this] show ?thesis
        unfolding eq leq using zone_frame_trans [OF step(4)] by (metis Suc_leD length_Cons)
    qed
  qed
qed

section \<open>The zone's methods\<close>

theorem zone_alloc_pages_refines:
  assumes rep: "zone_rep d zone pool nss frees" and ok: "lists_ok n (zone_lists pool nss)"
    and n: "base zone + n < 2 ^ 64" and k: "k < 64"
    and frees: "n < 2 ^ (length frees + k + 2) \<or> zone_alloc_pages zone pool (2 ^ k) \<noteq> None"
  obtains zone' pool' nss' frees' where
    "zone_alloc_pages zone pool (2 ^ k) =
       Some (map_option ((+) (base zone))
               (fst (l_alloc [0..<BUDDY_ALLOC_MAX_POW] (zone_lists pool nss) (2 ^ k))), zone', pool')"
    "zone_rep d zone' pool' nss' frees'"
    "zone_lists pool' nss' = snd (l_alloc [0..<BUDDY_ALLOC_MAX_POW] (zone_lists pool nss) (2 ^ k))"
    "zone_frame zone pool nss frees zone' pool' nss' frees'"
proof -
  have all: "\<forall>pow \<in> set [0..<BUDDY_ALLOC_MAX_POW]. pow < BUDDY_ALLOC_MAX_POW" by simp
  have loop: "n < 2 ^ (length frees + k + 2) \<or> zone_alloc_loop [0..<BUDDY_ALLOC_MAX_POW] zone pool (2 ^ k) \<noteq> None"
    using frees k by (auto simp: zone_alloc_pages_def)
  from zone_alloc_loop_refines [OF rep ok n loop all] show thesis
    using that k unfolding zone_alloc_pages_def by auto
qed

lemma start_pow_power: "k < m \<Longrightarrow> start_pow m (2 ^ k) = k"
proof -
  assume "k < m"
  then have "find (\<lambda>pow. (2::nat) ^ pow = 2 ^ k) [0..<m] = Some k"
    unfolding find_Some_iff by (intro exI [of _ k]) auto
  then show ?thesis by (simp add: start_pow_def)
qed

theorem zone_free_pages_refines:
  assumes rep: "zone_rep d zone pool nss frees" and ok: "lists_ok n (zone_lists pool nss)"
    and n: "n < 2 ^ BUDDY_ALLOC_MAX_POW" and frees: "frees \<noteq> []"
    and block: "rel + 2 ^ k \<le> n"
  obtains zone' pool' nss' frees' where
    "zone_free_pages zone pool (base zone + rel) (2 ^ k) = Some (zone', pool')"
    "zone_rep d zone' pool' nss' frees'"
    "zone_lists pool' nss' = l_free (zone_lists pool nss) k rel"
    "zone_frame zone pool nss frees zone' pool' nss' frees'"
proof -
  have power: "a < BUDDY_ALLOC_MAX_POW" if "2 ^ a \<le> n" for a
  proof (rule ccontr)
    assume "\<not> a < BUDDY_ALLOC_MAX_POW"
    then have "(2::nat) ^ BUDDY_ALLOC_MAX_POW \<le> 2 ^ a" by (intro power_increasing) auto
    with that n show False by linarith
  qed
  have k: "k < BUDDY_ALLOC_MAX_POW" using block by (intro power) simp
  obtain zone1 pool1 nss1 frees1 pf rel1 where m:
    "merge_loop [k..<BUDDY_ALLOC_MAX_POW] zone pool k rel (2 ^ k) = Some (zone1, pool1, pf, rel1)"
    "l_merge [k..<BUDDY_ALLOC_MAX_POW] (zone_lists pool nss) k rel = (zone_lists pool1 nss1, pf, rel1)"
    "zone_rep d zone1 pool1 nss1 frees1" "zone_frame zone pool nss frees zone1 pool1 nss1 frees1"
    "length frees \<le> length frees1" "rel1 + 2 ^ pf \<le> n"
    using merge_loop_refines [OF rep ok n block order_refl] by blast
  from m(5) frees obtain a fs where fs: "frees1 = a # fs" by (cases frees1) auto
  have pf: "pf < BUDDY_ALLOC_MAX_POW" using m(6) by (intro power) simp
  obtain zone2 pool2 where add:
    "add_node zone1 pool1 pf (FreeNode_new rel1) = Some (zone2, pool2)"
    "zone_rep d zone2 pool2 (nss1[pf := a # nss1 ! pf]) fs"
    "zone_lists pool2 (nss1[pf := a # nss1 ! pf]) = l_add (zone_lists pool1 nss1) pf rel1"
    "zone_frame zone1 pool1 nss1 (a # fs) zone2 pool2 (nss1[pf := a # nss1 ! pf]) fs"
    using add_node_refines [OF m(3) [unfolded fs] pf] .
  have "zone_free_pages zone pool (base zone + rel) (2 ^ k) = Some (zone2, pool2)"
    using m(1) add(1) k zone_repD(1) [OF rep]
    by (simp add: zone_free_pages_def start_pow_power MAX_POW_36)
  moreover have "zone_lists pool2 (nss1[pf := a # nss1 ! pf]) = l_free (zone_lists pool nss) k rel"
    using m(2) add(3) by (simp add: l_free_def)
  ultimately show thesis
    using that add(2) zone_frame_trans [OF m(4) [unfolded fs] add(4)] by blast
qed

lemma floor_to_power_2_eq:
  assumes "0 < n" "n < 2 ^ 64"
  shows "floor_to_power_2 n = Some (bit_length n - 1)"
proof -
  have "bit_length n \<le> 64" using assms(2) by (simp add: bit_length_le_iff)
  moreover have "0 < bit_length n" using assms(1) by (simp add: bit_length_pos)
  ultimately show ?thesis by (simp add: floor_to_power_2_def leading_zeros_def)
qed

lemma bit_length_rest: "0 < n \<Longrightarrow> bit_length (n - 2 ^ (bit_length n - 1)) \<le> bit_length n - 1"
proof -
  assume n: "0 < n"
  then have "bit_length n = Suc (bit_length n - 1)" by (simp add: bit_length_pos)
  then have "n < 2 * 2 ^ (bit_length n - 1)"
    using less_two_power_bit_length [of n] by (metis power_Suc)
  with two_power_bit_length_le [OF n] show ?thesis by (simp add: bit_length_le_iff)
qed

lemma zone_fill_refines:
  assumes "zone_rep d zone pool nss frees" "bit_length n \<le> length frees" "n < 2 ^ BUDDY_ALLOC_MAX_POW"
    and "cur + n < 2 ^ 64"
  shows "\<exists>zone' pool' nss' frees'. zone_fill zone pool n cur = Some (zone', pool') \<and>
    zone_rep d zone' pool' nss' frees' \<and>
    zone_lists pool' nss' = l_fill (zone_lists pool nss) n cur \<and>
    zone_frame zone pool nss frees zone' pool' nss' frees'"
  using assms
proof (induction n arbitrary: zone pool nss frees cur rule: less_induct)
  case (less n)
  show ?case
  proof (cases "n = 0")
    case True
    with less.prems(1) show ?thesis
      by (intro exI [of _ zone] exI [of _ pool] exI [of _ nss] exI [of _ frees])
        (simp add: zone_fill.simps l_fill.simps)
  next
    case False
    define pow where "pow = bit_length n - 1"
    from False have bl: "bit_length n = Suc pow" by (simp add: pow_def bit_length_pos)
    have floor: "floor_to_power_2 n = Some pow"
      unfolding pow_def using False less.prems(4) by (intro floor_to_power_2_eq) auto
    have le: "2 ^ pow \<le> n" unfolding pow_def using False by (intro two_power_bit_length_le) simp
    have "bit_length n \<le> BUDDY_ALLOC_MAX_POW" using less.prems(3) by (simp add: bit_length_le_iff)
    then have pow: "pow < BUDDY_ALLOC_MAX_POW" using bl by simp
    from less.prems(2) bl obtain a fs where fs: "frees = a # fs" by (cases frees) auto
    obtain zone1 pool1 where add:
      "add_node zone pool pow (FreeNode_new cur) = Some (zone1, pool1)"
      "zone_rep d zone1 pool1 (nss[pow := a # nss ! pow]) fs"
      "zone_lists pool1 (nss[pow := a # nss ! pow]) = l_add (zone_lists pool nss) pow cur"
      "zone_frame zone pool nss (a # fs) zone1 pool1 (nss[pow := a # nss ! pow]) fs"
      using add_node_refines [OF less.prems(1) [unfolded fs] pow] .
    have "bit_length (n - 2 ^ pow) \<le> length fs"
      using bit_length_rest [of n, folded pow_def] False bl less.prems(2) fs by simp
    moreover have "n - 2 ^ pow < 2 ^ BUDDY_ALLOC_MAX_POW" using less.prems(3) by linarith
    ultimately
    obtain zone' pool' nss' frees' where IH:
      "zone_fill zone1 pool1 (n - 2 ^ pow) (cur + 2 ^ pow) = Some (zone', pool')"
      "zone_rep d zone' pool' nss' frees'"
      "zone_lists pool' nss' = l_fill (l_add (zone_lists pool nss) pow cur) (n - 2 ^ pow) (cur + 2 ^ pow)"
      "zone_frame zone1 pool1 (nss[pow := a # nss ! pow]) fs zone' pool' nss' frees'"
      using less.IH [OF _ add(2), of "n - 2 ^ pow" "cur + 2 ^ pow"] False le less.prems(4)
      unfolding add(3) by auto
    have "zone_fill zone pool n cur = Some (zone', pool')"
      using False floor add(1) le less.prems(4) IH(1) by (subst zone_fill.simps) simp
    moreover have "zone_lists pool' nss' = l_fill (zone_lists pool nss) n cur"
      using False IH(3) by (subst l_fill.simps) (simp add: pow_def Let_def)
    moreover have "zone_frame zone pool nss frees zone' pool' nss' frees'"
      unfolding fs by (rule zone_frame_trans [OF add(4) IH(4)])
    ultimately show ?thesis using IH(2) by blast
  qed
qed

end
