(* ===== verification/Buddy_Blocks.thy ===== *)
theory Buddy_Blocks
  imports Buddy_Refinement
begin

text \<open>
  What the free lists mean: the multiset of free pages they stand for. The list functions of \<^verbatim>\<open>Buddy_Zone\<close>
  are accounted for page by page: an allocation takes exactly the pages of the block it returns, filling a
  zone adds exactly its pages, and freeing adds exactly the pages freed as long as the merge loop is not
  misled (\<open>misled\<close>): the loop of the source goes on to larger blocks after a level without a partner, where
  a block of another size can be taken for one. \<open>coalesce\<close> is the merge that stops there.
\<close>

section \<open>Definitions\<close>

definition block :: "nat \<Rightarrow> nat \<Rightarrow> nat multiset" where
  "block k pg = mset [pg..<pg + 2 ^ k]"

definition level_pages :: "nat \<Rightarrow> nat list \<Rightarrow> nat multiset" where
  "level_pages k xs = sum_list (map (block k) xs)"

definition free_mset :: "free_lists \<Rightarrow> nat multiset" where
  "free_mset fl = (\<Sum>k<length fl. level_pages k (fl ! k))"

fun coalesce :: "nat list \<Rightarrow> free_lists \<Rightarrow> nat \<Rightarrow> nat \<Rightarrow> free_lists \<times> nat \<times> nat" where
  "coalesce [] fl pf rel = (fl, pf, rel)"
| "coalesce (k # ks) fl pf rel =
     (if level_hit fl rel k
      then coalesce ks (fl[k := remove1 (buddy_of k rel) (fl ! k)]) (Suc pf) (level_start rel k pf)
      else (fl, pf, rel))"

text \<open>After \<open>coalesce\<close> stopped at level \<open>pf\<close> with the block at \<open>rel\<close>, the source's loop walks on through the
  levels above as long as their lists are not empty: \<open>false_partner\<close> if one of them is taken for a partner.\<close>

fun false_partner :: "nat list \<Rightarrow> free_lists \<Rightarrow> nat \<Rightarrow> bool" where
  "false_partner [] fl rel = False"
| "false_partner (k # ks) fl rel =
     (fl ! k \<noteq> [] \<and> (level_hit fl rel k \<or> false_partner ks fl rel))"

definition misled :: "free_lists \<Rightarrow> nat \<Rightarrow> nat \<Rightarrow> bool" where
  "misled fl k rel =
     (case coalesce [k..<BUDDY_ALLOC_MAX_POW] fl k rel of
        (fl', pf, rel') \<Rightarrow> false_partner [pf..<BUDDY_ALLOC_MAX_POW] fl' rel')"

section \<open>Blocks and levels\<close>

lemma block_Suc: "block (Suc k) pg = block k pg + block k (pg + 2 ^ k)"
proof -
  have "[pg..<pg + 2 ^ Suc k] = [pg..<pg + 2 ^ k] @ [pg + 2 ^ k..<pg + 2 ^ k + 2 ^ k]"
    using upt_add_eq_append [of pg "pg + 2 ^ k" "2 ^ k"] by (simp add: mult_2 add.assoc)
  then show ?thesis unfolding block_def by (simp only: mset_append)
qed

lemma in_block [simp]: "p \<in># block k pg \<longleftrightarrow> pg \<le> p \<and> p < pg + 2 ^ k"
  by (auto simp: block_def)

lemma count_block_le: "count (block k pg) p \<le> 1"
  by (simp add: block_def count_mset_set')

lemma size_block [simp]: "size (block k pg) = 2 ^ k"
  by (simp add: block_def)

lemma level_pages_Nil [simp]: "level_pages k [] = {#}"
  by (simp add: level_pages_def)

lemma level_pages_Cons [simp]: "level_pages k (x # xs) = block k x + level_pages k xs"
  by (simp add: level_pages_def)

lemma level_pages_remove1: "x \<in> set xs \<Longrightarrow> level_pages k (remove1 x xs) + block k x = level_pages k xs"
  by (induction xs) (auto simp: ac_simps)

lemma block_subset_free_mset:
  assumes "k < length fl" "pg \<in> set (fl ! k)"
  shows "block k pg \<subseteq># free_mset fl"
proof -
  have "block k pg \<subseteq># level_pages k (fl ! k)"
    using level_pages_remove1 [OF assms(2), of k] by (metis mset_subset_eq_add_right)
  also have "\<dots> \<subseteq># free_mset fl"
    unfolding free_mset_def using assms(1)
    by (subst sum.remove [of _ k]) auto
  finally show ?thesis .
qed

lemma free_mset_update:
  assumes "k < length fl"
  shows "free_mset (fl[k := xs]) + level_pages k (fl ! k) = free_mset fl + level_pages k xs"
proof -
  define rest where "rest = (\<Sum>i \<in> {..<length fl} - {k}. level_pages i (fl ! i))"
  have "free_mset fl = level_pages k (fl ! k) + rest"
    unfolding free_mset_def rest_def using assms by (intro sum.remove) auto
  moreover have "free_mset (fl[k := xs]) = level_pages k xs + rest"
    unfolding free_mset_def rest_def using assms
    by (subst sum.remove [of _ k]) (auto intro!: sum.cong)
  ultimately show ?thesis by (simp add: ac_simps)
qed

lemma free_mset_add: "k < length fl \<Longrightarrow> free_mset (l_add fl k pg) = free_mset fl + block k pg"
  using free_mset_update [of k fl "pg # fl ! k"] by (simp add: l_add_def ac_simps)

lemma free_mset_tl:
  "k < length fl \<Longrightarrow> fl ! k \<noteq> [] \<Longrightarrow> free_mset (fl[k := tl (fl ! k)]) + block k (hd (fl ! k)) = free_mset fl"
  using free_mset_update [of k fl "tl (fl ! k)"] by (cases "fl ! k") (auto simp: ac_simps)

lemma free_mset_remove1:
  assumes "k < length fl" "x \<in> set (fl ! k)"
  shows "free_mset (fl[k := remove1 x (fl ! k)]) + block k x = free_mset fl"
proof -
  have "free_mset (fl[k := remove1 x (fl ! k)]) + block k x + level_pages k (remove1 x (fl ! k)) =
      free_mset fl + level_pages k (remove1 x (fl ! k))"
    using free_mset_update [OF assms(1), of "remove1 x (fl ! k)"] level_pages_remove1 [OF assms(2), of k]
    by (metis add.assoc add.commute)
  then show ?thesis by simp
qed

lemma free_mset_replicate [simp]: "free_mset (replicate n []) = {#}"
  by (simp add: free_mset_def)

lemma in_free_mset_bound: "lists_ok n fl \<Longrightarrow> p \<in># free_mset fl \<Longrightarrow> p < n"
proof -
  assume ok: "lists_ok n fl" and "p \<in># free_mset fl"
  then obtain k where k: "k < length fl" "p \<in># level_pages k (fl ! k)"
    by (auto simp: free_mset_def set_mset_sum)
  have "\<exists>pg \<in> set xs. p \<in># block k pg" if "p \<in># level_pages k xs" for xs
    using that by (induction xs) auto
  with k obtain pg where "pg \<in> set (fl ! k)" "p < pg + 2 ^ k" by fastforce
  moreover have "k < BUDDY_ALLOC_MAX_POW" using k ok by (simp add: lists_ok_def)
  ultimately show ?thesis using lists_okD [OF ok, of k pg] by linarith
qed

section \<open>Allocating\<close>

lemma l_split_spec:
  assumes "j < i" "i \<le> length fl"
  shows "\<exists>fl'. l_split i fl left (2 ^ j) = (Some left, fl') \<and> length fl' = length fl \<and>
    free_mset fl' + block j left = free_mset fl + block i left"
  using assms
proof (induction i arbitrary: fl)
  case (Suc i)
  let ?fl = "l_add fl i (left + 2 ^ i)"
  have add: "free_mset ?fl = free_mset fl + block i (left + 2 ^ i)"
    using Suc.prems by (intro free_mset_add) simp
  show ?case
  proof (cases "j = i")
    case True
    then have "l_split (Suc i) fl left (2 ^ j) = (Some left, ?fl)" by simp
    with add True show ?thesis by (auto simp: block_Suc)
  next
    case False
    with Suc.IH [of ?fl] Suc.prems obtain fl' where
      "l_split i ?fl left (2 ^ j) = (Some left, fl')" "length fl' = length fl"
      "free_mset fl' + block j left = free_mset ?fl + block i left" by auto
    with False add show ?thesis by (auto simp: block_Suc)
  qed
qed simp

lemma lists_ok_add:
  "lists_ok n fl \<Longrightarrow> k < BUDDY_ALLOC_MAX_POW \<Longrightarrow> 2 ^ k dvd pg \<Longrightarrow> pg + 2 ^ k \<le> n \<Longrightarrow> lists_ok n (l_add fl k pg)"
  unfolding l_add_def by (rule lists_ok_update) (auto dest: lists_okD)

lemma l_split_ok:
  assumes "lists_ok n fl" "i \<le> BUDDY_ALLOC_MAX_POW" "2 ^ i dvd left" "left + 2 ^ i \<le> n"
  shows "lists_ok n (snd (l_split i fl left cnt))"
  using assms
proof (induction i arbitrary: fl)
  case (Suc i)
  have "2 ^ i dvd left" using Suc.prems(3) by (metis power_le_dvd le_Suc_eq order_refl)
  moreover have "2 ^ i dvd left + 2 ^ i" using calculation by simp
  moreover have "lists_ok n (l_add fl i (left + 2 ^ i))"
    using Suc.prems calculation by (intro lists_ok_add) auto
  ultimately show ?case using Suc by (simp add: Let_def)
qed simp

lemma l_alloc_Some:
  assumes ok: "lists_ok n fl" and ps: "\<forall>pow \<in> set ps. pow < BUDDY_ALLOC_MAX_POW"
    and alloc: "l_alloc ps fl (2 ^ j) = (Some r, fl')"
  shows "free_mset fl = free_mset fl' + block j r \<and> lists_ok n fl' \<and> 2 ^ j dvd r \<and> r + 2 ^ j \<le> n"
  using ps alloc
proof (induction ps)
  case (Cons pow ps)
  have len: "length fl = BUDDY_ALLOC_MAX_POW" using ok by (simp add: lists_ok_def)
  have pow: "pow < BUDDY_ALLOC_MAX_POW" using Cons.prems(1) by simp
  let ?tl = "fl[pow := tl (fl ! pow)]" and ?hd = "hd (fl ! pow)"
  show ?case
  proof (cases "fl ! pow = [] \<or> 2 ^ pow < (2::nat) ^ j")
    case True
    with Cons.prems(2) have "l_alloc ps fl (2 ^ j) = (Some r, fl')" by (auto split: if_splits)
    then show ?thesis using Cons by simp
  next
    case False
    then have ne: "fl ! pow \<noteq> []" and le: "j \<le> pow" by (auto simp: not_less)
    have hd: "2 ^ pow dvd ?hd" "?hd + 2 ^ pow \<le> n" using lists_okD [OF ok pow, of ?hd] ne by auto
    have tl: "lists_ok n ?tl"
      using lists_okD [OF ok pow] ne by (intro lists_ok_update [OF ok pow]) (simp add: list.set_sel(2))
    have ms: "free_mset ?tl + block pow ?hd = free_mset fl" using pow len ne by (intro free_mset_tl) auto
    show ?thesis
    proof (cases "j = pow")
      case True
      with Cons.prems(2) ne have "r = ?hd" "fl' = ?tl" by auto
      with hd tl ms True show ?thesis by simp
    next
      case False
      with le have lt: "j < pow" by simp
      then have split: "l_split pow ?tl ?hd (2 ^ j) = (Some r, fl')"
        using Cons.prems(2) ne False by simp
      have "pow \<le> length ?tl" using pow len by simp
      from l_split_spec [OF lt this, of ?hd] split
      have r: "r = ?hd" and ms': "free_mset fl' + block j ?hd = free_mset ?tl + block pow ?hd" by auto
      have "lists_ok n fl'"
        using l_split_ok [OF tl less_imp_le [OF pow] hd, of "2 ^ j"] split by simp
      moreover have "2 ^ j dvd ?hd" using hd(1) lt by (meson le_imp_power_dvd less_imp_le dvd_trans)
      moreover have "?hd + 2 ^ j \<le> n"
        using hd(2) power_increasing [of j pow "2::nat"] le by linarith
      ultimately show ?thesis using r ms ms' by simp
    qed
  qed
qed simp

lemma l_alloc_None:
  assumes "\<forall>pow \<in> set ps. pow < length fl" and "l_alloc ps fl (2 ^ j) = (None, fl')"
  shows "fl' = fl \<and> (\<forall>pow \<in> set ps. j \<le> pow \<longrightarrow> fl ! pow = [])"
  using assms
proof (induction ps)
  case (Cons pow ps)
  show ?case
  proof (cases "fl ! pow = [] \<or> 2 ^ pow < (2::nat) ^ j")
    case True
    with Cons show ?thesis by (auto split: if_splits)
  next
    case False
    then have "fl ! pow \<noteq> []" "j \<le> pow" by (auto simp: not_less)
    with Cons.prems l_split_spec [of j pow "fl[pow := tl (fl ! pow)]" "hd (fl ! pow)"]
    show ?thesis by (cases "j = pow") auto
  qed
qed simp

lemma l_alloc_Some_nonempty:
  "l_alloc ps fl (2 ^ j) = (Some r, fl') \<Longrightarrow> \<exists>pow \<in> set ps. j \<le> pow \<and> fl ! pow \<noteq> []"
  by (induction ps) (auto split: if_splits)

section \<open>Filling a zone\<close>

lemma l_fill_spec:
  assumes "lists_ok m fl" "2 ^ bit_length n dvd cur" "cur + n \<le> m" "n < 2 ^ BUDDY_ALLOC_MAX_POW"
  shows "lists_ok m (l_fill fl n cur) \<and>
    free_mset (l_fill fl n cur) = free_mset fl + mset [cur..<cur + n]"
  using assms
proof (induction n arbitrary: fl cur rule: less_induct)
  case (less n)
  show ?case
  proof (cases "n = 0")
    case True
    with less.prems show ?thesis by (simp add: l_fill.simps)
  next
    case False
    define pow where "pow = bit_length n - 1"
    from False have bl: "bit_length n = Suc pow" by (simp add: pow_def bit_length_pos)
    have le: "2 ^ pow \<le> n" unfolding pow_def using False by (intro two_power_bit_length_le) simp
    have "bit_length n \<le> BUDDY_ALLOC_MAX_POW" using less.prems(4) by (simp add: bit_length_le_iff)
    then have pow: "pow < BUDDY_ALLOC_MAX_POW" using bl by simp
    have cur: "2 ^ pow dvd cur" using less.prems(2) bl by (metis power_le_dvd le_Suc_eq order_refl)
    have ok: "lists_ok m (l_add fl pow cur)"
      using less.prems le pow cur by (intro lists_ok_add) auto
    have dvd: "2 ^ bit_length (n - 2 ^ pow) dvd cur + 2 ^ pow"
      using cur bit_length_rest [of n] False unfolding pow_def [symmetric]
      by (meson dvd_add dvd_refl dvd_trans le_imp_power_dvd neq0_conv)
    have IH: "lists_ok m (l_fill (l_add fl pow cur) (n - 2 ^ pow) (cur + 2 ^ pow)) \<and>
      free_mset (l_fill (l_add fl pow cur) (n - 2 ^ pow) (cur + 2 ^ pow)) =
      free_mset (l_add fl pow cur) + mset [cur + 2 ^ pow..<cur + 2 ^ pow + (n - 2 ^ pow)]"
      using less.prems le False by (intro less.IH [OF _ ok dvd]) auto
    have "[cur..<cur + n] = [cur..<cur + 2 ^ pow] @ [cur + 2 ^ pow..<cur + 2 ^ pow + (n - 2 ^ pow)]"
      using upt_add_eq_append [of cur "cur + 2 ^ pow" "n - 2 ^ pow"] le by simp
    then have "mset [cur..<cur + n] = block pow cur + mset [cur + 2 ^ pow..<cur + 2 ^ pow + (n - 2 ^ pow)]"
      unfolding block_def by (simp only: mset_append)
    moreover have "l_fill fl n cur = l_fill (l_add fl pow cur) (n - 2 ^ pow) (cur + 2 ^ pow)"
      using False by (subst l_fill.simps) (simp add: pow_def Let_def)
    moreover have "free_mset (l_add fl pow cur) = free_mset fl + block pow cur"
      using pow less.prems(1) by (intro free_mset_add) (simp add: lists_ok_def)
    ultimately show ?thesis using IH by (simp add: ac_simps)
  qed
qed

section \<open>Freeing\<close>

lemma coalesce_spec:
  assumes "lists_ok n fl" "2 ^ k dvd rel" "rel + 2 ^ k \<le> n"
  shows "case coalesce [k..<BUDDY_ALLOC_MAX_POW] fl k rel of (fl', pf, rel') \<Rightarrow>
    free_mset fl' + block pf rel' = free_mset fl + block k rel \<and> lists_ok n fl' \<and>
    2 ^ pf dvd rel' \<and> rel' + 2 ^ pf \<le> n \<and> k \<le> pf \<and> pf \<le> max k BUDDY_ALLOC_MAX_POW"
  using assms
proof (induction "BUDDY_ALLOC_MAX_POW - k" arbitrary: k fl rel)
  case (Suc m)
  from Suc.hyps(2) have k: "k < BUDDY_ALLOC_MAX_POW" and m: "m = BUDDY_ALLOC_MAX_POW - Suc k" by simp_all
  show ?case
  proof (cases "level_hit fl rel k")
    case True
    let ?fl = "fl[k := remove1 (buddy_of k rel) (fl ! k)]" and ?rel = "level_start rel k k"
    from True have mem: "buddy_of k rel \<in> set (fl ! k)" by (simp add: level_hit_def)
    have len: "length fl = BUDDY_ALLOC_MAX_POW" using Suc.prems(1) by (simp add: lists_ok_def)
    have "block k rel + block k (buddy_of k rel) = block (Suc k) ?rel \<and> 2 ^ Suc k dvd ?rel"
    proof (cases "2 ^ (k + 1) dvd rel")
      case True
      then show ?thesis by (simp add: buddy_of_def level_start_def block_Suc)
    next
      case False
      with Suc.prems(2) have "odd (rel div 2 ^ k)" by (auto elim!: dvdE simp: mult.commute)
      then obtain q where "rel = 2 ^ k * (2 * q + 1)" using Suc.prems(2)
        by (metis dvd_mult_div_cancel oddE)
      with False show ?thesis by (simp add: buddy_of_def level_start_def block_Suc algebra_simps)
    qed
    moreover have "free_mset ?fl + block k (buddy_of k rel) = free_mset fl"
      using k len mem by (intro free_mset_remove1) auto
    ultimately have ms: "free_mset ?fl + block (Suc k) ?rel = free_mset fl + block k rel"
      and dvd: "2 ^ Suc k dvd ?rel"
      by (metis union_assoc union_commute, simp)
    have ok: "lists_ok n ?fl" by (rule lists_ok_remove1 [OF Suc.prems(1) k])
    have le: "?rel + 2 ^ Suc k \<le> n"
      by (rule level_start_bound(2) [OF Suc.prems(1) k True order_refl Suc.prems(3)])
    from Suc.hyps(1) [OF m ok dvd le] True k ms show ?thesis
      by (simp add: upt_conv_Cons split: prod.splits)
  next
    case False
    with Suc.prems k show ?thesis by (simp add: upt_conv_Cons)
  qed
qed simp

lemma l_merge_no_false_partner:
  "\<not> false_partner ks fl rel \<Longrightarrow> l_merge ks fl pf rel = (fl, pf, rel)"
  by (induction ks) (auto simp: l_merge_Cons)

lemma level_hit_nonempty: "level_hit fl rel k \<Longrightarrow> fl ! k \<noteq> []"
  by (auto simp: level_hit_def)

text \<open>The source's merge agrees with \<open>coalesce\<close> unless it is misled.\<close>

lemma l_merge_coalesce:
  assumes "\<not> (case coalesce [k..<BUDDY_ALLOC_MAX_POW] fl k rel of
    (fl', pf, rel') \<Rightarrow> false_partner [pf..<BUDDY_ALLOC_MAX_POW] fl' rel')"
  shows "l_merge [k..<BUDDY_ALLOC_MAX_POW] fl k rel = coalesce [k..<BUDDY_ALLOC_MAX_POW] fl k rel"
  using assms
proof (induction "BUDDY_ALLOC_MAX_POW - k" arbitrary: k fl rel)
  case (Suc m)
  from Suc.hyps(2) have k: "k < BUDDY_ALLOC_MAX_POW" and m: "m = BUDDY_ALLOC_MAX_POW - Suc k" by simp_all
  have ps: "[k..<BUDDY_ALLOC_MAX_POW] = k # [Suc k..<BUDDY_ALLOC_MAX_POW]"
    using k by (simp add: upt_conv_Cons)
  show ?case
  proof (cases "level_hit fl rel k")
    case True
    with Suc.hyps(1) [OF m, of "fl[k := remove1 (buddy_of k rel) (fl ! k)]" "level_start rel k k"]
      Suc.prems level_hit_nonempty [OF True]
    show ?thesis by (simp add: ps l_merge_Cons)
  next
    case False
    with Suc.prems show ?thesis
      using l_merge_no_false_partner [of "[k..<BUDDY_ALLOC_MAX_POW]" fl rel k] by (simp add: ps)
  qed
qed simp

lemma l_free_spec:
  assumes ok: "lists_ok n fl" and n: "n < 2 ^ BUDDY_ALLOC_MAX_POW"
    and rel: "2 ^ k dvd rel" "rel + 2 ^ k \<le> n" and clean: "\<not> misled fl k rel"
  shows "lists_ok n (l_free fl k rel) \<and> free_mset (l_free fl k rel) = free_mset fl + block k rel"
proof -
  obtain fl' pf rel' where co: "coalesce [k..<BUDDY_ALLOC_MAX_POW] fl k rel = (fl', pf, rel')"
    by (metis prod_cases3)
  have l: "l_free fl k rel = l_add fl' pf rel'"
    using l_merge_coalesce [of k fl rel] clean co by (simp add: misled_def l_free_def)
  from coalesce_spec [OF ok rel] co have s:
    "free_mset fl' + block pf rel' = free_mset fl + block k rel" "lists_ok n fl'"
    "2 ^ pf dvd rel'" "rel' + 2 ^ pf \<le> n" by auto
  have pf: "pf < BUDDY_ALLOC_MAX_POW"
  proof (rule ccontr)
    assume "\<not> pf < BUDDY_ALLOC_MAX_POW"
    then have "(2::nat) ^ BUDDY_ALLOC_MAX_POW \<le> 2 ^ pf" by (intro power_increasing) auto
    with s(4) n show False by linarith
  qed
  have "lists_ok n (l_add fl' pf rel')" by (rule lists_ok_add [OF s(2) pf s(3,4)])
  moreover have "free_mset (l_add fl' pf rel') = free_mset fl' + block pf rel'"
    using pf s(2) by (intro free_mset_add) (simp add: lists_ok_def)
  ultimately show ?thesis using l s(1) by simp
qed

end
