(* ===== verification/Buddy_Allocator.thy ===== *)
theory Buddy_Allocator
  imports Buddy_Blocks
begin

text \<open>
  \<^verbatim>\<open>BuddyAllocator\<close> of \<^verbatim>\<open>src/src/page/buddy_allocator.rs\<close> (lines 282-368): up to 16 zones over one node pool,
  which grows by extended pools taken from the allocator itself.

  \<open>buddy_rep d a fls\<close> is the representation invariant: the zones of \<open>a\<close> hold the free lists \<open>fls\<close>, no node and
  no page is free twice, the counter \<^verbatim>\<open>free\<close> counts the free pages and \<^verbatim>\<open>freenode_remain\<close> is \<open>d\<close> ahead of the
  unused nodes. The lemmas follow \<^verbatim>\<open>alloc_pages\<close>, \<^verbatim>\<open>free_pages\<close>, \<^verbatim>\<open>add_zone\<close> and \<^verbatim>\<open>new_extended_pool\<close> through it.
\<close>

section \<open>The allocator\<close>

record BuddyAllocator =
  free :: nat
  zones :: "MemoryZone list"
  zone_num :: nat
  node_pool :: FreeNodePool
  extended_pools :: "nat option"
  ext_pool_next :: "nat \<Rightarrow> nat option"

text \<open>An extended pool is named by its page; \<open>ext_pool_next\<close> holds the \<^verbatim>\<open>next\<close> fields of the pools in memory.\<close>

definition BuddyAllocator_default :: BuddyAllocator where
  "BuddyAllocator_default =
     \<lparr>free = 0, zones = replicate MEM_ZONES MemoryZone_default, zone_num = 0,
      node_pool = FreeNodePool_default, extended_pools = None, ext_pool_next = (\<lambda>_. None)\<rparr>"

definition buddy_init :: "BuddyAllocator \<Rightarrow> BuddyAllocator" where
  "buddy_init a = a\<lparr>node_pool := FreeNodePool_init (node_pool a)\<rparr>"

definition add_zone :: "BuddyAllocator \<Rightarrow> nat \<Rightarrow> nat \<Rightarrow> BuddyAllocator option" where
  "add_zone a b n = do {
     (zone, pool) \<leftarrow> MemoryZone_new (node_pool a) b n;
     zs \<leftarrow> set_opt (zones a) (zone_num a) zone;
     num \<leftarrow> usize_add (zone_num a) 1;
     total \<leftarrow> usize_add (free a) n;
     Some (a\<lparr>node_pool := pool, zones := zs, zone_num := num, free := total\<rparr>)
   }"

text \<open>\<^verbatim>\<open>for zone in &mut self.zones[..self.zone_num]\<close> of \<^verbatim>\<open>alloc_pages\<close>, over the indices of the slice.\<close>

fun alloc_zones ::
  "nat list \<Rightarrow> MemoryZone list \<Rightarrow> FreeNodePool \<Rightarrow> nat \<Rightarrow>
   (nat option \<times> MemoryZone list \<times> FreeNodePool) option" where
  "alloc_zones [] zs pool pages_count = Some (None, zs, pool)"
| "alloc_zones (i # is) zs pool pages_count = do {
     zone \<leftarrow> nth_opt zs i;
     (r, zone, pool) \<leftarrow> zone_alloc_pages zone pool pages_count;
     let zs = zs[i := zone];
     (case r of
        Some page_num \<Rightarrow> Some (Some page_num, zs, pool)
      | None \<Rightarrow> alloc_zones is zs pool pages_count)
   }"

text \<open>A \<^verbatim>\<open>FreeNode\<close> is two machine words, an \<^verbatim>\<open>ExtendedFreeNodePool\<close> its nodes and a pointer.\<close>

definition size_of_ExtendedFreeNodePool :: nat where
  "size_of_ExtendedFreeNodePool = EXT_NODE_COMPATIBILITY * 16 + 8"

definition attach_extended_pool :: "BuddyAllocator \<Rightarrow> nat \<Rightarrow> BuddyAllocator" where
  "attach_extended_pool a page_num =
     (let pool = node_pool a;
          nodes = ExtendedFreeNodePool_init page_num (free_nodes pool);
          nodes = write_next nodes (ExtNode page_num (EXT_NODE_COMPATIBILITY - 1)) (free_start pool)
      in a\<lparr>ext_pool_next := (ext_pool_next a)(page_num := extended_pools a),
           extended_pools := Some page_num,
           node_pool := pool\<lparr>free_nodes := nodes, free_start := Some (ExtNode page_num 0)\<rparr>\<rparr>)"

function buddy_alloc_pages ::
    "BuddyAllocator \<Rightarrow> nat \<Rightarrow> ((AllocError + nat) \<times> BuddyAllocator) option"
  and new_extended_pool :: "BuddyAllocator \<Rightarrow> ((AllocError + unit) \<times> BuddyAllocator) option" where
  "buddy_alloc_pages a pages_count = do {
     (ready, a) \<leftarrow> (if freenode_remain (node_pool a) \<le> MIN_POOL_REMAIN
                    then new_extended_pool a else Some (Inr (), a));
     (case ready of
        Inl e \<Rightarrow> Some (Inl e, a)
      | Inr _ \<Rightarrow> do {
          pages_count \<leftarrow> ceil_to_power_2 pages_count;
          rust_assert (zone_num a \<le> length (zones a));
          (r, zs, pool) \<leftarrow> alloc_zones [0..<zone_num a] (zones a) (node_pool a) pages_count;
          (case r of
             Some page_num \<Rightarrow> do {
               rest \<leftarrow> usize_sub (free a) pages_count;
               Some (Inr page_num, a\<lparr>zones := zs, node_pool := pool, free := rest\<rparr>)
             }
           | None \<Rightarrow> Some (Inl OutOfMemory, a\<lparr>zones := zs, node_pool := pool\<rparr>))
        })
   }"
| "new_extended_pool a = do {
     remain \<leftarrow> usize_add (freenode_remain (node_pool a)) EXT_NODE_COMPATIBILITY;
     pages \<leftarrow> ceil_to_power_2 (div_ceil size_of_ExtendedFreeNodePool PAGE_SIZE);
     (r, a) \<leftarrow> buddy_alloc_pages (a\<lparr>node_pool := (node_pool a)\<lparr>freenode_remain := remain\<rparr>\<rparr>) pages;
     (case r of
        Inl e \<Rightarrow> Some (Inl e, a)
      | Inr page_num \<Rightarrow> do {
          _ \<leftarrow> usize_mul page_num PAGE_SIZE;
          Some (Inr (), attach_extended_pool a page_num)
        })
   }"
  by pat_completeness auto

termination
  by (relation "measure (\<lambda>x. case x of
        Inl (a, n) \<Rightarrow> if freenode_remain (node_pool a) \<le> MIN_POOL_REMAIN then 2 else 0
      | Inr a \<Rightarrow> 1)")
    (auto simp: rust_simps MIN_POOL_REMAIN_def MAX_POW_36 EXT_NODE_COMPATIBILITY_def)

declare buddy_alloc_pages.simps [simp del] new_extended_pool.simps [simp del]

fun free_zones ::
  "nat list \<Rightarrow> MemoryZone list \<Rightarrow> FreeNodePool \<Rightarrow> nat \<Rightarrow> nat \<Rightarrow>
   (bool \<times> MemoryZone list \<times> FreeNodePool) option" where
  "free_zones [] zs pool page_start pages_count = Some (False, zs, pool)"
| "free_zones (i # is) zs pool page_start pages_count = do {
     zone \<leftarrow> nth_opt zs i;
     end_page \<leftarrow> usize_add (base zone) (pages zone);
     if base zone \<le> page_start \<and> page_start < end_page
     then do {
       (zone, pool) \<leftarrow> zone_free_pages zone pool page_start pages_count;
       Some (True, zs[i := zone], pool)
     }
     else free_zones is zs pool page_start pages_count
   }"

definition buddy_free_pages :: "BuddyAllocator \<Rightarrow> nat \<Rightarrow> nat \<Rightarrow> BuddyAllocator option" where
  "buddy_free_pages a page_start pages_count = do {
     pages_count \<leftarrow> ceil_to_power_2 pages_count;
     rust_assert (zone_num a \<le> length (zones a));
     (hit, zs, pool) \<leftarrow> free_zones [0..<zone_num a] (zones a) (node_pool a) page_start pages_count;
     if hit then do {
       total \<leftarrow> usize_add (free a) pages_count;
       Some (a\<lparr>zones := zs, node_pool := pool, free := total\<rparr>)
     }
     else Some (a\<lparr>zones := zs, node_pool := pool\<rparr>)
   }"

section \<open>The representation invariant\<close>

abbreviation all_nodes :: "node_ptr list list list \<Rightarrow> node_ptr list \<Rightarrow> node_ptr list" where
  "all_nodes nsss frees \<equiv> concat (map concat nsss) @ frees"

definition zones_rep ::
  "nat \<Rightarrow> MemoryZone list \<Rightarrow> FreeNodePool \<Rightarrow> node_ptr list list list \<Rightarrow> node_ptr list \<Rightarrow> bool" where
  "zones_rep d zs pool nsss frees \<longleftrightarrow>
     length nsss \<le> length zs \<and> pool_rep d pool frees \<and>
     (\<forall>i < length nsss. length (pows (zs ! i)) = BUDDY_ALLOC_MAX_POW \<and>
        length (nsss ! i) = BUDDY_ALLOC_MAX_POW \<and>
        (\<forall>k < BUDDY_ALLOC_MAX_POW. node_path (free_nodes pool) (pows (zs ! i) ! k) (nsss ! i ! k))) \<and>
     distinct (all_nodes nsss frees) \<and> length (all_nodes nsss frees) + d < 2 ^ 64"

definition zone_pages :: "MemoryZone \<Rightarrow> free_lists \<Rightarrow> nat multiset" where
  "zone_pages zone fl = image_mset ((+) (base zone)) (free_mset fl)"

definition all_free :: "MemoryZone list \<Rightarrow> free_lists list \<Rightarrow> nat multiset" where
  "all_free zs fls = (\<Sum>i<length fls. zone_pages (zs ! i) (fls ! i))"

text \<open>The geometry of the zones, which no operation but \<^verbatim>\<open>add_zone\<close> changes: a zone has fewer than \<open>2 ^ 36\<close>
  pages and ends below the largest page number of the address space.\<close>

definition zone_ok :: "MemoryZone \<Rightarrow> free_lists \<Rightarrow> bool" where
  "zone_ok zone fl \<longleftrightarrow> lists_ok (pages zone) fl \<and> pages zone < 2 ^ BUDDY_ALLOC_MAX_POW \<and>
     base zone + pages zone < 2 ^ 52"

definition zone_range :: "MemoryZone \<Rightarrow> nat set" where
  "zone_range zone = {base zone..<base zone + pages zone}"

definition zones_disjoint :: "MemoryZone list \<Rightarrow> nat \<Rightarrow> bool" where
  "zones_disjoint zs m \<longleftrightarrow>
     (\<forall>i < m. \<forall>j < m. i \<noteq> j \<longrightarrow> zone_range (zs ! i) \<inter> zone_range (zs ! j) = {})"

text \<open>The chain of extended pools, and the pages they occupy.\<close>

fun ext_path :: "(nat \<Rightarrow> nat option) \<Rightarrow> nat option \<Rightarrow> nat list \<Rightarrow> bool" where
  "ext_path nxt p [] = (p = None)"
| "ext_path nxt p (q # qs) = (p = Some q \<and> ext_path nxt (nxt q) qs)"

definition EXT_POW :: nat where "EXT_POW = 6"

definition pool_pages :: "nat list \<Rightarrow> nat multiset" where
  "pool_pages ps = sum_list (map (block EXT_POW) ps)"

fun node_home :: "nat list \<Rightarrow> node_ptr \<Rightarrow> bool" where
  "node_home ps (PoolNode i) = (i < NODE_COMPATIBILITY)"
| "node_home ps (ExtNode p i) = (p \<in> set ps \<and> i < EXT_NODE_COMPATIBILITY)"

definition buddy_nodes ::
  "nat \<Rightarrow> BuddyAllocator \<Rightarrow> node_ptr list list list \<Rightarrow> node_ptr list \<Rightarrow> free_lists list \<Rightarrow> nat list \<Rightarrow> bool" where
  "buddy_nodes d a nsss frees fls ps \<longleftrightarrow>
     zones_rep d (zones a) (node_pool a) nsss frees \<and> map (zone_lists (node_pool a)) nsss = fls \<and>
     (\<forall>nd \<in> set (all_nodes nsss frees). node_home ps nd)"

definition buddy_pages :: "BuddyAllocator \<Rightarrow> free_lists list \<Rightarrow> nat list \<Rightarrow> bool" where
  "buddy_pages a fls ps \<longleftrightarrow>
     length (zones a) = MEM_ZONES \<and> zone_num a \<le> MEM_ZONES \<and> length fls = zone_num a \<and>
     (\<forall>i < zone_num a. zone_ok (zones a ! i) (fls ! i)) \<and> zones_disjoint (zones a) (zone_num a) \<and>
     ext_path (ext_pool_next a) (extended_pools a) ps \<and> (\<forall>p \<in> set ps. p + 2 ^ EXT_POW \<le> 2 ^ 52) \<and>
     (\<forall>p. count (all_free (zones a) fls + pool_pages ps) p \<le> 1) \<and>
     free a = size (all_free (zones a) fls)"

definition buddy_rep :: "nat \<Rightarrow> BuddyAllocator \<Rightarrow> free_lists list \<Rightarrow> nat list \<Rightarrow> bool" where
  "buddy_rep d a fls ps \<longleftrightarrow> (\<exists>nsss frees. buddy_nodes d a nsss frees fls ps) \<and> buddy_pages a fls ps"

section \<open>One zone among several\<close>

lemma zones_repD:
  assumes "zones_rep d zs pool nsss frees"
  shows "length nsss \<le> length zs" "pool_rep d pool frees" "distinct (all_nodes nsss frees)"
    "length (all_nodes nsss frees) + d < 2 ^ 64"
  using assms by (auto simp: zones_rep_def)

lemma concat_nth_le: "i < length xss \<Longrightarrow> length (xss ! i) \<le> length (concat xss)"
proof (induction xss arbitrary: i)
  case (Cons xs xss)
  then show ?case by (cases i) (auto intro: trans_le_add2)
qed simp

lemma zones_rep_zone:
  assumes rep: "zones_rep d zs pool nsss frees" and i: "i < length nsss"
  shows "zone_rep d (zs ! i) pool (nsss ! i) frees"
proof -
  have eq: "map concat nsss ! i = concat (nsss ! i)" using i by simp
  have "distinct (concat (map concat nsss))" using zones_repD(3) [OF rep] by simp
  moreover have "concat (nsss ! i) \<in> set (map concat nsss)" using i by simp
  ultimately have "distinct (concat (nsss ! i))"
    by (simp only: distinct_concat_iff [of "map concat nsss"])
  moreover have "set (concat (nsss ! i)) \<subseteq> set (concat (map concat nsss))"
    "length (concat (nsss ! i)) \<le> length (concat (map concat nsss))"
    using nth_subset_concat [of i "map concat nsss"] concat_nth_le [of i "map concat nsss"] i
    unfolding eq length_map by blast+
  ultimately have "distinct (concat (nsss ! i) @ frees)" "length (concat (nsss ! i) @ frees) + d < 2 ^ 64"
    using zones_repD(3,4) [OF rep] by (auto simp del: set_concat)
  then show ?thesis
    using rep i by (auto simp: zones_rep_def zone_rep_def)
qed

lemma zones_rep_update:
  assumes rep: "zones_rep d zs pool nsss frees" and i: "i < length nsss"
    and new: "zone_rep d zone' pool' nss' frees'"
    and fr: "zone_frame (zs ! i) pool (nsss ! i) frees zone' pool' nss' frees'"
  shows "zones_rep d (zs[i := zone']) pool' (nsss[i := nss']) frees'"
    "map (zone_lists pool') (nsss[i := nss']) = (map (zone_lists pool) nsss)[i := zone_lists pool' nss']"
    "mset (all_nodes (nsss[i := nss']) frees') = mset (all_nodes nsss frees)"
proof -
  have "mset (concat (nss')) + mset frees' = mset (concat (nsss ! i)) + mset frees"
    using fr by (simp add: zone_frame_def)
  with mset_concat_update [of i "map concat nsss" "concat nss'"] i
  have "mset (all_nodes (nsss[i := nss']) frees') + mset (concat (nsss ! i)) =
      mset (all_nodes nsss frees) + mset (concat (nsss ! i))"
    by (simp add: map_update ac_simps)
  then show ms: "mset (all_nodes (nsss[i := nss']) frees') = mset (all_nodes nsss frees)" by simp
  have same: "free_nodes pool' nd = free_nodes pool nd"
    if j: "j < length nsss" "j \<noteq> i" and nd: "nd \<in> set (concat (nsss ! j))" for j nd
  proof -
    have "set (map concat nsss ! j) \<inter> set (map concat nsss ! i) = {}"
      using zones_repD(3) [OF rep] i j by (intro distinct_concat_nth_disjoint) auto
    moreover have "set (map concat nsss ! j) \<inter> set frees = {}"
      using zones_repD(3) [OF rep] nth_subset_concat [of j "map concat nsss"] j by auto
    ultimately show ?thesis using fr nd i j unfolding zone_frame_def by (auto simp del: set_concat)
  qed
  have path: "node_path (free_nodes pool') (pows (zs ! j) ! k) (nsss ! j ! k)"
    if j: "j < length nsss" "j \<noteq> i" and k: "k < BUDDY_ALLOC_MAX_POW" for j k
  proof -
    have old: "node_path (free_nodes pool) (pows (zs ! j) ! k) (nsss ! j ! k)" "k < length (nsss ! j)"
      using rep j k by (simp_all add: zones_rep_def)
    have "free_nodes pool' nd = free_nodes pool nd" if "nd \<in> set (nsss ! j ! k)" for nd
      using same [OF j] nth_subset_concat [OF old(2)] that by blast
    then show ?thesis
      using old node_path_cong [of "nsss ! j ! k" "free_nodes pool'" "free_nodes pool"] by simp
  qed
  have "length (zs[i := zone']) = length zs" by simp
  then show "zones_rep d (zs[i := zone']) pool' (nsss[i := nss']) frees'"
    using rep i new path mset_eq_imp_distinct_iff [OF ms] mset_eq_length [OF ms]
    unfolding zones_rep_def by (auto simp: zone_rep_def nth_list_update simp del: mset_append)
  have "zone_lists pool' (nsss ! j) = zone_lists pool (nsss ! j)" if "j < length nsss" "j \<noteq> i" for j
    unfolding zone_lists_def by (intro map_cong refl arg_cong [of _ _ page_number] same [OF that]) auto
  then show "map (zone_lists pool') (nsss[i := nss']) = (map (zone_lists pool) nsss)[i := zone_lists pool' nss']"
    using i by - (rule nth_equalityI, auto simp: nth_list_update)
qed

section \<open>Pages of the zones\<close>

lemma image_block: "image_mset ((+) b) (block k r) = block k (b + r)"
proof -
  have "map ((+) b) [r..<r + 2 ^ k] = [b + r..<b + r + 2 ^ k]"
    by (rule nth_equalityI) auto
  then show ?thesis unfolding block_def by (metis mset_map)
qed

lemma all_free_update:
  assumes i: "i < length fls" and same: "map base zs' = map base zs" and len: "length fls \<le> length zs"
  shows "all_free zs' (fls[i := fl]) + zone_pages (zs ! i) (fls ! i) =
    all_free zs fls + zone_pages (zs ! i) fl"
proof -
  have b: "base (zs' ! j) = base (zs ! j)" if "j < length fls" for j
    using that len same by (metis length_map nth_map order.strict_trans2)
  define rest where "rest = (\<Sum>j \<in> {..<length fls} - {i}. zone_pages (zs ! j) (fls ! j))"
  have "all_free zs fls = zone_pages (zs ! i) (fls ! i) + rest"
    unfolding all_free_def rest_def using i by (intro sum.remove) auto
  moreover have "all_free zs' (fls[i := fl]) = zone_pages (zs ! i) fl + rest"
    unfolding all_free_def rest_def using i b
    by (subst sum.remove [of _ i]) (auto simp: zone_pages_def intro!: sum.cong)
  ultimately show ?thesis by (simp add: ac_simps)
qed

text \<open>What an operation may do to the zones: the geometry stays.\<close>

definition same_zones :: "MemoryZone list \<Rightarrow> MemoryZone list \<Rightarrow> bool" where
  "same_zones zs zs' \<longleftrightarrow> map base zs' = map base zs \<and> map pages zs' = map pages zs"

lemma same_zones_refl [simp]: "same_zones zs zs"
  by (simp add: same_zones_def)

lemma same_zones_trans: "same_zones zs zs' \<Longrightarrow> same_zones zs' zs'' \<Longrightarrow> same_zones zs zs''"
  by (simp add: same_zones_def)

lemma same_zones_nth:
  "same_zones zs zs' \<Longrightarrow> i < length zs \<Longrightarrow> base (zs' ! i) = base (zs ! i) \<and> pages (zs' ! i) = pages (zs ! i)"
  unfolding same_zones_def by (metis length_map nth_map)

lemma same_zones_length: "same_zones zs zs' \<Longrightarrow> length zs' = length zs"
  unfolding same_zones_def by (metis length_map)

lemma same_zones_update:
  "i < length zs \<Longrightarrow> base zone = base (zs ! i) \<Longrightarrow> pages zone = pages (zs ! i) \<Longrightarrow> same_zones zs (zs[i := zone])"
  unfolding same_zones_def by (metis list_update_id map_update)

lemma all_free_same_zones:
  "same_zones zs zs' \<Longrightarrow> length fls \<le> length zs \<Longrightarrow> all_free zs' fls = all_free zs fls"
  unfolding all_free_def zone_pages_def using same_zones_nth [of zs zs']
  by (intro sum.cong) auto

lemma zones_disjoint_same:
  "same_zones zs zs' \<Longrightarrow> m \<le> length zs \<Longrightarrow> zones_disjoint zs' m = zones_disjoint zs m"
  unfolding zones_disjoint_def zone_range_def using same_zones_nth [of zs zs'] by auto

definition lists_empty_from :: "nat \<Rightarrow> free_lists \<Rightarrow> bool" where
  "lists_empty_from k fl \<longleftrightarrow> (\<forall>pow < BUDDY_ALLOC_MAX_POW. k \<le> pow \<longrightarrow> fl ! pow = [])"

definition zones_ok :: "MemoryZone list \<Rightarrow> free_lists list \<Rightarrow> bool" where
  "zones_ok zs fls \<longleftrightarrow> length fls \<le> length zs \<and> (\<forall>i < length fls. zone_ok (zs ! i) (fls ! i))"

lemma zones_ok_update:
  "zones_ok zs fls \<Longrightarrow> same_zones zs zs' \<Longrightarrow> i < length fls \<Longrightarrow> zone_ok (zs ! i) fl \<Longrightarrow> zones_ok zs' (fls[i := fl])"
  using same_zones_nth [of zs zs'] same_zones_length [of zs zs']
  by (auto simp: zones_ok_def zone_ok_def nth_list_update)

text \<open>Enough unused nodes to split a block of any zone down to \<open>2 ^ k\<close> pages.\<close>

definition nodes_for :: "MemoryZone list \<Rightarrow> nat \<Rightarrow> nat \<Rightarrow> nat \<Rightarrow> bool" where
  "nodes_for zs m k n \<longleftrightarrow> (\<forall>i < m. pages (zs ! i) < 2 ^ (n + k + 2))"

lemma zone_alloc_step:
  assumes rep: "zones_rep d zs pool nsss frees" and fls: "fls = map (zone_lists pool) nsss"
    and ok: "zones_ok zs fls" and k: "k < 64" and i: "i < length nsss"
    and nodes: "nodes_for zs (length nsss) k (length frees) \<or> zone_alloc_pages (zs ! i) pool (2 ^ k) \<noteq> None"
  obtains r zone' pool' nss' frees' where
    "zone_alloc_pages (zs ! i) pool (2 ^ k) = Some (map_option ((+) (base (zs ! i))) r, zone', pool')"
    "l_alloc [0..<BUDDY_ALLOC_MAX_POW] (fls ! i) (2 ^ k) = (r, zone_lists pool' nss')"
    "zones_rep d (zs[i := zone']) pool' (nsss[i := nss']) frees'"
    "map (zone_lists pool') (nsss[i := nss']) = fls[i := zone_lists pool' nss']"
    "mset (all_nodes (nsss[i := nss']) frees') = mset (all_nodes nsss frees)"
    "same_zones zs (zs[i := zone'])"
proof -
  have z: "zone_rep d (zs ! i) pool (nsss ! i) frees" by (rule zones_rep_zone [OF rep i])
  have "zone_ok (zs ! i) (zone_lists pool (nsss ! i))" using ok i fls by (simp add: zones_ok_def)
  then have l: "lists_ok (pages (zs ! i)) (zone_lists pool (nsss ! i))" "base (zs ! i) + pages (zs ! i) < 2 ^ 64"
    by (simp_all add: zone_ok_def)
  have n: "pages (zs ! i) < 2 ^ (length frees + k + 2) \<or> zone_alloc_pages (zs ! i) pool (2 ^ k) \<noteq> None"
    using nodes i by (auto simp: nodes_for_def)
  obtain zone' pool' nss' frees' where s:
    "zone_alloc_pages (zs ! i) pool (2 ^ k) = Some (map_option ((+) (base (zs ! i)))
       (fst (l_alloc [0..<BUDDY_ALLOC_MAX_POW] (zone_lists pool (nsss ! i)) (2 ^ k))), zone', pool')"
    "zone_rep d zone' pool' nss' frees'"
    "zone_lists pool' nss' = snd (l_alloc [0..<BUDDY_ALLOC_MAX_POW] (zone_lists pool (nsss ! i)) (2 ^ k))"
    "zone_frame (zs ! i) pool (nsss ! i) frees zone' pool' nss' frees'"
    using zone_alloc_pages_refines [OF z l k n] .
  have len: "i < length zs" using i zones_repD(1) [OF rep] by simp
  have "same_zones zs (zs[i := zone'])"
    using s(4) by (intro same_zones_update len) (simp_all add: zone_frame_def)
  then show thesis
    using that [OF s(1) _ zones_rep_update(1) [OF rep i s(2,4)] _ zones_rep_update(3) [OF rep i s(2,4)]]
      zones_rep_update(2) [OF rep i s(2,4)] s(3) fls i by simp
qed

lemma length_concat_zone_lists: "length (concat (zone_lists pool nss)) = length (concat nss)"
  by (simp add: zone_lists_def length_concat comp_def)

lemma length_all_nodes:
  "length (all_nodes nsss frees) = length (concat (map concat (map (zone_lists pool) nsss))) + length frees"
  by (simp add: length_concat comp_def length_concat_zone_lists [unfolded length_concat])

text \<open>The outcome of \<^verbatim>\<open>alloc_pages\<close> on the free lists: a block of one of the zones is taken, or there is none.\<close>

definition alloc_outcome ::
  "nat list \<Rightarrow> MemoryZone list \<Rightarrow> nat \<Rightarrow> free_lists list \<Rightarrow> nat option \<Rightarrow> free_lists list \<Rightarrow> bool" where
  "alloc_outcome is zs k fls r fls' \<longleftrightarrow>
     (case r of
        None \<Rightarrow> fls' = fls \<and> (\<forall>i \<in> set is. lists_empty_from k (fls ! i))
      | Some p \<Rightarrow> all_free zs fls = all_free zs fls' + block k p \<and>
          (\<exists>i \<in> set is. base (zs ! i) \<le> p \<and> 2 ^ k dvd p - base (zs ! i) \<and>
             p + 2 ^ k \<le> base (zs ! i) + pages (zs ! i) \<and> \<not> lists_empty_from k (fls ! i)))"

lemma alloc_outcome_hit:
  assumes ok: "zones_ok zs fls" and i: "i < length fls"
    and l: "l_alloc [0..<BUDDY_ALLOC_MAX_POW] (fls ! i) (2 ^ k) = (Some r, fl')"
  shows "alloc_outcome (i # is) zs k fls (Some (base (zs ! i) + r)) (fls[i := fl'])"
    "zone_ok (zs ! i) fl'"
proof -
  have z: "zone_ok (zs ! i) (fls ! i)" and len: "length fls \<le> length zs" using ok i by (simp_all add: zones_ok_def)
  have s: "free_mset (fls ! i) = free_mset fl' + block k r" "lists_ok (pages (zs ! i)) fl'" "2 ^ k dvd r"
    "r + 2 ^ k \<le> pages (zs ! i)"
    using l_alloc_Some [OF _ _ l, of "pages (zs ! i)"] z by (auto simp: zone_ok_def)
  then have "all_free zs fls + zone_pages (zs ! i) fl' =
      all_free zs (fls[i := fl']) + block k (base (zs ! i) + r) + zone_pages (zs ! i) fl'"
    using all_free_update [OF i refl len, of fl'] by (simp add: zone_pages_def image_block ac_simps)
  moreover have "\<not> lists_empty_from k (fls ! i)"
    using l_alloc_Some_nonempty [OF l] by (auto simp: lists_empty_from_def)
  ultimately show "alloc_outcome (i # is) zs k fls (Some (base (zs ! i) + r)) (fls[i := fl'])"
    using s by (simp add: alloc_outcome_def)
  show "zone_ok (zs ! i) fl'" using s z by (simp add: zone_ok_def)
qed

lemma alloc_outcome_skip:
  assumes "alloc_outcome is zs' k fls r fls'" "same_zones zs zs'" "lists_empty_from k (fls ! i)"
    and "length fls \<le> length zs" "length fls' \<le> length zs" "\<forall>i \<in> set is. i < length zs"
  shows "alloc_outcome (i # is) zs k fls r fls'"
proof (cases r)
  case (Some p)
  then obtain j where "j \<in> set is" "base (zs' ! j) \<le> p" "2 ^ k dvd p - base (zs' ! j)"
    "p + 2 ^ k \<le> base (zs' ! j) + pages (zs' ! j)" "\<not> lists_empty_from k (fls ! j)"
    using assms(1) by (auto simp: alloc_outcome_def)
  moreover from this have "base (zs' ! j) = base (zs ! j) \<and> pages (zs' ! j) = pages (zs ! j)"
    using same_zones_nth [OF assms(2)] assms(6) by blast
  ultimately show ?thesis
    using assms(1,4,5) Some all_free_same_zones [OF assms(2)] by (auto simp: alloc_outcome_def)
qed (use assms in \<open>auto simp: alloc_outcome_def\<close>)

lemma alloc_zones_spec:
  assumes "zones_rep d zs pool nsss frees" "fls = map (zone_lists pool) nsss"
    and "zones_ok zs fls" "k < 64" "\<forall>i \<in> set is. i < length nsss"
    and "nodes_for zs (length nsss) k (length frees) \<or> alloc_zones is zs pool (2 ^ k) \<noteq> None"
  shows "\<exists>r zs' pool' nsss' frees' fls'.
    alloc_zones is zs pool (2 ^ k) = Some (r, zs', pool') \<and>
    zones_rep d zs' pool' nsss' frees' \<and> fls' = map (zone_lists pool') nsss' \<and>
    mset (all_nodes nsss' frees') = mset (all_nodes nsss frees) \<and> length nsss' = length nsss \<and>
    same_zones zs zs' \<and> zones_ok zs' fls' \<and> alloc_outcome is zs k fls r fls'"
  using assms
proof (induction "is" arbitrary: zs pool nsss frees)
  case Nil
  then show ?case by (auto simp: alloc_outcome_def)
next
  case (Cons i "is")
  note rep = Cons.prems(1) and fls = Cons.prems(2) and ok = Cons.prems(3) and k = Cons.prems(4)
  have i: "i < length nsss" and "is": "\<forall>i \<in> set is. i < length nsss" using Cons.prems(5) by simp_all
  then have lz: "i < length zs" and lf: "i < length fls" using zones_repD(1) [OF rep] fls by simp_all
  have nodes: "nodes_for zs (length nsss) k (length frees) \<or> zone_alloc_pages (zs ! i) pool (2 ^ k) \<noteq> None"
    using Cons.prems(6) lz by (auto simp: bind_eq_None_conv)
  obtain r zone1 pool1 nss1 frees1 where s:
    "zone_alloc_pages (zs ! i) pool (2 ^ k) = Some (map_option ((+) (base (zs ! i))) r, zone1, pool1)"
    "l_alloc [0..<BUDDY_ALLOC_MAX_POW] (fls ! i) (2 ^ k) = (r, zone_lists pool1 nss1)"
    "zones_rep d (zs[i := zone1]) pool1 (nsss[i := nss1]) frees1"
    "map (zone_lists pool1) (nsss[i := nss1]) = fls[i := zone_lists pool1 nss1]"
    "mset (all_nodes (nsss[i := nss1]) frees1) = mset (all_nodes nsss frees)"
    "same_zones zs (zs[i := zone1])"
    using zone_alloc_step [OF rep fls ok k i nodes] .
  show ?case
  proof (cases r)
    case (Some p)
    note hit = alloc_outcome_hit [OF ok lf s(2) [unfolded Some]]
    have run: "alloc_zones (i # is) zs pool (2 ^ k) = Some (Some (base (zs ! i) + p), zs[i := zone1], pool1)"
      using s(1) lz Some by simp
    have "zones_ok (zs[i := zone1]) (fls[i := zone_lists pool1 nss1])"
      by (rule zones_ok_update [OF ok s(6) lf hit(2)])
    then show ?thesis
      using run s(3-6) hit(1) [of "is"] by (intro exI conjI) (assumption | simp)+
  next
    case None
    have "length (fls ! i) = BUDDY_ALLOC_MAX_POW" using ok lf by (simp add: zones_ok_def zone_ok_def lists_ok_def)
    then have e: "zone_lists pool1 nss1 = fls ! i" "lists_empty_from k (fls ! i)"
      using l_alloc_None [OF _ s(2) [unfolded None]] by (simp_all add: lists_empty_from_def)
    then have fls1: "fls = map (zone_lists pool1) (nsss[i := nss1])" using s(4) by simp
    have "length frees1 = length frees"
      using mset_eq_length [OF s(5)] length_all_nodes [of "nsss[i := nss1]" frees1 pool1]
        length_all_nodes [of nsss frees pool] unfolding fls1 [symmetric] fls [symmetric] by linarith
    then have n: "nodes_for (zs[i := zone1]) (length (nsss[i := nss1])) k (length frees1) \<or>
        alloc_zones is (zs[i := zone1]) pool1 (2 ^ k) \<noteq> None"
      using Cons.prems(6) zones_repD(1) [OF rep] same_zones_nth [OF s(6)] s(1) lz None by (auto simp: nodes_for_def)
    have ok1: "zones_ok (zs[i := zone1]) fls"
      using zones_ok_update [OF ok s(6) lf, of "fls ! i"] ok lf by (simp add: zones_ok_def)
    have is1: "\<forall>j \<in> set is. j < length (nsss[i := nss1])" using "is" by simp
    from Cons.IH [OF s(3) fls1 ok1 k is1 n] obtain r' zs' pool' nsss' frees' fls' where IH:
      "alloc_zones is (zs[i := zone1]) pool1 (2 ^ k) = Some (r', zs', pool')"
      "zones_rep d zs' pool' nsss' frees'" "fls' = map (zone_lists pool') nsss'"
      "mset (all_nodes nsss' frees') = mset (all_nodes (nsss[i := nss1]) frees1)" "length nsss' = length nsss"
      "same_zones (zs[i := zone1]) zs'" "zones_ok zs' fls'" "alloc_outcome is (zs[i := zone1]) k fls r' fls'"
      by auto
    have "alloc_zones (i # is) zs pool (2 ^ k) = Some (r', zs', pool')"
      using s(1) lz None IH(1) by simp
    moreover have "alloc_outcome (i # is) zs k fls r' fls'"
      using IH(3,5) fls "is" zones_repD(1) [OF rep] by (intro alloc_outcome_skip [OF IH(8) s(6) e(2)]) auto
    ultimately show ?thesis
      using IH s(5) same_zones_trans [OF s(6) IH(6)] by (intro exI conjI) (assumption | simp)+
  qed
qed

section \<open>Allocating pages\<close>

definition in_zone :: "BuddyAllocator \<Rightarrow> nat \<Rightarrow> nat \<Rightarrow> bool" where
  "in_zone a k p \<longleftrightarrow> (\<exists>i < zone_num a. base (zones a ! i) \<le> p \<and> 2 ^ k dvd p - base (zones a ! i) \<and>
     p + 2 ^ k \<le> base (zones a ! i) + pages (zones a ! i))"

definition no_block :: "free_lists list \<Rightarrow> nat \<Rightarrow> bool" where
  "no_block fls k \<longleftrightarrow> (\<forall>fl \<in> set fls. lists_empty_from k fl)"

text \<open>What every operation leaves alone.\<close>

definition same_shape :: "BuddyAllocator \<Rightarrow> BuddyAllocator \<Rightarrow> bool" where
  "same_shape a a' \<longleftrightarrow> same_zones (zones a) (zones a') \<and> zone_num a' = zone_num a"

lemma same_shape_refl [simp]: "same_shape a a"
  by (simp add: same_shape_def)

lemma same_shape_trans: "same_shape a b \<Longrightarrow> same_shape b c \<Longrightarrow> same_shape a c"
  using same_zones_trans by (auto simp: same_shape_def)

text \<open>The nodes there are: the unused ones, as counted, and one per free block.\<close>

definition node_count :: "BuddyAllocator \<Rightarrow> free_lists list \<Rightarrow> nat" where
  "node_count a fls = freenode_remain (node_pool a) + length (concat (map concat fls))"

lemma node_count_eq:
  "buddy_nodes d a nsss frees fls ps \<Longrightarrow> node_count a fls = length (all_nodes nsss frees) + d"
  using length_all_nodes [of nsss frees "node_pool a"]
  by (auto simp: node_count_def buddy_nodes_def zones_rep_def pool_rep_def simp del: map_map)

lemma buddy_pages_zones_ok: "buddy_pages a fls ps \<Longrightarrow> zones_ok (zones a) fls"
  by (simp add: buddy_pages_def zones_ok_def)

lemma buddy_pages_step:
  assumes "buddy_pages a fls ps" "same_shape a a'" "zones_ok (zones a') fls'" "length fls' = length fls"
    and "ext_path (ext_pool_next a') (extended_pools a') ps'" "\<And>p. p \<in> set ps' \<Longrightarrow> p + 2 ^ EXT_POW \<le> 2 ^ 52"
    and "\<And>p. count (all_free (zones a') fls' + pool_pages ps') p \<le> 1"
    and "free a' = size (all_free (zones a') fls')"
  shows "buddy_pages a' fls' ps'"
  using assms same_zones_length [of "zones a" "zones a'"] zones_disjoint_same [of "zones a" "zones a'" "zone_num a"]
  by (auto simp: buddy_pages_def zones_ok_def same_shape_def)

lemma buddy_alloc_serve:
  assumes rep: "buddy_rep d a fls ps" and remain: "MIN_POOL_REMAIN < freenode_remain (node_pool a)"
    and nodes: "nodes_for (zones a) (zone_num a) k (freenode_remain (node_pool a) - d) \<or> buddy_alloc_pages a n \<noteq> None"
    and n: "next_power_of_two n = Some (2 ^ k)" and k: "k < 64"
  shows "\<exists>r a' fls'. buddy_alloc_pages a n = Some (r, a') \<and> buddy_rep d a' fls' ps \<and> same_shape a a' \<and>
    node_count a' fls' = node_count a fls \<and> extended_pools a' = extended_pools a \<and> ext_pool_next a' = ext_pool_next a \<and>
    (case r of
       Inl e \<Rightarrow> fls' = fls \<and> no_block fls k
     | Inr p \<Rightarrow> all_free (zones a) fls = all_free (zones a') fls' + block k p \<and> in_zone a k p \<and> \<not> no_block fls k)"
proof -
  from rep obtain nsss frees where bn: "buddy_nodes d a nsss frees fls ps" and bp: "buddy_pages a fls ps"
    by (auto simp: buddy_rep_def)
  have zr: "zones_rep d (zones a) (node_pool a) nsss frees" and fls: "fls = map (zone_lists (node_pool a)) nsss"
    and home: "\<forall>nd \<in> set (all_nodes nsss frees). node_home ps nd" using bn by (auto simp: buddy_nodes_def)
  have len: "length nsss = zone_num a" "length fls = zone_num a" "zone_num a \<le> length (zones a)"
    using bp fls by (auto simp: buddy_pages_def)
  have "freenode_remain (node_pool a) - d = length frees"
    using zones_repD(2) [OF zr] by (simp add: pool_rep_def)
  then have nf: "nodes_for (zones a) (length nsss) k (length frees) \<or>
      alloc_zones [0..<zone_num a] (zones a) (node_pool a) (2 ^ k) \<noteq> None"
    using nodes len remain n by (auto simp: buddy_alloc_pages.simps ceil_to_power_2_def bind_eq_Some_conv)
  have "\<forall>i \<in> set [0..<zone_num a]. i < length nsss" using len by simp
  from alloc_zones_spec [OF zr fls buddy_pages_zones_ok [OF bp] k this nf]
  obtain r zs' pool' nsss' frees' fls' where s:
    "alloc_zones [0..<zone_num a] (zones a) (node_pool a) (2 ^ k) = Some (r, zs', pool')"
    "zones_rep d zs' pool' nsss' frees'" "fls' = map (zone_lists pool') nsss'"
    "mset (all_nodes nsss' frees') = mset (all_nodes nsss frees)" "length nsss' = length nsss"
    "same_zones (zones a) zs'" "zones_ok zs' fls'" "alloc_outcome [0..<zone_num a] (zones a) k fls r fls'"
    by blast
  have home': "\<forall>nd \<in> set (all_nodes nsss' frees'). node_home ps nd"
    using home mset_eq_setD [OF s(4)] by simp
  have len': "length fls' = length fls" using s(3,5) len by simp
  have af: "all_free zs' fls' = all_free (zones a) fls'"
    using all_free_same_zones [OF s(6)] len len' by simp
  have old: "\<And>p. count (all_free (zones a) fls + pool_pages ps) p \<le> 1"
    and size: "free a = size (all_free (zones a) fls)"
    and ext: "ext_path (ext_pool_next a) (extended_pools a) ps" "\<And>p. p \<in> set ps \<Longrightarrow> p + 2 ^ EXT_POW \<le> 2 ^ 52"
    using bp by (auto simp: buddy_pages_def)
  show ?thesis
  proof (cases r)
    case None
    let ?a = "a\<lparr>zones := zs', node_pool := pool'\<rparr>"
    have fls': "fls' = fls" and none: "no_block fls k"
      using s(8) None len by (auto simp: alloc_outcome_def no_block_def in_set_conv_nth)
    have "buddy_alloc_pages a n = Some (Inl OutOfMemory, ?a)"
      using remain n s(1) None len by (simp add: buddy_alloc_pages.simps ceil_to_power_2_def)
    moreover have "buddy_pages ?a fls ps"
      using s(6,7) fls' af old size ext by (intro buddy_pages_step [OF bp]) (simp_all add: same_shape_def)
    moreover have bn': "buddy_nodes d ?a nsss' frees' fls ps"
      using s(2,3) fls' home' by (simp add: buddy_nodes_def)
    ultimately show ?thesis
      using none s(6) node_count_eq [OF bn] node_count_eq [OF bn'] mset_eq_length [OF s(4)] fls'
      by (intro exI [of _ "Inl OutOfMemory"] exI [of _ ?a] exI [of _ fls]) (auto simp: buddy_rep_def same_shape_def)
  next
    case (Some p)
    let ?a = "a\<lparr>zones := zs', node_pool := pool', free := free a - 2 ^ k\<rparr>"
    have taken: "all_free (zones a) fls = all_free (zones a) fls' + block k p" and zone: "in_zone a k p"
      and some: "\<not> no_block fls k"
      using s(8) Some len by (auto simp: alloc_outcome_def in_zone_def no_block_def)
    have total: "free a = size (all_free zs' fls') + 2 ^ k" using taken size af by simp
    have run: "buddy_alloc_pages a n = Some (Inr p, ?a)"
      using remain n s(1) Some len total by (simp add: buddy_alloc_pages.simps ceil_to_power_2_def)
    have "count (all_free zs' fls' + pool_pages ps) q \<le> 1" for q
      using old [of q] taken af by simp
    then have pg: "buddy_pages ?a fls' ps"
      using s(6,7) len' ext total by (intro buddy_pages_step [OF bp]) (simp_all add: same_shape_def)
    have bn': "buddy_nodes d ?a nsss' frees' fls' ps"
      using s(2,3) home' by (simp add: buddy_nodes_def)
    have "node_count ?a fls' = node_count a fls"
      using node_count_eq [OF bn] node_count_eq [OF bn'] mset_eq_length [OF s(4)] by simp
    with bn' run pg zone some taken af s(6) show ?thesis
      by (intro exI [of _ "Inr p"] exI [of _ ?a] exI [of _ fls']) (auto simp: buddy_rep_def same_shape_def)
  qed
qed

section \<open>Extended pools\<close>

lemma in_pool_pages: "p \<in># pool_pages ps \<longleftrightarrow> (\<exists>q \<in> set ps. q \<le> p \<and> p < q + 2 ^ EXT_POW)"
  by (induction ps) (auto simp: pool_pages_def)

lemma pool_pages_simps [simp]:
  "pool_pages [] = {#}" "pool_pages (q # ps) = block EXT_POW q + pool_pages ps"
  "size (pool_pages ps) = 2 ^ EXT_POW * length ps"
  by (induction ps) (auto simp: pool_pages_def)

lemma size_count_le:
  assumes "\<And>p. count M p \<le> 1" "set_mset M \<subseteq> {..<n::nat}"
  shows "size M \<le> n"
proof -
  have "M \<subseteq># mset_set {..<n}"
  proof (rule mset_subset_eqI)
    fix p show "count M p \<le> count (mset_set {..<n}) p"
      using assms(1) [of p] assms(2) by (cases "p \<in># M") (auto simp: not_in_iff)
  qed
  from size_mset_mono [OF this] show ?thesis by simp
qed

lemma buddy_nodes_bound:
  assumes bn: "buddy_nodes d a nsss frees fls ps" and bp: "buddy_pages a fls ps"
  shows "length (all_nodes nsss frees) < 2 ^ 60"
proof -
  have "count (pool_pages ps) p \<le> 1" for p
    using bp by (simp add: buddy_pages_def) (metis add_leE)
  moreover have "set_mset (pool_pages ps) \<subseteq> {..<2 ^ 52}"
    using bp by (fastforce simp: buddy_pages_def in_pool_pages)
  ultimately have ps: "2 ^ EXT_POW * length ps \<le> 2 ^ 52" using size_count_le [of "pool_pages ps"] by simp
  define home where "home = PoolNode ` {..<NODE_COMPATIBILITY} \<union>
    (\<lambda>(p, i). ExtNode p i) ` (set ps \<times> {..<EXT_NODE_COMPATIBILITY})"
  have "set (all_nodes nsss frees) \<subseteq> home"
  proof
    fix nd assume "nd \<in> set (all_nodes nsss frees)"
    then have "node_home ps nd" using bn by (simp add: buddy_nodes_def)
    then show "nd \<in> home" by (cases nd) (auto simp: home_def)
  qed
  moreover have "finite home" by (simp add: home_def)
  moreover have "card (set (all_nodes nsss frees)) = length (all_nodes nsss frees)"
    using bn zones_repD(3) unfolding buddy_nodes_def by (intro distinct_card) blast
  ultimately have "length (all_nodes nsss frees) \<le> card home" by (metis card_mono)
  also have "\<dots> \<le> NODE_COMPATIBILITY + length ps * EXT_NODE_COMPATIBILITY"
  proof -
    have "card (PoolNode ` {..<NODE_COMPATIBILITY}) \<le> NODE_COMPATIBILITY"
      using card_image_le [of "{..<NODE_COMPATIBILITY}" PoolNode] by simp
    moreover have "card ((\<lambda>(p, i). ExtNode p i) ` (set ps \<times> {..<EXT_NODE_COMPATIBILITY})) \<le>
        card (set ps) * EXT_NODE_COMPATIBILITY"
      using card_image_le [of "set ps \<times> {..<EXT_NODE_COMPATIBILITY}" "\<lambda>(p, i). ExtNode p i"]
      by (simp add: card_cartesian_product)
    moreover have "card (set ps) * EXT_NODE_COMPATIBILITY \<le> length ps * EXT_NODE_COMPATIBILITY"
      by (intro mult_le_mono1 card_length)
    ultimately show ?thesis unfolding home_def by (intro order_trans [OF card_Un_le]) linarith
  qed
  also have "\<dots> < 2 ^ 60"
    using ps by (simp add: NODE_COMPATIBILITY_def EXT_NODE_COMPATIBILITY_def EXT_POW_def)
  finally show ?thesis .
qed

lemma node_path_join:
  assumes "node_path m p (xs @ [x])" "node_path m q ys" "distinct (xs @ [x])" "x \<notin> set ys"
  shows "node_path (write_next m x q) p (xs @ x # ys)"
  using assms by (induction xs arbitrary: p) auto

text \<open>Raising the counter, and attaching the pool, take \<open>freenode_remain\<close> from its value to the inflated one and back.\<close>

lemma buddy_rep_raise:
  assumes rep: "buddy_rep 0 a fls ps"
  shows "buddy_rep EXT_NODE_COMPATIBILITY
    (a\<lparr>node_pool := (node_pool a)\<lparr>freenode_remain := freenode_remain (node_pool a) + EXT_NODE_COMPATIBILITY\<rparr>\<rparr>) fls ps"
proof -
  from rep obtain nsss frees where bn: "buddy_nodes 0 a nsss frees fls ps" and bp: "buddy_pages a fls ps"
    by (auto simp: buddy_rep_def)
  have "length (all_nodes nsss frees) + EXT_NODE_COMPATIBILITY < 2 ^ 64"
    using buddy_nodes_bound [OF bn bp] by (simp add: EXT_NODE_COMPATIBILITY_def)
  then have "buddy_nodes EXT_NODE_COMPATIBILITY
      (a\<lparr>node_pool := (node_pool a)\<lparr>freenode_remain := freenode_remain (node_pool a) + EXT_NODE_COMPATIBILITY\<rparr>\<rparr>)
      nsss frees fls ps"
    using bn by (simp add: buddy_nodes_def zones_rep_def pool_rep_def zone_lists_def [abs_def])
  then show ?thesis using bp by (auto simp: buddy_rep_def buddy_pages_def)
qed

lemma attach_extended_pool_rep:
  assumes rep: "buddy_rep EXT_NODE_COMPATIBILITY a fls ps"
    and q: "q + 2 ^ EXT_POW \<le> 2 ^ 52"
    and count: "\<And>p. count (all_free (zones a) fls + pool_pages (q # ps)) p \<le> 1"
  shows "buddy_rep 0 (attach_extended_pool a q) fls (q # ps)"
proof -
  from rep obtain nsss frees where bn: "buddy_nodes EXT_NODE_COMPATIBILITY a nsss frees fls ps"
    and bp: "buddy_pages a fls ps" by (auto simp: buddy_rep_def)
  have zr: "zones_rep EXT_NODE_COMPATIBILITY (zones a) (node_pool a) nsss frees"
    and fls: "map (zone_lists (node_pool a)) nsss = fls"
    and home: "\<And>nd. nd \<in> set (all_nodes nsss frees) \<Longrightarrow> node_home ps nd" using bn by (auto simp: buddy_nodes_def)
  have qps: "q \<notin> set ps"
  proof
    assume "q \<in> set ps"
    then have "q \<in># pool_pages ps" by (auto simp: in_pool_pages)
    moreover have "q \<in># block EXT_POW q" by simp
    ultimately have "0 < count (pool_pages ps) q" "0 < count (block EXT_POW q) q"
      by (simp_all only: count_greater_zero_iff)
    with count [of q] show False by simp
  qed
  define n where "n = EXT_NODE_COMPATIBILITY"
  have n: "0 < n" "[0..<n] = [0..<n - 1] @ [n - 1]" by (simp_all add: n_def EXT_NODE_COMPATIBILITY_def flip: upt_Suc_append)
  define news where "news = map (ExtNode q) [0..<n]"
  define pool' where "pool' = node_pool (attach_extended_pool a q)"
  have fresh: "ExtNode q i \<notin> set (all_nodes nsss frees)" for i using home [of "ExtNode q i"] qps by auto
  then have disj: "set news \<inter> set (all_nodes nsss frees) = {}" by (auto simp: news_def)
  let ?m = "ExtendedFreeNodePool_init q (free_nodes (node_pool a))"
  have store: "free_nodes pool' = write_next ?m (ExtNode q (n - 1)) (free_start (node_pool a))"
    "free_start pool' = Some (ExtNode q 0)" "freenode_remain pool' = freenode_remain (node_pool a)"
    by (simp_all add: pool'_def attach_extended_pool_def Let_def n_def)
  have m: "?m nd = free_nodes (node_pool a) nd" if "nd \<in> set (all_nodes nsss frees)" for nd
    unfolding ExtendedFreeNodePool_init_def using fresh that
    by (intro link_nodes_other) (auto simp: EXT_NODE_COMPATIBILITY_def)
  have same: "free_nodes pool' nd = free_nodes (node_pool a) nd" if "nd \<in> set (all_nodes nsss frees)" for nd
    using m [OF that] fresh that unfolding store by (metis write_next_other(2))
  have "node_path ?m (free_start (node_pool a)) frees"
    using zones_repD(2) [OF zr] m node_path_cong [of frees ?m "free_nodes (node_pool a)"]
    by (simp add: pool_rep_def)
  moreover have "node_path ?m (Some (ExtNode q 0)) (map (ExtNode q) [0..<n - 1] @ [ExtNode q (n - 1)])"
    using link_nodes_path_from [of "ExtNode q" 0 n "free_nodes (node_pool a)"] n
    by (simp add: ExtendedFreeNodePool_init_def n_def)
  moreover have "distinct (map (ExtNode q) [0..<n - 1] @ [ExtNode q (n - 1)])"
    by (auto simp: distinct_map inj_on_def)
  ultimately have path: "node_path (free_nodes pool') (free_start pool') (news @ frees)"
    using node_path_join [of ?m "Some (ExtNode q 0)" "map (ExtNode q) [0..<n - 1]"] fresh n(2)
    unfolding store news_def by simp
  have dn: "distinct news" by (simp add: news_def distinct_map inj_on_def)
  have dist: "distinct (all_nodes nsss (news @ frees))"
    using zones_repD(3) [OF zr] disj dn unfolding distinct_append set_append by blast
  have len: "length (all_nodes nsss (news @ frees)) = length (all_nodes nsss frees) + n" by (simp add: news_def)
  have prep: "pool_rep 0 pool' (news @ frees)"
    using path dist zones_repD(2) [OF zr] store(3) by (simp add: pool_rep_def news_def n_def)
  have zpath: "node_path (free_nodes pool') (pows (zones a ! i) ! k) (nsss ! i ! k)"
    if "i < length nsss" "k < BUDDY_ALLOC_MAX_POW" for i k
  proof -
    have old: "node_path (free_nodes (node_pool a)) (pows (zones a ! i) ! k) (nsss ! i ! k)" "k < length (nsss ! i)"
      using zr that by (simp_all add: zones_rep_def)
    have "set (nsss ! i ! k) \<subseteq> set (all_nodes nsss frees)"
      using nth_mem [OF that(1)] nth_mem [OF old(2)] by auto
    then show ?thesis
      using old(1) same node_path_cong [of "nsss ! i ! k" "free_nodes pool'"] by (metis subsetD)
  qed
  have "zones_rep 0 (zones a) pool' nsss (news @ frees)"
    using zr prep zpath dist len zones_repD(4) [OF zr] unfolding zones_rep_def by (simp add: n_def)
  moreover have "map (zone_lists pool') nsss = fls"
    unfolding fls [symmetric] zone_lists_def
    by (intro map_cong refl arg_cong [of _ _ page_number] same) auto
  moreover have "node_home (q # ps) nd" if nd: "nd \<in> set (all_nodes nsss (news @ frees))" for nd
  proof (cases "nd \<in> set news")
    case False
    with nd have "node_home ps nd" by (intro home) auto
    then show ?thesis by (cases nd) auto
  qed (auto simp: news_def n_def)
  ultimately have "buddy_nodes 0 (attach_extended_pool a q) nsss (news @ frees) fls (q # ps)"
    by (simp add: buddy_nodes_def attach_extended_pool_def Let_def pool'_def)
  moreover have "ext_path ((ext_pool_next a)(q := p)) h ps" if "ext_path (ext_pool_next a) h ps" for p h
    using that qps by (induction ps arbitrary: h) auto
  then have "buddy_pages (attach_extended_pool a q) fls (q # ps)"
    using bp q count by (simp add: buddy_pages_def attach_extended_pool_def Let_def)
  ultimately show ?thesis by (auto simp: buddy_rep_def)
qed

lemma ext_pool_pages:
  "ceil_to_power_2 (div_ceil size_of_ExtendedFreeNodePool PAGE_SIZE) = Some (2 ^ EXT_POW)"
  by (simp add: ceil_to_power_2_def div_ceil_def size_of_ExtendedFreeNodePool_def EXT_NODE_COMPATIBILITY_def
      PAGE_SIZE_def PAGE_BITS_def next_power_of_two_def EXT_POW_def bit_length_pos)

lemma in_zone_bound: "buddy_rep d a fls ps \<Longrightarrow> in_zone a k p \<Longrightarrow> p + 2 ^ k \<le> 2 ^ 52"
  by (fastforce simp: buddy_rep_def buddy_pages_def in_zone_def zone_ok_def)

lemma new_extended_pool_spec:
  assumes rep: "buddy_rep 0 a fls ps"
    and nodes: "nodes_for (zones a) (zone_num a) EXT_POW (freenode_remain (node_pool a)) \<or> new_extended_pool a \<noteq> None"
  shows "\<exists>r a' fls'. new_extended_pool a = Some (r, a') \<and> same_shape a a' \<and>
    (case r of
       Inl e \<Rightarrow> buddy_rep EXT_NODE_COMPATIBILITY a' fls' ps \<and> fls' = fls \<and> no_block fls EXT_POW
     | Inr _ \<Rightarrow> \<not> no_block fls EXT_POW \<and> EXT_NODE_COMPATIBILITY \<le> freenode_remain (node_pool a') \<and>
         (\<exists>q. buddy_rep 0 a' fls' (q # ps) \<and> all_free (zones a) fls = all_free (zones a') fls' + block EXT_POW q))"
proof -
  let ?a = "a\<lparr>node_pool := (node_pool a)\<lparr>freenode_remain := freenode_remain (node_pool a) + EXT_NODE_COMPATIBILITY\<rparr>\<rparr>"
  note raised = buddy_rep_raise [OF rep]
  from raised have "freenode_remain (node_pool a) + EXT_NODE_COMPATIBILITY < 2 ^ 64"
    by (auto simp: buddy_rep_def buddy_nodes_def zones_rep_def pool_rep_def)
  then have add: "usize_add (freenode_remain (node_pool a)) EXT_NODE_COMPATIBILITY =
    Some (freenode_remain (node_pool a) + EXT_NODE_COMPATIBILITY)" by simp
  have remain: "MIN_POOL_REMAIN < freenode_remain (node_pool ?a)"
    by (simp add: MIN_POOL_REMAIN_def MAX_POW_36 EXT_NODE_COMPATIBILITY_def)
  have nf: "nodes_for (zones ?a) (zone_num ?a) EXT_POW (freenode_remain (node_pool ?a) - EXT_NODE_COMPATIBILITY) \<or>
      buddy_alloc_pages ?a (2 ^ EXT_POW) \<noteq> None"
    using nodes add ext_pool_pages by (auto simp: new_extended_pool.simps [of a] bind_eq_Some_conv)
  have k: "EXT_POW < 64" by (simp add: EXT_POW_def)
  note serve = buddy_alloc_serve [OF raised remain nf next_power_of_two_power [OF k] k]
  from serve obtain r a1 fls1 where s: "buddy_alloc_pages ?a (2 ^ EXT_POW) = Some (r, a1)"
    "buddy_rep EXT_NODE_COMPATIBILITY a1 fls1 ps" "same_shape ?a a1"
    "case r of Inl e \<Rightarrow> fls1 = fls \<and> no_block fls EXT_POW
     | Inr p \<Rightarrow> all_free (zones ?a) fls = all_free (zones a1) fls1 + block EXT_POW p \<and> in_zone ?a EXT_POW p \<and>
         \<not> no_block fls EXT_POW"
    by blast
  have shape: "same_shape a a1" using s(3) by (simp add: same_shape_def)
  show ?thesis
  proof (cases r)
    case (Inl e)
    then have "new_extended_pool a = Some (Inl e, a1)"
      using add ext_pool_pages s(1) by (simp add: new_extended_pool.simps)
    with s Inl shape show ?thesis by auto
  next
    case (Inr q)
    with s(4) have taken: "all_free (zones a) fls = all_free (zones a1) fls1 + block EXT_POW q"
      and some: "\<not> no_block fls EXT_POW" by simp_all
    have q: "q + 2 ^ EXT_POW \<le> 2 ^ 52" using in_zone_bound [OF raised] s(4) Inr by simp
    then have "q * PAGE_SIZE < 2 ^ 64" by (simp add: PAGE_SIZE_def PAGE_BITS_def EXT_POW_def)
    then have run: "new_extended_pool a = Some (Inr (), attach_extended_pool a1 q)"
      using add ext_pool_pages s(1) Inr by (simp add: new_extended_pool.simps usize_mul_def)
    have "count (all_free (zones a1) fls1 + pool_pages (q # ps)) p \<le> 1" for p
    proof -
      have "count (all_free (zones a) fls + pool_pages ps) p \<le> 1"
        using rep unfolding buddy_rep_def buddy_pages_def by blast
      then show ?thesis using taken by (simp add: ac_simps)
    qed
    then have "buddy_rep 0 (attach_extended_pool a1 q) fls1 (q # ps)"
      by (rule attach_extended_pool_rep [OF s(2) q])
    moreover have "zones (attach_extended_pool a1 q) = zones a1" "zone_num (attach_extended_pool a1 q) = zone_num a1"
      "freenode_remain (node_pool (attach_extended_pool a1 q)) = freenode_remain (node_pool a1)"
      by (simp_all add: attach_extended_pool_def Let_def)
    moreover have "EXT_NODE_COMPATIBILITY \<le> freenode_remain (node_pool a1)"
      using s(2) by (auto simp: buddy_rep_def buddy_nodes_def zones_rep_def pool_rep_def)
    ultimately show ?thesis
      using run taken some shape by (intro exI [of _ "Inr ()"] exI [of _ "attach_extended_pool a1 q"] exI [of _ fls1])
        (auto simp: same_shape_def)
  qed
qed

section \<open>Freeing pages\<close>

lemma in_all_free_bound: "zones_ok zs fls \<Longrightarrow> p \<in># all_free zs fls \<Longrightarrow> p < 2 ^ 52"
  by (fastforce simp: all_free_def zone_pages_def set_mset_sum zones_ok_def zone_ok_def dest: in_free_mset_bound)

lemma buddy_pages_size: "buddy_pages a fls ps \<Longrightarrow> size (all_free (zones a) fls) \<le> 2 ^ 52"
proof (rule size_count_le)
  assume bp: "buddy_pages a fls ps"
  then show "count (all_free (zones a) fls) p \<le> 1" for p by (simp add: buddy_pages_def) (metis add_leE)
  show "set_mset (all_free (zones a) fls) \<subseteq> {..<2 ^ 52}"
    using in_all_free_bound [OF buddy_pages_zones_ok [OF bp]] by auto
qed

lemma zones_disjointD:
  "zones_disjoint zs m \<Longrightarrow> i < m \<Longrightarrow> j < m \<Longrightarrow> i \<noteq> j \<Longrightarrow> p \<in> zone_range (zs ! i) \<Longrightarrow> p \<notin> zone_range (zs ! j)"
  unfolding zones_disjoint_def by blast

lemma free_zones_skip:
  assumes "\<forall>i \<in> set is. i < length zs \<and> p \<notin> zone_range (zs ! i) \<and> base (zs ! i) + pages (zs ! i) < 2 ^ 64"
  shows "free_zones (is @ js) zs pool p n = free_zones js zs pool p n"
  using assms by (induction "is") (auto simp: zone_range_def)

lemma buddy_free_hit:
  assumes rep: "buddy_rep d a fls ps" and i: "i < zone_num a" and n: "next_power_of_two n = Some (2 ^ k)"
    and p: "p = base (zones a ! i) + rel" and rel: "2 ^ k dvd rel" "rel + 2 ^ k \<le> pages (zones a ! i)"
    and node: "d < freenode_remain (node_pool a)"
    and fresh: "\<And>q. count (all_free (zones a) fls + pool_pages ps + block k p) q \<le> 1"
    and clean: "\<not> misled (fls ! i) k rel"
  shows "\<exists>a'. buddy_free_pages a p n = Some a' \<and> same_shape a a' \<and> extended_pools a' = extended_pools a \<and>
    (\<exists>fls'. buddy_rep d a' fls' ps \<and> all_free (zones a') fls' = all_free (zones a) fls + block k p)"
proof -
  from rep obtain nsss frees where bn: "buddy_nodes d a nsss frees fls ps" and bp: "buddy_pages a fls ps"
    by (auto simp: buddy_rep_def)
  have zr: "zones_rep d (zones a) (node_pool a) nsss frees" and fls: "fls = map (zone_lists (node_pool a)) nsss"
    and home: "\<forall>nd \<in> set (all_nodes nsss frees). node_home ps nd" using bn by (auto simp: buddy_nodes_def)
  have len: "length nsss = zone_num a" "length fls = zone_num a" "zone_num a \<le> length (zones a)"
    using bp fls by (auto simp: buddy_pages_def)
  have lens: "i < length nsss" "i < length fls" "i < length (zones a)" using i len by auto
  have ok: "zone_ok (zones a ! j) (fls ! j)" if "j < zone_num a" for j using bp that by (simp add: buddy_pages_def)
  have oki: "lists_ok (pages (zones a ! i)) (fls ! i)" "pages (zones a ! i) < 2 ^ BUDDY_ALLOC_MAX_POW"
    using ok [OF i] by (simp_all add: zone_ok_def)
  have flsi: "fls ! i = zone_lists (node_pool a) (nsss ! i)" using fls lens(1) by simp
  have "frees \<noteq> []" using node zones_repD(2) [OF zr] by (auto simp: pool_rep_def)
  then obtain zone' pool' nss' frees' where z:
    "zone_free_pages (zones a ! i) (node_pool a) p (2 ^ k) = Some (zone', pool')"
    "zone_rep d zone' pool' nss' frees'" "zone_lists pool' nss' = l_free (fls ! i) k rel"
    "zone_frame (zones a ! i) (node_pool a) (nsss ! i) frees zone' pool' nss' frees'"
    using zone_free_pages_refines [OF zones_rep_zone [OF zr lens(1)] oki(1) [unfolded flsi] oki(2) _ rel(2)]
    unfolding p flsi by metis
  note up = zones_rep_update [OF zr lens(1) z(2,4)]
  define zs where "zs = (zones a)[i := zone']"
  define fls' where "fls' = fls[i := l_free (fls ! i) k rel]"
  have same: "same_zones (zones a) zs"
    unfolding zs_def using z(4) by (intro same_zones_update lens) (simp_all add: zone_frame_def)
  note fr = l_free_spec [OF oki rel clean]
  have zok: "zones_ok zs fls'"
    unfolding fls'_def using fr ok [OF i]
    by (intro zones_ok_update [OF buddy_pages_zones_ok [OF bp] same lens(2)]) (simp add: zone_ok_def)
  have "all_free zs fls' + zone_pages (zones a ! i) (fls ! i) =
      all_free (zones a) fls + zone_pages (zones a ! i) (l_free (fls ! i) k rel)"
    unfolding fls'_def using same len by (intro all_free_update lens(2)) (simp_all add: same_zones_def)
  then have af: "all_free zs fls' = all_free (zones a) fls + block k p"
    using fr by (simp add: zone_pages_def image_block p ac_simps)
  have pin: "p \<in> zone_range (zones a ! i)" using rel(2) zero_less_power [of "2::nat" k]
    unfolding p zone_range_def atLeastLessThan_iff by linarith
  have bound: "base (zones a ! j) + pages (zones a ! j) < 2 ^ 64" if "j < zone_num a" for j
    using ok [OF that] by (simp add: zone_ok_def)
  have "p \<notin> zone_range (zones a ! j)" if "j < i" for j
    using zones_disjointD [OF _ i, of "zones a" j] pin bp that i by (auto simp: buddy_pages_def)
  then have "free_zones ([0..<i] @ i # [Suc i..<zone_num a]) (zones a) (node_pool a) p (2 ^ k) =
      free_zones (i # [Suc i..<zone_num a]) (zones a) (node_pool a) p (2 ^ k)"
    using i len bound by (intro free_zones_skip) auto
  moreover have "[0..<zone_num a] = [0..<i] @ i # [Suc i..<zone_num a]"
    using i by (metis le0 less_imp_le upt_add_eq_append upt_conv_Cons le_add_diff_inverse)
  moreover have "free_zones (i # [Suc i..<zone_num a]) (zones a) (node_pool a) p (2 ^ k) = Some (True, zs, pool')"
    using pin bound [OF i] lens(3) z(1) by (simp add: zone_range_def zs_def)
  ultimately have fz: "free_zones [0..<zone_num a] (zones a) (node_pool a) p (2 ^ k) = Some (True, zs, pool')"
    by simp
  let ?a = "a\<lparr>zones := zs, node_pool := pool', free := free a + 2 ^ k\<rparr>"
  have total: "free a + 2 ^ k = size (all_free zs fls')" using af bp by (simp add: buddy_pages_def)
  have le1: "count (all_free zs fls' + pool_pages ps) q \<le> 1" for q using fresh [of q] af by (simp add: ac_simps)
  have pg: "buddy_pages ?a fls' ps"
    using bp same zok total le1 by (intro buddy_pages_step [OF bp]) (auto simp: same_shape_def fls'_def buddy_pages_def)
  have "free a + 2 ^ k < 2 ^ 64" using buddy_pages_size [OF pg] total by simp
  then have "buddy_free_pages a p n = Some ?a"
    using n fz len by (simp add: buddy_free_pages_def ceil_to_power_2_def)
  moreover have "buddy_nodes d ?a (nsss[i := nss']) frees' fls' ps"
    using up(1,2) home mset_eq_setD [OF up(3)] z(3) fls by (simp add: buddy_nodes_def zs_def fls'_def)
  ultimately show ?thesis
    using pg af same by (intro exI [of _ ?a]) (auto simp: buddy_rep_def same_shape_def)
qed

section \<open>Setting the allocator up\<close>

lemma buddy_init_rep: "buddy_rep 0 (buddy_init BuddyAllocator_default) [] []"
proof -
  let ?a = "buddy_init BuddyAllocator_default"
  have "zones_rep 0 (zones ?a) (node_pool ?a) [] (map PoolNode [0..<NODE_COMPATIBILITY])"
    using pool_rep_init [of FreeNodePool_default]
    by (simp add: zones_rep_def buddy_init_def BuddyAllocator_default_def distinct_map inj_on_def NODE_COMPATIBILITY_def)
  then have "buddy_nodes 0 ?a [] (map PoolNode [0..<NODE_COMPATIBILITY]) [] []"
    by (auto simp: buddy_nodes_def)
  moreover have "buddy_pages ?a [] []"
    by (simp add: buddy_pages_def buddy_init_def BuddyAllocator_default_def zones_disjoint_def all_free_def)
  ultimately show ?thesis by (auto simp: buddy_rep_def)
qed

lemma zones_disjoint_add:
  assumes "zones_disjoint zs m" "m < length zs"
    and "\<And>i. i < m \<Longrightarrow> zone_range (zs ! i) \<inter> zone_range zone = {}"
  shows "zones_disjoint (zs[m := zone]) (Suc m)"
  using assms unfolding zones_disjoint_def by (auto simp: less_Suc_eq nth_list_update)

lemma zones_rep_snoc:
  assumes rep: "zones_rep d zs pool nsss frees" and m: "length nsss < length zs"
    and len: "length (pows (zs ! length nsss)) = BUDDY_ALLOC_MAX_POW"
    and empty: "\<And>k. k < BUDDY_ALLOC_MAX_POW \<Longrightarrow> pows (zs ! length nsss) ! k = None"
  shows "zones_rep d zs pool (nsss @ [replicate BUDDY_ALLOC_MAX_POW []]) frees"
  using rep m len empty unfolding zones_rep_def by (auto simp: less_Suc_eq nth_append)

lemma zones_rep_fresh_zone:
  "zones_rep d zs pool nsss frees \<Longrightarrow> zones_rep d (zs[length nsss := zone]) pool nsss frees"
  by (auto simp: zones_rep_def)

lemma add_zone_rep:
  assumes rep: "buddy_rep d a fls ps" and m: "zone_num a < MEM_ZONES"
    and n: "n < 2 ^ BUDDY_ALLOC_MAX_POW" "b + n < 2 ^ 52"
    and node: "bit_length n + d \<le> freenode_remain (node_pool a)"
    and apart: "\<And>i. i < zone_num a \<Longrightarrow> zone_range (zones a ! i) \<inter> {b..<b + n} = {}"
    and pools: "set_mset (pool_pages ps) \<inter> {b..<b + n} = {}"
  shows "\<exists>a' fl. add_zone a b n = Some a' \<and> buddy_rep d a' (fls @ [fl]) ps \<and> zone_num a' = Suc (zone_num a) \<and>
    all_free (zones a') (fls @ [fl]) = all_free (zones a) fls + mset [b..<b + n]"
proof -
  from rep obtain nsss frees where bn: "buddy_nodes d a nsss frees fls ps" and bp: "buddy_pages a fls ps"
    by (auto simp: buddy_rep_def)
  have zr: "zones_rep d (zones a) (node_pool a) nsss frees" and fls: "fls = map (zone_lists (node_pool a)) nsss"
    and home: "\<forall>nd \<in> set (all_nodes nsss frees). node_home ps nd" using bn by (auto simp: buddy_nodes_def)
  have len: "length nsss = zone_num a" "length fls = zone_num a" "zone_num a < length (zones a)"
    using bp fls m by (auto simp: buddy_pages_def)
  define e where "e = replicate BUDDY_ALLOC_MAX_POW ([] :: node_ptr list)"
  define zone where "zone = \<lparr>base = b, pages = n, pows = replicate BUDDY_ALLOC_MAX_POW (None :: node_ptr option)\<rparr>"
  define zs where "zs = (zones a)[zone_num a := zone]"
  have zrn: "zones_rep d zs (node_pool a) (nsss @ [e]) frees"
    unfolding e_def using zones_rep_fresh_zone [OF zr, of zone] len
    by (intro zones_rep_snoc) (simp_all add: zs_def zone_def)
  have im: "zone_num a < length (nsss @ [e])" and nth: "(nsss @ [e]) ! zone_num a = e" "zs ! zone_num a = zone"
    using len by (auto simp: nth_append zs_def)
  have z0: "zone_rep d zone (node_pool a) e frees" using zones_rep_zone [OF zrn im] nth by simp
  have "bit_length n \<le> length frees" using node zones_repD(2) [OF zr] by (simp add: pool_rep_def)
  with zone_fill_refines [OF z0 _ n(1), of 0] n(2) obtain zone' pool' nss' frees' where f:
    "zone_fill zone (node_pool a) n 0 = Some (zone', pool')" "zone_rep d zone' pool' nss' frees'"
    "zone_lists pool' nss' = l_fill (zone_lists (node_pool a) e) n 0"
    "zone_frame zone (node_pool a) e frees zone' pool' nss' frees'" by auto
  have fr: "zone_frame (zs ! zone_num a) (node_pool a) ((nsss @ [e]) ! zone_num a) frees zone' pool' nss' frees'"
    using f(4) nth by simp
  note up = zones_rep_update [OF zrn im f(2) fr]
  define fl where "fl = zone_lists pool' nss'"
  have ze: "zone_lists (node_pool a) e = replicate BUDDY_ALLOC_MAX_POW []" by (simp add: zone_lists_def e_def)
  have "lists_ok n (replicate BUDDY_ALLOC_MAX_POW [])" by (simp add: lists_ok_def)
  from l_fill_spec [OF this _ _ n(1), of 0] have flok: "lists_ok n fl" and flm: "free_mset fl = mset [0..<n]"
    using f(3) ze by (simp_all add: fl_def)
  let ?a = "a\<lparr>node_pool := pool', zones := (zones a)[zone_num a := zone'], zone_num := Suc (zone_num a), free := free a + n\<rparr>"
  have lists: "map (zone_lists pool') (nsss @ [nss']) = fls @ [fl]"
    using up(2) len fls by (simp add: list_update_append fl_def)
  have geo: "base zone' = b" "pages zone' = n" using f(4) by (simp_all add: zone_frame_def zone_def)
  have "map ((+) b) [0..<n] = [b..<b + n]" by (rule nth_equalityI) auto
  then have zp: "zone_pages zone' fl = mset [b..<b + n]"
    unfolding zone_pages_def flm geo by (metis mset_map)
  have "all_free (zones ?a) (fls @ [fl]) = (\<Sum>i<length fls. zone_pages (zones a ! i) (fls ! i)) + zone_pages zone' fl"
    using len by (simp add: all_free_def nth_append)
  then have af: "all_free (zones ?a) (fls @ [fl]) = all_free (zones a) fls + mset [b..<b + n]"
    using zp by (simp add: all_free_def)
  have total: "free a + n = size (all_free (zones ?a) (fls @ [fl]))" using af bp by (simp add: buddy_pages_def)
  have out: "q \<notin># all_free (zones a) fls" if "q \<in> {b..<b + n}" for q
  proof
    assume "q \<in># all_free (zones a) fls"
    then obtain i where "i < zone_num a" "q \<in># zone_pages (zones a ! i) (fls ! i)"
      using len by (auto simp: all_free_def set_mset_sum)
    then have "q \<in> zone_range (zones a ! i)"
      using bp in_free_mset_bound by (fastforce simp: buddy_pages_def zone_ok_def zone_pages_def zone_range_def)
    with apart [OF \<open>i < zone_num a\<close>] that show False by blast
  qed
  have cnt: "count (all_free (zones ?a) (fls @ [fl]) + pool_pages ps) q \<le> 1" for q
  proof (cases "q \<in> {b..<b + n}")
    case True
    then have "q \<notin># all_free (zones a) fls" "q \<notin># pool_pages ps" using out pools by auto
    with True show ?thesis unfolding af by (simp add: not_in_iff distinct_count_atmost_1 [THEN iffD1])
  next
    case False
    then have "count (mset [b..<b + n]) q = 0" by (auto simp: count_mset_0_iff)
    then show ?thesis using bp unfolding af by (simp add: buddy_pages_def)
  qed
  have zok: "zone_ok zone' fl" using flok n geo by (simp add: zone_ok_def)
  have "zones_disjoint (zones ?a) (zone_num ?a)"
    using bp apart len geo by (simp add: buddy_pages_def zones_disjoint_add zone_range_def)
  then have pg: "buddy_pages ?a (fls @ [fl]) ps"
    using bp m zok cnt total len by (auto simp: buddy_pages_def less_Suc_eq nth_append)
  have "buddy_nodes d ?a (nsss @ [nss']) frees' (fls @ [fl]) ps"
    using up(1,3) home mset_eq_setD [OF up(3)] lists len zs_def
    by (auto simp: buddy_nodes_def list_update_append e_def)
  moreover have "add_zone a b n = Some ?a"
    using f(1) len m total buddy_pages_size [OF pg]
    by (simp add: add_zone_def MemoryZone_new_def zone_def MEM_ZONES_def)
  ultimately show ?thesis using pg af by (intro exI [of _ ?a] exI [of _ fl]) (auto simp: buddy_rep_def)
qed

end
