(* ===== verification/Buddy_Correctness.thy ===== *)
theory Buddy_Correctness
  imports Buddy_Allocator
begin

text \<open>
  What the buddy allocator of \<^verbatim>\<open>src/src/page/buddy_allocator.rs\<close> promises, on every state its invariant
  \<open>buddy_rep\<close> describes: initialisation and \<^verbatim>\<open>add_zone\<close> establish it, \<^verbatim>\<open>alloc_pages\<close> returns an aligned block
  of free pages and takes exactly those away, reports \<^verbatim>\<open>OutOfMemory\<close> only when no zone has a block that is
  large enough, and grows its node pool when it runs low; \<^verbatim>\<open>free_pages\<close> gives exactly the freed pages back
  unless its merge loop takes a block of another size for the partner, which \<open>buddy_free_misled\<close> shows to happen.
\<close>

section \<open>A booted allocator\<close>

lemma buddy_boot:
  assumes "n < 2 ^ BUDDY_ALLOC_MAX_POW" "b + n < 2 ^ 52"
  shows "\<exists>a fl. add_zone (buddy_init BuddyAllocator_default) b n = Some a \<and> buddy_rep 0 a [fl] [] \<and>
    zone_num a = 1 \<and> all_free (zones a) [fl] = mset [b..<b + n]"
proof -
  let ?a = "buddy_init BuddyAllocator_default"
  have "bit_length n \<le> BUDDY_ALLOC_MAX_POW" using assms(1) by (simp add: bit_length_le_iff)
  then have "bit_length n + 0 \<le> freenode_remain (node_pool ?a)"
    by (simp add: MAX_POW_36 buddy_init_def FreeNodePool_init_def NODE_COMPATIBILITY_def)
  moreover have "zone_num ?a = 0" by (simp add: buddy_init_def BuddyAllocator_default_def)
  ultimately show ?thesis
    using add_zone_rep [OF buddy_init_rep _ assms] by (simp add: MEM_ZONES_def all_free_def)
qed

text \<open>C6: \<^verbatim>\<open>add_zone(b, n)\<close> on a consistent allocator with a zone slot and nodes left, for a range
  of pages apart from all zones, registers the zone and makes exactly its \<open>n\<close> pages free, cut into blocks that are
  aligned to their sizes relative to \<open>b\<close>. Starting from \<^verbatim>\<open>init\<close> this sets the allocator up.\<close>

theorem buddy_add_zone_correct:
  assumes "buddy_rep d a fls ps" "zone_num a < MEM_ZONES"
    and "n < 2 ^ BUDDY_ALLOC_MAX_POW" "b + n < 2 ^ 52"
    and "bit_length n + d \<le> freenode_remain (node_pool a)"
    and "\<And>i. i < zone_num a \<Longrightarrow> zone_range (zones a ! i) \<inter> {b..<b + n} = {}"
    and "set_mset (pool_pages ps) \<inter> {b..<b + n} = {}"
  shows "\<exists>a' fl. add_zone a b n = Some a' \<and> buddy_rep d a' (fls @ [fl]) ps \<and> zone_num a' = Suc (zone_num a) \<and>
    all_free (zones a') (fls @ [fl]) = all_free (zones a) fls + mset [b..<b + n]"
  using add_zone_rep [OF assms] .

theorem buddy_add_zone_correct_witness:
  "\<exists>a' fl. add_zone (buddy_init BuddyAllocator_default) 16 11 = Some a' \<and> buddy_rep 0 a' [fl] [] \<and>
    all_free (zones a') [fl] = mset [16..<27]"
proof -
  let ?a = "buddy_init BuddyAllocator_default"
  have "zone_num ?a = 0" "freenode_remain (node_pool ?a) = 512"
    by (simp_all add: buddy_init_def BuddyAllocator_default_def FreeNodePool_init_def NODE_COMPATIBILITY_def)
  moreover have "bit_length 11 = 4" by (simp add: bit_length_pos)
  ultimately show ?thesis
    using buddy_add_zone_correct [OF buddy_init_rep, of 11 16] by (auto simp: MEM_ZONES_def MAX_POW_36 all_free_def)
qed

text \<open>The allocator over the eight pages 16..23, the concrete state of the witnesses.\<close>

definition boot8 :: "BuddyAllocator option" where
  "boot8 = add_zone (buddy_init BuddyAllocator_default) 16 8"

lemma boot8_eq: "boot8 =
  Some \<lparr>free = 8, zones = (replicate MEM_ZONES MemoryZone_default)
      [0 := \<lparr>base = 16, pages = 8, pows = (replicate BUDDY_ALLOC_MAX_POW None)[3 := Some (PoolNode 0)]\<rparr>],
    zone_num = 1,
    node_pool = \<lparr>free_nodes = (link_nodes PoolNode NODE_COMPATIBILITY (\<lambda>_. FreeNode_default))
        (PoolNode 0 := \<lparr>page_number = 0, next_node = None\<rparr>),
      freenode_remain = 511, free_start = Some (PoolNode 1)\<rparr>,
    extended_pools = None, ext_pool_next = (\<lambda>_. None)\<rparr>"
proof -
  have "next_node (link_nodes PoolNode NODE_COMPATIBILITY (\<lambda>_. FreeNode_default) (PoolNode 0)) = Some (PoolNode 1)"
    using link_nodes_next [of PoolNode 0 NODE_COMPATIBILITY] by (simp add: NODE_COMPATIBILITY_def)
  then show ?thesis
    by (simp add: boot8_def add_zone_def MemoryZone_new_def zone_fill.simps floor_to_power_2_def leading_zeros_def
        bit_length_pos add_node_def alloc_node_def buddy_init_def BuddyAllocator_default_def FreeNodePool_init_def
        FreeNodePool_default_def NODE_COMPATIBILITY_def MAX_POW_36 MEM_ZONES_def FreeNode_new_def Let_def)
qed

lemma boot8_rep:
  obtains a fl where "boot8 = Some a" "buddy_rep 0 a [fl] []" "all_free (zones a) [fl] = mset [16..<24]"
    "freenode_remain (node_pool a) = 511" "zone_num a = 1"
proof -
  obtain a fl where a: "boot8 = Some a" "buddy_rep 0 a [fl] []" "all_free (zones a) [fl] = mset [16..<24]"
    using buddy_boot [of 8 16] by (auto simp: boot8_def MAX_POW_36)
  moreover have "freenode_remain (node_pool a) = 511" "zone_num a = 1"
    using a(1) unfolding boot8_eq by auto
  ultimately show thesis using that by blast
qed

section \<open>Allocation\<close>

lemma power_exponent_less_64: "next_power_of_two n = Some (2 ^ k) \<Longrightarrow> k < 64"
  by (elim next_power_of_two_SomeD) simp

lemma nodes_for_plenty:
  assumes rep: "buddy_rep d a fls ps" and r: "MIN_POOL_REMAIN \<le> r"
  shows "nodes_for (zones a) (zone_num a) k r"
proof -
  have "(2::nat) ^ BUDDY_ALLOC_MAX_POW \<le> 2 ^ (r + k + 2)"
    using r by (intro power_increasing) (auto simp: MIN_POOL_REMAIN_def)
  then show ?thesis
    using rep by (auto simp: nodes_for_def buddy_rep_def buddy_pages_def zone_ok_def intro: order.strict_trans2)
qed

lemma MIN_POOL_REMAIN_36: "MIN_POOL_REMAIN = 36"
  by (simp add: MIN_POOL_REMAIN_def MAX_POW_36)



text \<open>When the node pool runs low \<^verbatim>\<open>alloc_pages\<close> first takes 64 pages for an extended pool. If some
  zone has a block of that size the request is then served as usual: the pages that stop being free are the
  pool's 64 and the block handed out, the pool is chained in front of the others and the node counter agrees
  with the unused nodes again. It is enough that the remaining nodes can split a block of each zone.\<close>

theorem buddy_alloc_extends_pool:
  assumes rep: "buddy_rep 0 a fls ps" and low: "freenode_remain (node_pool a) \<le> MIN_POOL_REMAIN"
    and nodes: "nodes_for (zones a) (zone_num a) EXT_POW (freenode_remain (node_pool a))"
    and n: "next_power_of_two n = Some (2 ^ k)" and some: "\<not> no_block fls EXT_POW"
  shows "\<exists>r a' fls' q. buddy_alloc_pages a n = Some (r, a') \<and> buddy_rep 0 a' fls' (q # ps) \<and>
    (case r of
       Inl OutOfMemory \<Rightarrow> all_free (zones a) fls = all_free (zones a') fls' + block EXT_POW q \<and> no_block fls' k
     | Inr p \<Rightarrow> all_free (zones a) fls = all_free (zones a') fls' + block k p + block EXT_POW q)"
proof -
  obtain r1 a1 fls1 where x: "new_extended_pool a = Some (r1, a1)"
    "case r1 of
       Inl e \<Rightarrow> buddy_rep EXT_NODE_COMPATIBILITY a1 fls1 ps \<and> fls1 = fls \<and> no_block fls EXT_POW
     | Inr _ \<Rightarrow> \<not> no_block fls EXT_POW \<and> EXT_NODE_COMPATIBILITY \<le> freenode_remain (node_pool a1) \<and>
         (\<exists>q. buddy_rep 0 a1 fls1 (q # ps) \<and> all_free (zones a) fls = all_free (zones a1) fls1 + block EXT_POW q)"
    using new_extended_pool_spec [OF rep disjI1 [OF nodes]] by blast
  with some obtain q where r1: "r1 = Inr ()" and rep1: "buddy_rep 0 a1 fls1 (q # ps)"
    and remain: "EXT_NODE_COMPATIBILITY \<le> freenode_remain (node_pool a1)"
    and taken: "all_free (zones a) fls = all_free (zones a1) fls1 + block EXT_POW q"
    by (auto split: sum.splits)
  have remain: "MIN_POOL_REMAIN < freenode_remain (node_pool a1)"
    using remain by (simp add: MIN_POOL_REMAIN_36 EXT_NODE_COMPATIBILITY_def)
  then have "nodes_for (zones a1) (zone_num a1) k (freenode_remain (node_pool a1) - 0) \<or> buddy_alloc_pages a1 n \<noteq> None"
    using nodes_for_plenty [OF rep1] by simp
  from buddy_alloc_serve [OF rep1 remain this n power_exponent_less_64 [OF n]]
  obtain r a' fls' where s: "buddy_alloc_pages a1 n = Some (r, a')" "buddy_rep 0 a' fls' (q # ps)"
    "same_shape a1 a'"
    "case r of Inl e \<Rightarrow> fls' = fls1 \<and> no_block fls1 k
     | Inr p \<Rightarrow> all_free (zones a1) fls1 = all_free (zones a') fls' + block k p \<and> in_zone a1 k p \<and> \<not> no_block fls1 k" by blast
  have "buddy_alloc_pages a n = buddy_alloc_pages a1 n"
    using low remain x(1) r1 by (simp add: buddy_alloc_pages.simps [of a] buddy_alloc_pages.simps [of a1])
  moreover have "all_free (zones a') fls1 = all_free (zones a1) fls1"
    using s(3) rep1 by (intro all_free_same_zones) (auto simp: same_shape_def buddy_rep_def buddy_pages_def)
  ultimately show ?thesis
    using s taken by (intro exI [of _ r] exI [of _ a'] exI [of _ fls'] exI [of _ q])
      (auto split: sum.splits AllocError.splits)
qed

text \<open>States with few nodes left: taking nodes from the pool keeps the invariant.\<close>

lemma buddy_rep_leak:
  assumes "buddy_rep 0 a fls ps" "r \<le> freenode_remain (node_pool a)"
  shows "\<exists>a'. buddy_rep 0 a' fls ps \<and> zones a' = zones a \<and> zone_num a' = zone_num a \<and>
    freenode_remain (node_pool a') = r"
  using assms
proof (induction "freenode_remain (node_pool a) - r" arbitrary: a)
  case (Suc m)
  obtain nsss frees where bn: "buddy_nodes 0 a nsss frees fls ps" and bp: "buddy_pages a fls ps"
    using Suc.prems(1) by (auto simp: buddy_rep_def)
  then have pr: "pool_rep 0 (node_pool a) frees" by (simp add: buddy_nodes_def zones_rep_def)
  with Suc.hyps(2) obtain nd fs where fs: "frees = nd # fs" by (cases frees) (auto simp: pool_rep_def)
  obtain pool' where p: "pool_rep 0 pool' fs" "free_nodes pool' = free_nodes (node_pool a)"
    using alloc_node_rep [OF pr [unfolded fs]] by metis
  let ?a = "a\<lparr>node_pool := pool'\<rparr>"
  have "buddy_nodes 0 ?a nsss fs fls ps"
    using bn p fs by (auto simp: buddy_nodes_def zones_rep_def zone_lists_def [abs_def])
  then have "buddy_rep 0 ?a fls ps" using bp by (auto simp: buddy_rep_def buddy_pages_def)
  moreover have "freenode_remain pool' = freenode_remain (node_pool a) - 1"
    using p(1) pr fs by (simp add: pool_rep_def)
  ultimately show ?case using Suc.hyps(1) [of ?a] Suc.hyps(2) Suc.prems(2) by simp
qed auto

lemma free_list_empty_iff:
  assumes rep: "buddy_rep d a fls ps" and i: "i < zone_num a" and k: "k < BUDDY_ALLOC_MAX_POW"
  shows "fls ! i ! k = [] \<longleftrightarrow> pows (zones a ! i) ! k = None"
proof -
  obtain nsss frees where bn: "buddy_nodes d a nsss frees fls ps" and len: "length fls = zone_num a"
    using rep by (auto simp: buddy_rep_def buddy_pages_def)
  then have fls: "fls = map (zone_lists (node_pool a)) nsss" and zr: "zones_rep d (zones a) (node_pool a) nsss frees"
    by (auto simp: buddy_nodes_def)
  then have "i < length nsss" using i len by simp
  then have "node_path (free_nodes (node_pool a)) (pows (zones a ! i) ! k) (nsss ! i ! k)" "k < length (nsss ! i)"
    "fls ! i ! k = map (\<lambda>b. page_number (free_nodes (node_pool a) b)) (nsss ! i ! k)"
    using zr k fls by (auto simp: zones_rep_def)
  then show ?thesis by (cases "nsss ! i ! k") auto
qed

lemma boot_low:
  assumes "k \<le> 6"
  obtains a fl where "buddy_rep 0 a [fl] []" "freenode_remain (node_pool a) = 9"
    "zone_num a = 1" "pages (zones a ! 0) = 2 ^ k" "\<And>j. j < BUDDY_ALLOC_MAX_POW \<Longrightarrow> fl ! j = [] \<longleftrightarrow> j \<noteq> k"
proof -
  have k: "(2::nat) ^ k \<le> 2 ^ 6" using assms by (intro power_increasing) auto
  then obtain a fl where a: "add_zone (buddy_init BuddyAllocator_default) 0 (2 ^ k) = Some a" "buddy_rep 0 a [fl] []"
    "zone_num a = 1"
    using buddy_boot [of "2 ^ k" 0] by (auto simp: MAX_POW_36)
  have "freenode_remain (node_pool a) = 511" "pages (zones a ! 0) = 2 ^ k"
    and pw: "pows (zones a ! 0) = (replicate BUDDY_ALLOC_MAX_POW None)[k := Some (PoolNode 0)]"
    using a(1) assms k floor_to_power_2_eq [of "2 ^ k"]
    by (auto simp: add_zone_def MemoryZone_new_def zone_fill.simps add_node_def alloc_node_def buddy_init_def
        BuddyAllocator_default_def FreeNodePool_init_def FreeNodePool_default_def NODE_COMPATIBILITY_def MAX_POW_36
        MEM_ZONES_def FreeNode_new_def Let_def)
  moreover have "fl ! j = [] \<longleftrightarrow> j \<noteq> k" if "j < BUDDY_ALLOC_MAX_POW" for j
    using free_list_empty_iff [OF a(2) _ that, of 0] a(3) pw that assms
    by (auto simp: nth_list_update MAX_POW_36)
  ultimately show thesis using buddy_rep_leak [OF a(2), of 9] a that by auto
qed

theorem buddy_alloc_extends_pool_witness:
  "\<exists>a r a' fls' q. freenode_remain (node_pool a) = 9 \<and> buddy_alloc_pages a 1 = Some (r, a') \<and>
    buddy_rep 0 a' fls' [q]"
proof -
  obtain a fl where a: "buddy_rep 0 a [fl] []" "freenode_remain (node_pool a) = 9" "zone_num a = 1"
    "pages (zones a ! 0) = 2 ^ 6" "\<And>j. j < BUDDY_ALLOC_MAX_POW \<Longrightarrow> fl ! j = [] \<longleftrightarrow> j \<noteq> 6" by (rule boot_low [of 6]) auto
  have "next_power_of_two 1 = Some (2 ^ 0)" by (simp add: next_power_of_two_def)
  moreover have "fl ! 6 \<noteq> []" using a(5) [of 6] by (simp add: MAX_POW_36)
  then have "\<not> no_block [fl] EXT_POW"
    unfolding no_block_def lists_empty_from_def by (auto simp: EXT_POW_def MAX_POW_36 intro!: exI [of _ 6])
  moreover have "nodes_for (zones a) (zone_num a) EXT_POW (freenode_remain (node_pool a))"
    using a by (simp add: nodes_for_def EXT_POW_def)
  moreover have "freenode_remain (node_pool a) \<le> MIN_POOL_REMAIN" using a(2) by (simp add: MIN_POOL_REMAIN_36)
  ultimately obtain r a' fls' q where "buddy_alloc_pages a 1 = Some (r, a')" "buddy_rep 0 a' fls' [q]"
    using buddy_alloc_extends_pool [OF a(1)] by metis
  with a(2) show ?thesis by blast
qed

text \<open>When the node pool runs low and no zone has 64 pages in one block, \<^verbatim>\<open>alloc_pages\<close> reports
  \<^verbatim>\<open>OutOfMemory\<close> for every request, smaller ones that could be served too, leaves the free pages alone, and
  leaves the node counter 8196 ahead of the unused nodes: \<^verbatim>\<open>new_extended_pool\<close> raises it first and does
  not take it back when it fails.\<close>

theorem buddy_alloc_failed_extension:
  assumes rep: "buddy_rep 0 a fls ps" and low: "freenode_remain (node_pool a) \<le> MIN_POOL_REMAIN"
    and nodes: "nodes_for (zones a) (zone_num a) EXT_POW (freenode_remain (node_pool a))"
    and none: "no_block fls EXT_POW"
  shows "\<exists>a'. buddy_alloc_pages a n = Some (Inl OutOfMemory, a') \<and> buddy_rep EXT_NODE_COMPATIBILITY a' fls ps"
proof -
  obtain r a' fls' where x: "new_extended_pool a = Some (r, a')" "same_shape a a'"
    "case r of
       Inl e \<Rightarrow> buddy_rep EXT_NODE_COMPATIBILITY a' fls' ps \<and> fls' = fls \<and> no_block fls EXT_POW
     | Inr _ \<Rightarrow> \<not> no_block fls EXT_POW \<and> EXT_NODE_COMPATIBILITY \<le> freenode_remain (node_pool a') \<and>
         (\<exists>q. buddy_rep 0 a' fls' (q # ps) \<and> all_free (zones a) fls = all_free (zones a') fls' + block EXT_POW q)"
    using new_extended_pool_spec [OF rep disjI1 [OF nodes]] by blast
  show ?thesis
  proof (cases r)
    case (Inl e)
    then have "buddy_alloc_pages a n = Some (Inl OutOfMemory, a')"
      using low x(1) by (cases e) (simp add: buddy_alloc_pages.simps)
    with x(3) Inl show ?thesis by auto
  next
    case (Inr u)
    then show ?thesis using x(3) none by simp
  qed
qed

theorem buddy_alloc_failed_extension_witness:
  "\<exists>a a' fl. freenode_remain (node_pool a) = 9 \<and> buddy_alloc_pages a 1 = Some (Inl OutOfMemory, a') \<and>
    fl ! 3 \<noteq> [] \<and> buddy_rep EXT_NODE_COMPATIBILITY a' [fl] []"
proof -
  obtain a fl where a: "buddy_rep 0 a [fl] []" "freenode_remain (node_pool a) = 9" "zone_num a = 1"
    "pages (zones a ! 0) = 2 ^ 3" "\<And>j. j < BUDDY_ALLOC_MAX_POW \<Longrightarrow> fl ! j = [] \<longleftrightarrow> j \<noteq> 3" by (rule boot_low [of 3]) auto
  have "no_block [fl] EXT_POW" using a(5) by (auto simp: no_block_def lists_empty_from_def EXT_POW_def)
  moreover have "nodes_for (zones a) (zone_num a) EXT_POW (freenode_remain (node_pool a))"
    using a by (simp add: nodes_for_def EXT_POW_def)
  ultimately obtain a' where "buddy_alloc_pages a 1 = Some (Inl OutOfMemory, a')" "buddy_rep EXT_NODE_COMPATIBILITY a' [fl] []"
    using buddy_alloc_failed_extension [OF a(1), of 1] a(2) by (auto simp: MIN_POOL_REMAIN_36)
  moreover have "fl ! 3 \<noteq> []" using a(5) [of 3] by (simp add: MAX_POW_36)
  ultimately show ?thesis using a(2) by blast
qed

section \<open>Freeing\<close>

text \<open>C3: \<^verbatim>\<open>free_pages\<close> on a block of a zone that is neither free nor part of an extended pool never panics
  while a node is left, keeps the invariant, and makes exactly the pages of the block free, however many merges
  it performs, unless the merge loop meets a block of another size where it looks for the partner.\<close>

theorem buddy_free_pages_correct:
  assumes "buddy_rep d a fls ps" "i < zone_num a" "next_power_of_two n = Some (2 ^ k)"
    and "p = base (zones a ! i) + rel" "2 ^ k dvd rel" "rel + 2 ^ k \<le> pages (zones a ! i)"
    and "d < freenode_remain (node_pool a)"
    and "\<And>q. count (all_free (zones a) fls + pool_pages ps + block k p) q \<le> 1"
    and "\<not> misled (fls ! i) k rel"
  shows "\<exists>a' fls'. buddy_free_pages a p n = Some a' \<and> same_shape a a' \<and> buddy_rep d a' fls' ps \<and>
    all_free (zones a') fls' = all_free (zones a) fls + block k p"
  using buddy_free_hit [OF assms] by blast

lemma all_free_zero:
  assumes "buddy_rep d a fls ps" "all_free (zones a) fls = {#}" "fl \<in> set fls" "k < BUDDY_ALLOC_MAX_POW"
  shows "fl ! k = []"
proof (rule ccontr)
  assume ne: "fl ! k \<noteq> []"
  obtain i where i: "i < length fls" "fls ! i = fl" using assms(3) by (auto simp: in_set_conv_nth)
  have bp: "buddy_pages a fls ps" using assms(1) by (simp add: buddy_rep_def)
  then have "length fl = BUDDY_ALLOC_MAX_POW" using i by (auto simp: buddy_pages_def zone_ok_def lists_ok_def)
  then have "block k (hd (fl ! k)) \<subseteq># free_mset fl" using ne assms(4) by (intro block_subset_free_mset) auto
  moreover have "zone_pages (zones a ! i) fl = {#}"
    using assms(2) i sum_eq_empty_iff [of "{..<length fls}" "\<lambda>i. zone_pages (zones a ! i) (fls ! i)"]
    by (auto simp: all_free_def)
  ultimately have "block k (hd (fl ! k)) = {#}" by (simp add: zone_pages_def)
  then have "size (block k (hd (fl ! k))) = 0" by (simp only: size_empty)
  then show False by simp
qed

lemma not_misled_empty:
  assumes "\<And>j. j < BUDDY_ALLOC_MAX_POW \<Longrightarrow> fl ! j = []"
  shows "\<not> misled fl k rel"
proof -
  have "coalesce ks fl k rel = (fl, k, rel)" if "set ks \<subseteq> {..<BUDDY_ALLOC_MAX_POW}" for ks
    using that assms by (cases ks) (auto simp: level_hit_def)
  moreover have "\<not> false_partner ks fl rel" if "set ks \<subseteq> {..<BUDDY_ALLOC_MAX_POW}" for ks
    using that assms by (cases ks) auto
  ultimately show ?thesis by (auto simp: misled_def atLeast_upt)
qed

lemma boot8_head: "boot8 = Some a \<Longrightarrow> pows (zones a ! 0) ! 3 = Some (PoolNode 0) \<and> base (zones a ! 0) = 16 \<and> pages (zones a ! 0) = 8"
  unfolding boot8_eq by (auto simp: MEM_ZONES_def MAX_POW_36)

theorem buddy_free_pages_correct_witness:
  "\<exists>a p a' a'' fls''. boot8 = Some a \<and> buddy_alloc_pages a 8 = Some (Inr p, a') \<and>
    buddy_free_pages a' p 8 = Some a'' \<and> buddy_rep 0 a'' fls'' [] \<and> all_free (zones a'') fls'' = mset [16..<24]"
proof -
  obtain a fl where a: "boot8 = Some a" "buddy_rep 0 a [fl] []" "all_free (zones a) [fl] = mset [16..<24]"
    "freenode_remain (node_pool a) = 511" "zone_num a = 1" by (rule boot8_rep)
  note head = boot8_head [OF a(1)]
  have n: "next_power_of_two 8 = Some (2 ^ 3)" using next_power_of_two_power [of 3] by simp
  have "nodes_for (zones a) (zone_num a) 3 (freenode_remain (node_pool a) - 0) \<or> buddy_alloc_pages a 8 \<noteq> None"
    using a(4) nodes_for_plenty [OF a(2)] by (simp add: MIN_POOL_REMAIN_36)
  from buddy_alloc_serve [OF a(2) _ this n] a(4) obtain r a' fls' where s:
    "buddy_alloc_pages a 8 = Some (r, a')" "buddy_rep 0 a' fls' []" "same_shape a a'" "node_count a' fls' = node_count a [fl]"
    "case r of Inl e \<Rightarrow> fls' = [fl] \<and> no_block [fl] 3
     | Inr p \<Rightarrow> mset [16..<24] = all_free (zones a') fls' + block 3 p \<and> in_zone a 3 p \<and> \<not> no_block [fl] 3"
    unfolding a(3) MIN_POOL_REMAIN_36 by auto
  have "fl ! 3 \<noteq> []" using free_list_empty_iff [OF a(2), of 0 3] head a(5) by (simp add: MAX_POW_36)
  then have "\<not> no_block [fl] 3"
    unfolding no_block_def lists_empty_from_def by (auto simp: MAX_POW_36 intro!: exI [of _ 3])
  with s(5) obtain p where r: "r = Inr p" and taken: "mset [16..<24] = all_free (zones a') fls' + block 3 p"
    and zone: "in_zone a 3 p" by (auto split: sum.splits)
  have p: "p = 16" using zone head a(5) by (auto simp: in_zone_def)
  have none: "all_free (zones a') fls' = {#}" using taken p by (simp add: block_def)
  have "0 < length (zones a)" using a(2) by (simp add: buddy_rep_def buddy_pages_def MEM_ZONES_def)
  then have geo: "zone_num a' = 1" "base (zones a' ! 0) = 16" "pages (zones a' ! 0) = 8"
    using s(3) head a(5) same_zones_nth [of "zones a" "zones a'" 0] by (simp_all add: same_shape_def)
  have len: "length fls' = 1" using s(2) geo by (simp add: buddy_rep_def buddy_pages_def)
  have empty: "fls' ! 0 ! j = []" if "j < BUDDY_ALLOC_MAX_POW" for j
    using all_free_zero [OF s(2) none _ that, of "fls' ! 0"] len by simp
  have "length (fls' ! 0) = BUDDY_ALLOC_MAX_POW"
    using s(2) geo by (simp add: buddy_rep_def buddy_pages_def zone_ok_def lists_ok_def)
  then have "concat (fls' ! 0) = []" using empty by (auto simp: concat_eq_Nil_conv in_set_conv_nth)
  then have "concat (map concat fls') = []" using len by (cases fls') auto
  then have "length (concat (map concat fls')) = 0" by (simp only: list.size)
  then have "0 < freenode_remain (node_pool a')" using s(4) a(4) unfolding node_count_def by linarith
  moreover have "\<not> misled (fls' ! 0) 3 0" using empty by (rule not_misled_empty)
  moreover have "count (all_free (zones a') fls' + pool_pages [] + block 3 p) q \<le> 1" for q
    using none count_block_le [of 3 p q] by simp
  ultimately obtain a'' fls'' where "buddy_free_pages a' p 8 = Some a''" "buddy_rep 0 a'' fls'' []"
    "all_free (zones a'') fls'' = all_free (zones a') fls' + block 3 p"
    using buddy_free_pages_correct [OF s(2), of 0 8 3 p 0] geo p n by auto
  with a(1) s(1) r taken show ?thesis by metis
qed

text \<open>C5: The merge loop of \<^verbatim>\<open>free_pages\<close> does not stop at a level without a partner. On a consistent zone of
  eight pages with the free blocks 5, 2..3 and 6..7 (so that the pages 0, 1 and 4 are in use) freeing page 0
  alone makes page 1, which is still in use, free, and the free pages 2 and 3 vanish.\<close>

theorem buddy_free_misled:
  "\<exists>zone pool nss frees zone' pool' nss' frees'.
    zone_rep 0 zone pool nss frees \<and> lists_ok 8 (zone_lists pool nss) \<and>
    free_mset (zone_lists pool nss) = {#2, 3, 5, 6, 7#} \<and>
    zone_free_pages zone pool (base zone) 1 = Some (zone', pool') \<and>
    zone_rep 0 zone' pool' nss' frees' \<and> free_mset (zone_lists pool' nss') = {#0, 1, 5, 6, 7#}"
proof -
  define pool where "pool = \<lparr>free_nodes = (\<lambda>_. FreeNode_default)(PoolNode 0 := \<lparr>page_number = 5, next_node = None\<rparr>,
      PoolNode 1 := \<lparr>page_number = 2, next_node = Some (PoolNode 2)\<rparr>, PoolNode 2 := \<lparr>page_number = 6, next_node = None\<rparr>),
    freenode_remain = 1, free_start = Some (PoolNode 3)\<rparr>"
  define zone where "zone = \<lparr>base = 16, pages = 8,
    pows = [Some (PoolNode 0), Some (PoolNode 1)] @ replicate 34 None\<rparr>"
  define nss where "nss = [[PoolNode 0], [PoolNode 1, PoolNode 2]] @ replicate 34 []"
  have lists: "zone_lists pool nss = [[5], [2, 6]] @ replicate 34 []"
    by (simp add: zone_lists_def nss_def pool_def)
  have rep: "zone_rep 0 zone pool nss [PoolNode 3]"
    unfolding zone_rep_def MAX_POW_36
    by (simp add: zone_def pool_def nss_def pool_rep_def FreeNode_default_def nth_Cons' nth_append)
  have ok: "lists_ok 8 (zone_lists pool nss)"
    unfolding lists by (auto simp: lists_ok_def MAX_POW_36 nth_Cons' nth_append le_Suc_eq split: if_splits)
  obtain zone' pool' nss' frees' where z: "zone_free_pages zone pool (base zone + 0) (2 ^ 0) = Some (zone', pool')"
    "zone_rep 0 zone' pool' nss' frees'" "zone_lists pool' nss' = l_free (zone_lists pool nss) 0 0"
  proof (rule zone_free_pages_refines [OF rep ok, of 0 0])
  qed (auto simp: MAX_POW_36)
  have "l_free (zone_lists pool nss) 0 0 = [[5], [0, 6]] @ replicate 34 []"
    unfolding lists by (simp add: l_free_def MAX_POW_36 upt_rec l_merge_Cons level_hit_def buddy_of_def level_start_def
        l_add_def)
  then have "free_mset (zone_lists pool' nss') = {#0, 1, 5, 6, 7#}"
    unfolding z(3) by (simp add: free_mset_def lessThan_Suc numeral_eq_Suc block_def nth_append upt_rec)
  moreover have "free_mset (zone_lists pool nss) = {#2, 3, 5, 6, 7#}"
    unfolding lists by (simp add: free_mset_def lessThan_Suc numeral_eq_Suc block_def nth_append upt_rec)
  ultimately show ?thesis using rep ok z(1,2) by fastforce
qed

section \<open>The allocator as a page allocator\<close>

text \<open>The state after a failed extension counts too: its counter is ahead of the nodes, its pages are not.\<close>

definition buddy_free :: "BuddyAllocator \<Rightarrow> nat multiset \<Rightarrow> bool" where
  "buddy_free a F \<longleftrightarrow> (\<exists>d fls ps. (d = 0 \<or> d = EXT_NODE_COMPATIBILITY) \<and> buddy_rep d a fls ps \<and> F = all_free (zones a) fls)"

lemma buddy_alloc_block:
  assumes rep: "buddy_rep d a fls ps" and d: "d = 0 \<or> d = EXT_NODE_COMPATIBILITY"
    and run: "buddy_alloc_pages a n = Some (Inr p, a')" and n: "next_power_of_two n = Some (2 ^ k)"
  shows "\<exists>fls' ps'. buddy_rep d a' fls' ps' \<and> all_free (zones a') fls' + block k p \<subseteq># all_free (zones a) fls"
proof -
  have serve: "\<exists>fls'. buddy_rep e a' fls' qs \<and> all_free (zones b) gls = all_free (zones a') fls' + block k p"
    if "buddy_rep e b gls qs" "MIN_POOL_REMAIN < freenode_remain (node_pool b)" "buddy_alloc_pages b n = Some (Inr p, a')"
    for e b gls qs
    using buddy_alloc_serve [OF that(1,2) disjI2 n power_exponent_less_64 [OF n]] that(3) by auto
  show ?thesis
  proof (cases "MIN_POOL_REMAIN < freenode_remain (node_pool a)")
    case True
    with serve [OF rep True run] show ?thesis by auto
  next
    case False
    have "d \<le> freenode_remain (node_pool a)" using rep by (auto simp: buddy_rep_def buddy_nodes_def zones_rep_def pool_rep_def)
    with False d have d0: "d = 0" by (auto simp: MIN_POOL_REMAIN_36 EXT_NODE_COMPATIBILITY_def)
    from run False have ext: "new_extended_pool a \<noteq> None"
      by (auto simp: buddy_alloc_pages.simps [of a] bind_eq_Some_conv split: if_splits)
    obtain r1 a1 fls1 where x: "new_extended_pool a = Some (r1, a1)"
      "case r1 of
         Inl e \<Rightarrow> buddy_rep EXT_NODE_COMPATIBILITY a1 fls1 ps \<and> fls1 = fls \<and> no_block fls EXT_POW
       | Inr _ \<Rightarrow> \<not> no_block fls EXT_POW \<and> EXT_NODE_COMPATIBILITY \<le> freenode_remain (node_pool a1) \<and>
           (\<exists>q. buddy_rep 0 a1 fls1 (q # ps) \<and> all_free (zones a) fls = all_free (zones a1) fls1 + block EXT_POW q)"
      using new_extended_pool_spec [OF rep [unfolded d0] disjI2 [OF ext]] by blast
    with run False obtain q where r1: "r1 = Inr ()" and q: "buddy_rep 0 a1 fls1 (q # ps)"
      "EXT_NODE_COMPATIBILITY \<le> freenode_remain (node_pool a1)"
      "all_free (zones a) fls = all_free (zones a1) fls1 + block EXT_POW q"
      by (cases r1) (auto simp: buddy_alloc_pages.simps [of a])
    have remain: "MIN_POOL_REMAIN < freenode_remain (node_pool a1)"
      using q(2) by (simp add: MIN_POOL_REMAIN_36 EXT_NODE_COMPATIBILITY_def)
    have "buddy_alloc_pages a n = buddy_alloc_pages a1 n"
      using False remain x(1) r1 by (simp add: buddy_alloc_pages.simps [of a] buddy_alloc_pages.simps [of a1])
    with serve [OF q(1) remain] run obtain fls' where
      "buddy_rep 0 a' fls' (q # ps)" "all_free (zones a1) fls1 = all_free (zones a') fls' + block k p" by auto
    with q(3) d0 show ?thesis by (intro exI [of _ fls'] exI [of _ "q # ps"]) auto
  qed
qed

lemma buddy_alloc_one:
  assumes "buddy_rep d a fls ps" "d = 0 \<or> d = EXT_NODE_COMPATIBILITY" "buddy_alloc_pages a 1 = Some (Inr p, a')"
  shows "\<exists>fls' ps'. buddy_rep d a' fls' ps' \<and> add_mset p (all_free (zones a') fls') \<subseteq># all_free (zones a) fls"
  using buddy_alloc_block [OF assms, of 0] by (simp add: next_power_of_two_def block_def)

lemma buddy_rep_count: "buddy_rep d a fls ps \<Longrightarrow> count (all_free (zones a) fls) p \<le> 1"
  by (simp add: buddy_rep_def buddy_pages_def) (metis add_leE)

interpretation buddy: page_allocator buddy_free buddy_alloc_pages
proof
  show "\<exists>F'. buddy_free a' F' \<and> add_mset p F' \<subseteq># F"
    if "buddy_free a F" "buddy_alloc_pages a 1 = Some (Inr p, a')" for a F p a'
    using that(1) buddy_alloc_one [OF _ _ that(2)] unfolding buddy_free_def by metis
  show "count F p \<le> 1" if "buddy_free a F" for a F p
    using that buddy_rep_count by (auto simp: buddy_free_def)
  show "p < 2 ^ 52" if "buddy_free a F" "p \<in># F" for a F p
    using that in_all_free_bound [OF buddy_pages_zones_ok] by (fastforce simp: buddy_free_def buddy_rep_def)
qed

text \<open>An allocator of blocks: the pages of a block it hands out were free and stop being free.\<close>

locale block_allocator = page_allocator +
  assumes alloc_block: "rep s F \<Longrightarrow> alloc_pages s n = Some (Inr p, s') \<Longrightarrow> next_power_of_two n = Some (2 ^ k) \<Longrightarrow>
    \<exists>F'. rep s' F' \<and> F' + block k p \<subseteq># F"

interpretation buddy_block: block_allocator buddy_free buddy_alloc_pages
proof
  show "\<exists>F'. buddy_free a' F' \<and> F' + block k p \<subseteq># F"
    if "buddy_free a F" "buddy_alloc_pages a n = Some (Inr p, a')" "next_power_of_two n = Some (2 ^ k)" for a F n p a' k
    using that(1) buddy_alloc_block [OF _ _ that(2,3)] unfolding buddy_free_def by metis
qed

end
