(* ===== verification/Static_Allocator.thy ===== *)
theory Static_Allocator
  imports Page_Interface
begin

text \<open>
  The static page allocator of \<^verbatim>\<open>src/src/page/static_allocator.rs\<close>, which serves the first page tables: 256
  pages inside the kernel image and a bitmap of four 64-bit words, most significant bit first.

  The pages are at the address of the allocator itself, which the linker decides: \<open>static_pages\<close> is the page number of
  the array, a field of the model. The allocator interprets \<open>page_allocator\<close>; \<^verbatim>\<open>free_pages\<close>, which takes the number
  of the page relative to the array, cannot undo \<^verbatim>\<open>alloc_pages\<close>, which returns the absolute one.
\<close>

section \<open>The allocator\<close>

definition STATIC_PAGE_CAP :: nat where "STATIC_PAGE_CAP = 256"

record StaticPageAllocator =
  static_pages :: nat
  bitmap :: "u64 list"

definition StaticPageAllocator_new :: "nat \<Rightarrow> StaticPageAllocator" where
  "StaticPageAllocator_new page_base = \<lparr>static_pages = page_base, bitmap = replicate (STATIC_PAGE_CAP div 64) 0\<rparr>"

definition leading_ones :: "u64 \<Rightarrow> nat" where
  "leading_ones w = length (takeWhile (\<lambda>i. bit w (63 - i)) [0..<64])"

text \<open>\<^verbatim>\<open>for (byte_idx, byte) in self.bitmap.iter_mut().enumerate()\<close>: the page found and the new words.\<close>

fun static_scan :: "nat \<Rightarrow> u64 list \<Rightarrow> nat option \<times> u64 list" where
  "static_scan byte_idx [] = (None, [])"
| "static_scan byte_idx (byte # bytes) =
     (let b = leading_ones byte
      in if b < 64 then (Some (64 * byte_idx + b), (byte OR push_bit (63 - b) 1) # bytes)
         else case static_scan (Suc byte_idx) bytes of (r, bytes) \<Rightarrow> (r, byte # bytes))"

definition static_alloc_pages ::
  "StaticPageAllocator \<Rightarrow> nat \<Rightarrow> ((AllocError + nat) \<times> StaticPageAllocator) option" where
  "static_alloc_pages s pages_count = do {
     rust_assert (pages_count = 1);
     (case static_scan 0 (bitmap s) of
        (Some n, words) \<Rightarrow> do {
          rust_assert (n < STATIC_PAGE_CAP);
          Some (Inr (static_pages s + n), s\<lparr>bitmap := words\<rparr>)
        }
      | (None, words) \<Rightarrow> Some (Inl OutOfMemory, s\<lparr>bitmap := words\<rparr>))
   }"

definition static_free_pages :: "StaticPageAllocator \<Rightarrow> nat \<Rightarrow> nat \<Rightarrow> StaticPageAllocator option" where
  "static_free_pages s page_start pages_count = do {
     rust_assert (pages_count = 1);
     w \<leftarrow> nth_opt (bitmap s) (page_start div 64);
     words \<leftarrow> set_opt (bitmap s) (page_start div 64) (w AND NOT (push_bit (63 - page_start mod 64) 1));
     Some (s\<lparr>bitmap := words\<rparr>)
   }"

section \<open>The bitmap as a set\<close>

definition word_free :: "u64 \<Rightarrow> nat set" where
  "word_free w = {j. j < 64 \<and> \<not> bit w (63 - j)}"

fun free_from :: "nat \<Rightarrow> u64 list \<Rightarrow> nat set" where
  "free_from i [] = {}"
| "free_from i (w # ws) = (+) (64 * i) ` word_free w \<union> free_from (Suc i) ws"

definition static_ok :: "StaticPageAllocator \<Rightarrow> bool" where
  "static_ok s \<longleftrightarrow> length (bitmap s) = STATIC_PAGE_CAP div 64 \<and> static_pages s + STATIC_PAGE_CAP \<le> 2 ^ 52"

definition static_free :: "StaticPageAllocator \<Rightarrow> nat multiset \<Rightarrow> bool" where
  "static_free s F \<longleftrightarrow> static_ok s \<and> F = mset_set ((+) (static_pages s) ` free_from 0 (bitmap s))"

lemma leading_ones_free:
  assumes "leading_ones w < 64"
  shows "leading_ones w \<in> word_free w" "\<And>j. j < leading_ones w \<Longrightarrow> j \<notin> word_free w"
proof -
  let ?P = "\<lambda>i. bit w (63 - i)"
  have "\<not> ?P ([0..<64] ! leading_ones w)"
    using assms nth_length_takeWhile [of ?P "[0..<64]"] by (simp only: leading_ones_def length_upt) simp
  then show "leading_ones w \<in> word_free w" using assms by (simp add: word_free_def)
  fix j assume j: "j < leading_ones w"
  then have "[0..<64] ! j \<in> set (takeWhile ?P [0..<64])"
    unfolding leading_ones_def by (metis nth_mem takeWhile_nth)
  then have "?P ([0..<64] ! j)" by (blast dest: set_takeWhileD)
  then show "j \<notin> word_free w" using j assms by (simp add: word_free_def)
qed

lemma leading_ones_full: "\<not> leading_ones w < 64 \<Longrightarrow> word_free w = {}"
proof -
  assume "\<not> leading_ones w < 64"
  moreover have "leading_ones w \<le> 64"
    unfolding leading_ones_def by (metis length_takeWhile_le length_upt diff_zero)
  ultimately have "length (takeWhile (\<lambda>i. bit w (63 - i)) [0..<64]) = length [0..<64::nat]"
    by (simp add: leading_ones_def)
  then have "takeWhile (\<lambda>i. bit w (63 - i)) [0..<64] = [0..<64]"
    by (metis takeWhile_eq_take take_all order_refl)
  then have "\<forall>i \<in> set [0..<64]. bit w (63 - i)" by (metis takeWhile_eq_all_conv)
  then show ?thesis by (auto simp: word_free_def)
qed

lemma word_free_set: "b < 64 \<Longrightarrow> word_free (w OR 2 ^ (63 - b)) = word_free w - {b}"
  by (auto simp: word_free_def bit_or_iff bit_exp_iff)

lemma leading_ones_0 [simp]: "leading_ones 0 = 0"
  by (simp add: leading_ones_def upt_conv_Cons)

lemma free_from_ge: "n \<in> free_from i ws \<Longrightarrow> 64 * i \<le> n \<and> n < 64 * (i + length ws)"
  by (induction i ws rule: free_from.induct) (auto simp: word_free_def)

lemma finite_free_from [simp]: "finite (free_from i ws)"
  by (induction i ws rule: free_from.induct) (auto simp: word_free_def)

lemma static_scan_spec:
  "case static_scan i ws of
     (Some n, ws') \<Rightarrow> n \<in> free_from i ws \<and> free_from i ws' = free_from i ws - {n} \<and>
       (\<forall>m \<in> free_from i ws. n \<le> m) \<and> length ws' = length ws
   | (None, ws') \<Rightarrow> free_from i ws = {} \<and> ws' = ws"
proof (induction i ws rule: static_scan.induct)
  case (2 i w ws)
  show ?case
  proof (cases "leading_ones w < 64")
    case True
    note lo = leading_ones_free [OF True]
    have later: "64 * i + leading_ones w \<notin> free_from (Suc i) ws"
      using free_from_ge [of "64 * i + leading_ones w" "Suc i" ws] True by auto
    have "64 * i + leading_ones w \<le> m" if "m \<in> free_from i (w # ws)" for m
      using that lo(2) free_from_ge [of m "Suc i" ws] True by (auto simp: not_less [symmetric])
    moreover have "(+) (64 * i) ` (word_free w - {leading_ones w}) \<union> free_from (Suc i) ws =
        ((+) (64 * i) ` word_free w \<union> free_from (Suc i) ws) - {64 * i + leading_ones w}"
      using later by auto
    ultimately show ?thesis using True lo(1) by (simp add: Let_def word_free_set)
  next
    case False
    note full = leading_ones_full [OF False]
    from 2 [OF refl] False full show ?thesis
      by (auto simp: Let_def split: prod.splits option.splits)
  qed
qed simp

interpretation static: page_allocator static_free static_alloc_pages
proof
  show "\<exists>F'. static_free s' F' \<and> add_mset p F' \<subseteq># F"
    if free: "static_free s F" and run: "static_alloc_pages s 1 = Some (Inr p, s')" for s F p s'
  proof -
    from run obtain n ws where scan: "static_scan 0 (bitmap s) = (Some n, ws)"
      and p: "p = static_pages s + n" and s': "s' = s\<lparr>bitmap := ws\<rparr>"
      by (auto simp: static_alloc_pages_def bind_eq_Some_conv rust_assert_Some split: prod.splits option.splits)
    from static_scan_spec [of 0 "bitmap s"] scan have n: "n \<in> free_from 0 (bitmap s)"
      "free_from 0 ws = free_from 0 (bitmap s) - {n}" "length ws = length (bitmap s)" by auto
    let ?F = "mset_set ((+) (static_pages s) ` free_from 0 ws)"
    have "static_free s' ?F" using free n(3) by (simp add: static_free_def static_ok_def s')
    moreover have "free_from 0 (bitmap s) = insert n (free_from 0 ws)" "n \<notin> free_from 0 ws" using n(1,2) by auto
    then have "F = add_mset p ?F" using free by (simp add: static_free_def p inj_image_mem_iff)
    ultimately show ?thesis by auto
  qed
  show "count F p \<le> 1" if "static_free s F" for s F p
    using that by (simp add: static_free_def count_mset_set')
  show "p < 2 ^ 52" if "static_free s F" "p \<in># F" for s F p
  proof -
    from that obtain n where "n \<in> free_from 0 (bitmap s)" "p = static_pages s + n" and ok: "static_ok s"
      by (auto simp: static_free_def)
    then show ?thesis using free_from_ge [of n 0 "bitmap s"] by (simp add: static_ok_def STATIC_PAGE_CAP_def)
  qed
qed

section \<open>Properties\<close>

text \<open>C7: \<^verbatim>\<open>alloc_pages(1)\<close> of the static allocator never panics: it returns the free page with the least number
  and only that page stops being free, or every page of the array is in use and it reports \<^verbatim>\<open>OutOfMemory\<close>
  without a change.\<close>

theorem static_alloc_pages_correct:
  assumes "static_ok s"
  shows "\<exists>r s'. static_alloc_pages s 1 = Some (r, s') \<and> static_ok s' \<and> static_pages s' = static_pages s \<and>
    (case r of
       Inl OutOfMemory \<Rightarrow> free_from 0 (bitmap s) = {} \<and> s' = s
     | Inr p \<Rightarrow> \<exists>n. p = static_pages s + n \<and> n \<in> free_from 0 (bitmap s) \<and>
         (\<forall>m \<in> free_from 0 (bitmap s). n \<le> m) \<and> free_from 0 (bitmap s') = free_from 0 (bitmap s) - {n})"
proof (cases "static_scan 0 (bitmap s)")
  case (Pair r ws)
  show ?thesis
  proof (cases r)
    case None
    with Pair static_scan_spec [of 0 "bitmap s"] assms show ?thesis by (simp add: static_alloc_pages_def)
  next
    case (Some n)
    with Pair static_scan_spec [of 0 "bitmap s"] have n: "n \<in> free_from 0 (bitmap s)"
      "free_from 0 ws = free_from 0 (bitmap s) - {n}" "length ws = length (bitmap s)"
      "\<forall>m \<in> free_from 0 (bitmap s). n \<le> m" by auto
    have "n < STATIC_PAGE_CAP" using free_from_ge [OF n(1)] assms by (simp add: static_ok_def STATIC_PAGE_CAP_def)
    with Pair Some n assms show ?thesis by (simp add: static_alloc_pages_def static_ok_def)
  qed
qed

theorem static_alloc_pages_correct_witness:
  "\<exists>r s'. static_alloc_pages (StaticPageAllocator_new 1024) 1 = Some (r, s') \<and> static_ok s'"
  using static_alloc_pages_correct [of "StaticPageAllocator_new 1024"]
  by (auto simp: static_ok_def StaticPageAllocator_new_def STATIC_PAGE_CAP_def)

text \<open>\<^verbatim>\<open>free_pages\<close> of the static allocator does not accept what \<^verbatim>\<open>alloc_pages\<close> returns: with the array
  at page 256 or above, as the kernel image is, freeing any page the allocator handed out indexes the bitmap
  out of bounds and panics.\<close>

theorem static_free_allocated_panics:
  assumes "static_ok s" "STATIC_PAGE_CAP \<le> static_pages s" "static_alloc_pages s 1 = Some (Inr p, s')"
  shows "static_free_pages s' p 1 = None"
proof -
  from assms(3) obtain n ws where "static_scan 0 (bitmap s) = (Some n, ws)" "p = static_pages s + n"
    "s' = s\<lparr>bitmap := ws\<rparr>"
    by (auto simp: static_alloc_pages_def bind_eq_Some_conv rust_assert_Some split: prod.splits option.splits)
  moreover from this static_scan_spec [of 0 "bitmap s"] have "length ws = length (bitmap s)" by auto
  moreover have "4 \<le> p div 64" using assms(2) calculation(2) by (simp add: STATIC_PAGE_CAP_def)
  ultimately show ?thesis
    using assms(1) by (simp add: static_free_pages_def static_ok_def STATIC_PAGE_CAP_def nth_opt_def)
qed

theorem static_free_allocated_panics_witness:
  "\<exists>p s'. static_alloc_pages (StaticPageAllocator_new 1024) 1 = Some (Inr p, s') \<and> static_free_pages s' p 1 = None"
proof -
  let ?s = "StaticPageAllocator_new 1024"
  have words: "replicate 4 (0::u64) = [0, 0, 0, 0]" by (simp add: numeral_eq_Suc)
  obtain p s' where "static_alloc_pages ?s 1 = Some (Inr p, s')"
    by (simp add: static_alloc_pages_def StaticPageAllocator_new_def STATIC_PAGE_CAP_def words Let_def)
  then show ?thesis
    using static_free_allocated_panics [of ?s p s']
    by (auto simp: static_ok_def StaticPageAllocator_new_def STATIC_PAGE_CAP_def)
qed

end
