(* ===== verification/Kernel_Paging.thy ===== *)
theory Kernel_Paging
  imports Page_Mapping Buddy_Correctness Static_Allocator
begin

text \<open>
  The page tables of the kernel: \<^verbatim>\<open>Page_Mapping\<close> put together with the two architectures and the two allocators.
  The interpretations of \<open>page_table\<close> discharge its laws for each combination the kernel uses, and the properties
  are stated for both architectures over the buddy allocator, which serves every page table but the first.
  \<^verbatim>\<open>destroy\<close> is followed step by step for SV39.
\<close>

interpretation sv39_buddy: page_table buddy_free buddy_alloc_pages Sv39Mapper ..
interpretation arm64_buddy: page_table buddy_free buddy_alloc_pages Arm64Mapper ..
interpretation sv39_static: page_table static_free static_alloc_pages Sv39Mapper ..
interpretation arm64_static: page_table static_free static_alloc_pages Arm64Mapper ..

lemma mapper_levels:
  "0 < LEVEL Sv39Mapper" "0 < LEVEL Arm64Mapper" "1 < LEVEL Sv39Mapper" "1 < LEVEL Arm64Mapper"
  "LEVEL Sv39Mapper \<le> MAX_SUPPORTED_LEVEL" "LEVEL Arm64Mapper \<le> MAX_SUPPORTED_LEVEL"
  by (simp_all add: Sv39Mapper_def Arm64Mapper_def MAX_SUPPORTED_LEVEL_def)

section \<open>Mapping\<close>

text \<open>C2: \<^verbatim>\<open>map_4k\<close> on a page table over the buddy allocator, on both architectures: when it returns, the
  hardware's walk for \<open>vpn\<close> ends at exactly the leaf entry asked for, the walk for every page with other page
  table indices is what it was, and the tables are still a tree of pages none of which is free.\<close>

theorem map_4k_maps_one_page:
  assumes "M = Sv39Mapper \<or> M = Arm64Mapper" "pt_inv buddy_free M root m a"
    and "map_4k M buddy_alloc_pages root vpn ppn mode m a = Some (m', a')"
  shows "lookup M m' root vpn = Some (Entry_new M ppn True mode) \<and>
    (\<forall>w. \<not> same_page M vpn w \<longrightarrow> lookup M m' root w = lookup M m root w) \<and> pt_inv buddy_free M root m' a'"
  using assms(1)
proof
  assume "M = Sv39Mapper"
  with assms show ?thesis using sv39_buddy.map_4k_correct [OF mapper_levels(1)] by metis
next
  assume "M = Arm64Mapper"
  with assms show ?thesis using arm64_buddy.map_4k_correct [OF mapper_levels(2)] by metis
qed

text \<open>A page table with its three levels in place, in the three pages from \<open>PAGE_OFFSET\<close> on, beside the booted
  allocator.\<close>

definition demo_entry :: "nat \<Rightarrow> u64" where
  "demo_entry k = PageTableEntry_new k False []"

definition demo_mem :: pt_mem where
  "demo_mem = (\<lambda>_ _. 0)(PAGE_OFFSET := (\<lambda>_. 0)(0 := demo_entry 1), PAGE_OFFSET + 1 := (\<lambda>_. 0)(0 := demo_entry 2))"

definition demo_root :: table where "demo_root = Table_from_page PAGE_OFFSET"

lemma demo_child: "k < 2 ^ 20 \<Longrightarrow> child_page Sv39Mapper (demo_entry k) = PAGE_OFFSET + k" "Entry_is_valid Sv39Mapper (demo_entry k)"
  using sv39_page_number [of k False "[]"] sv39_new_valid [of k False "[]"]
  by (simp_all add: demo_entry_def Sv39Mapper_def child_page_def PAGE_OFFSET_eq)

lemma demo_root_page: "demo_root div PAGE_SIZE = PAGE_OFFSET"
  by (simp add: demo_root_def Table_from_page_page PAGE_OFFSET_eq)

lemma demo_rows: "demo_mem PAGE_OFFSET = (\<lambda>_. 0)(0 := demo_entry 1)" "demo_mem (PAGE_OFFSET + 1) = (\<lambda>_. 0)(0 := demo_entry 2)"
  by (simp_all add: demo_mem_def)

lemma demo_pages: "pt_pages Sv39Mapper demo_mem (LEVEL Sv39Mapper - 1) (demo_root div PAGE_SIZE) =
  [PAGE_OFFSET, PAGE_OFFSET + 1, PAGE_OFFSET + 2]"
proof -
  have "LEVEL Sv39Mapper - 1 = Suc (Suc 0)" by (simp add: Sv39Mapper_def)
  moreover have "pt_pages Sv39Mapper demo_mem (Suc 0) (PAGE_OFFSET + 1) = [PAGE_OFFSET + 1, PAGE_OFFSET + 2]"
    using sv39_buddy.pt_pages_one [of demo_mem "PAGE_OFFSET + 1" "demo_entry 2" 0, OF demo_rows(2) demo_child(2)] demo_child(1) [of 2] by simp
  moreover have "pt_pages Sv39Mapper demo_mem (Suc (Suc 0)) PAGE_OFFSET =
      PAGE_OFFSET # pt_pages Sv39Mapper demo_mem (Suc 0) (PAGE_OFFSET + 1)"
    using sv39_buddy.pt_pages_one [of demo_mem PAGE_OFFSET "demo_entry 1" "Suc 0", OF demo_rows(1) demo_child(2)] demo_child(1) [of 1]
    by (simp del: pt_pages.simps)
  ultimately show ?thesis unfolding demo_root_page by simp
qed

lemma demo_inv:
  obtains a where "boot8 = Some a" "pt_inv buddy_free Sv39Mapper demo_root demo_mem a"
proof -
  obtain a fl where a: "boot8 = Some a" "buddy_rep 0 a [fl] []" "all_free (zones a) [fl] = mset [16..<24]"
    using boot8_rep by metis
  have "buddy_free a (mset [16..<24])" using a unfolding buddy_free_def by metis
  then have "pt_inv buddy_free Sv39Mapper demo_root demo_mem a"
    unfolding pt_inv_def demo_pages by (intro exI [of _ "mset [16..<24]"]) (simp add: PAGE_OFFSET_eq)
  with a(1) that show thesis by blast
qed

lemma demo_index: "pt_index Sv39Mapper (Suc l) 5 = 0"
proof -
  have "drop_bit (9 * Suc l) (5::nat) = 0"
    using power_increasing [of 9 "9 * Suc l" "2::nat"] by (simp add: drop_bit_eq_div)
  then show ?thesis by (simp add: pt_index_def Sv39Mapper_def)
qed

lemma demo_map: "\<exists>m'. map_4k Sv39Mapper buddy_alloc_pages demo_root 5 ppn mode demo_mem a = Some (m', a)"
proof -
  have "Entry_is_valid Sv39Mapper (demo_mem (demo_root div PAGE_SIZE) (pt_index Sv39Mapper (Suc 1) 5))"
    using demo_child(2) by (simp add: demo_root_page demo_index demo_rows)
  then obtain t1 where t1: "t1 div PAGE_SIZE = child_page Sv39Mapper (demo_entry 1)"
    "map_walk Sv39Mapper buddy_alloc_pages (Suc 1) demo_root 5 demo_mem a = map_walk Sv39Mapper buddy_alloc_pages 1 t1 5 demo_mem a"
    by (rule sv39_buddy.map_walk_valid) (simp add: demo_root_page demo_index demo_rows)
  then have "Entry_is_valid Sv39Mapper (demo_mem (t1 div PAGE_SIZE) (pt_index Sv39Mapper (Suc 0) 5))"
    using demo_child(2) demo_child(1) [of 1] demo_rows(2) by (simp add: demo_index)
  then obtain t2 where
    "map_walk Sv39Mapper buddy_alloc_pages (Suc 0) t1 5 demo_mem a = map_walk Sv39Mapper buddy_alloc_pages 0 t2 5 demo_mem a"
    by (rule sv39_buddy.map_walk_valid) blast
  with t1(2) have "map_walk Sv39Mapper buddy_alloc_pages (LEVEL Sv39Mapper - 1) demo_root 5 demo_mem a = Some (t2, demo_mem, a)"
    by (simp add: Sv39Mapper_def numeral_eq_Suc)
  then show ?thesis by (simp add: map_4k_def)
qed

theorem map_4k_maps_one_page_witness:
  "\<exists>a m' a'. boot8 = Some a \<and> map_4k Sv39Mapper buddy_alloc_pages demo_root 5 77 [Read] demo_mem a = Some (m', a') \<and>
    lookup Sv39Mapper m' demo_root 5 = Some (PageTableEntry_new 77 True [Read])"
proof -
  obtain a where a: "boot8 = Some a" "pt_inv buddy_free Sv39Mapper demo_root demo_mem a" by (rule demo_inv)
  obtain m' where "map_4k Sv39Mapper buddy_alloc_pages demo_root 5 77 [Read] demo_mem a = Some (m', a)"
    using demo_map by blast
  with map_4k_maps_one_page [OF _ a(2) this] a(1) show ?thesis by (auto simp: Sv39Mapper_def)
qed



section \<open>Unmapping\<close>

text \<open>C4: \<^verbatim>\<open>unmap_4k\<close> of a mapped page: when it returns, the hardware finds no entry for the page, the
  translation of every other page is unchanged and so is the tree of tables.\<close>

theorem unmap_4k_unmaps_one_page:
  assumes "M = Sv39Mapper \<or> M = Arm64Mapper" "unmap_4k M dealloc root vpn m s = Some (m', s')"
    and "distinct (pt_pages M m (LEVEL M - 1) (root div PAGE_SIZE))" "lookup M m root vpn \<noteq> None"
  shows "lookup M m' root vpn = None \<and> (\<forall>w. \<not> same_page M vpn w \<longrightarrow> lookup M m' root w = lookup M m root w) \<and>
    pt_pages M m' (LEVEL M - 1) (root div PAGE_SIZE) = pt_pages M m (LEVEL M - 1) (root div PAGE_SIZE)"
  using assms(1)
proof
  assume M: "M = Sv39Mapper"
  show ?thesis
    using sv39_buddy.unmap_4k_correct [OF mapper_levels(1,5) assms(2-4) [unfolded M]] unfolding M by blast
next
  assume M: "M = Arm64Mapper"
  show ?thesis
    using arm64_buddy.unmap_4k_correct [OF mapper_levels(2,6) assms(2-4) [unfolded M]] unfolding M by blast
qed

text \<open>The demo page table with one page mapped.\<close>

definition demo_leaf :: u64 where "demo_leaf = PageTableEntry_new 77 True [Read]"

definition demo_mapped :: pt_mem where
  "demo_mapped = demo_mem(PAGE_OFFSET + 2 := (\<lambda>_. 0)(5 := demo_leaf))"

lemma demo_mapped_rows:
  "demo_mapped PAGE_OFFSET = (\<lambda>_. 0)(0 := demo_entry 1)" "demo_mapped (PAGE_OFFSET + 1) = (\<lambda>_. 0)(0 := demo_entry 2)"
  "demo_mapped (PAGE_OFFSET + 2) = (\<lambda>_. 0)(5 := demo_leaf)"
  by (simp_all add: demo_mapped_def demo_mem_def)

lemma demo_mapped_pages: "pt_pages Sv39Mapper demo_mapped (LEVEL Sv39Mapper - 1) (demo_root div PAGE_SIZE) =
  [PAGE_OFFSET, PAGE_OFFSET + 1, PAGE_OFFSET + 2]"
proof -
  have "LEVEL Sv39Mapper - 1 = Suc (Suc 0)" by (simp add: Sv39Mapper_def)
  moreover have "pt_pages Sv39Mapper demo_mapped (Suc 0) (PAGE_OFFSET + 1) = [PAGE_OFFSET + 1, PAGE_OFFSET + 2]"
    using sv39_buddy.pt_pages_one [of demo_mapped "PAGE_OFFSET + 1" "demo_entry 2" 0, OF demo_mapped_rows(2) demo_child(2)]
      demo_child(1) [of 2] by simp
  moreover have "pt_pages Sv39Mapper demo_mapped (Suc (Suc 0)) PAGE_OFFSET =
      PAGE_OFFSET # pt_pages Sv39Mapper demo_mapped (Suc 0) (PAGE_OFFSET + 1)"
    using sv39_buddy.pt_pages_one [of demo_mapped PAGE_OFFSET "demo_entry 1" "Suc 0", OF demo_mapped_rows(1) demo_child(2)]
      demo_child(1) [of 1] by (simp del: pt_pages.simps)
  ultimately show ?thesis unfolding demo_root_page by simp
qed

lemma demo_index0: "pt_index Sv39Mapper 0 5 = 5"
  by (simp add: pt_index_def Sv39Mapper_def)

lemma demo_walk: "walk_to Sv39Mapper demo_mapped (Suc (Suc 0)) 0 PAGE_OFFSET 5 = PAGE_OFFSET + 2"
  "walk_to Sv39Mapper demo_mapped (Suc (Suc 0)) (Suc 0) PAGE_OFFSET 5 = PAGE_OFFSET + 1"
  using demo_mapped_rows demo_child(1) [of 1] demo_child(1) [of 2] by (simp_all add: demo_index)

lemma demo_lookup: "lookup Sv39Mapper demo_mapped demo_root 5 = Some demo_leaf"
proof -
  have "LEVEL Sv39Mapper - 1 = Suc (Suc 0)" "Entry_is_valid Sv39Mapper demo_leaf"
    by (simp_all add: Sv39Mapper_def demo_leaf_def sv39_new_valid)
  then show ?thesis
    using demo_mapped_rows demo_child(1) [of 1] demo_child(1) [of 2] demo_child(2)
    by (simp add: lookup_def demo_root_page demo_index demo_index0 Let_def)
qed

text \<open>An allocator that only records what is given back.\<close>

definition log_free :: "nat list \<Rightarrow> nat \<Rightarrow> nat \<Rightarrow> nat list option" where
  "log_free s p n = Some (p # s)"

lemma demo_unmap: "\<exists>m' s'. unmap_4k Sv39Mapper log_free demo_root 5 demo_mapped [] = Some (m', s')"
proof (rule sv39_buddy.unmap_4k_total [OF mapper_levels(1,5)])
  have l: "LEVEL Sv39Mapper - 1 = Suc (Suc 0)" by (simp add: Sv39Mapper_def)
  show "PAGE_OFFSET \<le> walk_to Sv39Mapper demo_mapped (LEVEL Sv39Mapper - 1) k (demo_root div PAGE_SIZE) 5"
    if "k < LEVEL Sv39Mapper - 1" for k
    using that demo_walk unfolding l demo_root_page by (auto simp: less_Suc_eq simp del: walk_to.simps)
qed (simp add: log_free_def)

theorem unmap_4k_unmaps_one_page_witness:
  "\<exists>m' s'. unmap_4k Sv39Mapper log_free demo_root 5 demo_mapped [] = Some (m', s') \<and> lookup Sv39Mapper m' demo_root 5 = None"
proof -
  obtain m' s' where run: "unmap_4k Sv39Mapper log_free demo_root 5 demo_mapped [] = Some (m', s')" using demo_unmap by blast
  with unmap_4k_unmaps_one_page [OF _ run] show ?thesis
    by (simp add: demo_mapped_pages [simplified] demo_lookup)
qed

text \<open>When the page unmapped was the only one in its leaf table, \<^verbatim>\<open>unmap_4k\<close> gives the table back to the
  allocator, but the entry of the table above still leads to it: the page is free and part of the page table at
  the same time, and it is the only page given back.\<close>

theorem unmap_4k_frees_linked_table:
  assumes "M = Sv39Mapper \<or> M = Arm64Mapper" "unmap_4k M dealloc root vpn m s = Some (m', s')"
    and "distinct (pt_pages M m (LEVEL M - 1) (root div PAGE_SIZE))" "lookup M m root vpn \<noteq> None"
    and "q = walk_to M m (LEVEL M - 1) 0 (root div PAGE_SIZE) vpn"
    and "\<And>j. j < PTES_PER_DIR M \<Longrightarrow> j \<noteq> pt_index M 0 vpn \<Longrightarrow> \<not> Entry_is_valid M (m q j)"
  shows "dealloc s q 1 = Some s' \<and> q \<in> set (pt_pages M m' (LEVEL M - 1) (root div PAGE_SIZE))"
  using assms(1)
proof
  assume M: "M = Sv39Mapper"
  show ?thesis
    using sv39_buddy.unmap_4k_dangling [OF mapper_levels(3,5) assms(2-6) [unfolded M]] unfolding M by blast
next
  assume M: "M = Arm64Mapper"
  show ?thesis
    using arm64_buddy.unmap_4k_dangling [OF mapper_levels(4,6) assms(2-6) [unfolded M]] unfolding M by blast
qed

theorem unmap_4k_frees_linked_table_witness:
  "\<exists>m' s'. unmap_4k Sv39Mapper log_free demo_root 5 demo_mapped [] = Some (m', s') \<and> s' = [PAGE_OFFSET + 2] \<and>
    PAGE_OFFSET + 2 \<in> set (pt_pages Sv39Mapper m' (LEVEL Sv39Mapper - 1) (demo_root div PAGE_SIZE))"
proof -
  have l: "LEVEL Sv39Mapper - 1 = Suc (Suc 0)" by (simp add: Sv39Mapper_def)
  obtain m' s' where run: "unmap_4k Sv39Mapper log_free demo_root 5 demo_mapped [] = Some (m', s')" using demo_unmap by blast
  have "log_free [] (PAGE_OFFSET + 2) 1 = Some s' \<and>
      PAGE_OFFSET + 2 \<in> set (pt_pages Sv39Mapper m' (LEVEL Sv39Mapper - 1) (demo_root div PAGE_SIZE))"
  proof (rule unmap_4k_frees_linked_table [OF _ run])
    show "PAGE_OFFSET + 2 = walk_to Sv39Mapper demo_mapped (LEVEL Sv39Mapper - 1) 0 (demo_root div PAGE_SIZE) 5"
      unfolding l demo_root_page by (rule demo_walk(1) [symmetric])
    show "\<not> Entry_is_valid Sv39Mapper (demo_mapped (PAGE_OFFSET + 2) j)" if "j \<noteq> pt_index Sv39Mapper 0 5" for j
      using that unfolding demo_mapped_rows(3) demo_index0 by simp
  qed (simp_all add: demo_mapped_pages [simplified] demo_lookup)
  then show ?thesis using run by (simp add: log_free_def)
qed

section \<open>Destroying\<close>

text \<open>What the loop of \<^verbatim>\<open>destroy_with_allocator\<close> amounts to on three levels: the leaf tables of every level-1 table in
  turn, then the root.\<close>

definition sub_table :: "pt_mem \<Rightarrow> table \<Rightarrow> nat \<Rightarrow> table" where
  "sub_table m t i = Table_from_page (PageTableEntry_page_number (get_entry m t i) + PAGE_OFFSET)"

fun free_subtables :: "'s free_op \<Rightarrow> pt_mem \<Rightarrow> table \<Rightarrow> nat list \<Rightarrow> 's \<Rightarrow> 's option" where
  "free_subtables dealloc m root [] s = Some s"
| "free_subtables dealloc m root (i # is) s = do {
     s \<leftarrow> (if PageTableEntry_is_valid (get_entry m root i)
           then free_entries Sv39Mapper dealloc m (sub_table m root i) [0..<512] s else Some s);
     free_subtables dealloc m root is s
   }"

lemma sv39_virt: "virt_from_phys PAGE_OFFSET (PageTableEntry_page_number e) = Some (PageTableEntry_page_number e + PAGE_OFFSET)"
  using sv39_buddy.virt_from_phys_entry [of e] by (simp add: Sv39Mapper_def)

lemma destroy_loop_sv39:
  assumes "length (page_tables st) = 5" "length (indexes st) = 5" "current_level st = 2"
    and "page_tables st ! 2 = root" "indexes st ! 2 = 512 - n" "n \<le> 512"
    and root: "PAGE_OFFSET \<le> root div PAGE_SIZE" "root div PAGE_SIZE < 2 ^ 52"
  shows "destroy_loop Sv39Mapper dealloc m st = do {
    s \<leftarrow> free_subtables dealloc m root [512 - n..<512] (the_alloc st); dealloc s (root div PAGE_SIZE) 1 }"
  using assms(1-6)
proof (induction n arbitrary: st)
  case 0
  have "Table_page_number root = Some (root div PAGE_SIZE - PAGE_OFFSET)"
    using root by (simp add: Table_page_number_def phys_from_virt_def drop_bit_eq_div PAGE_SIZE_def)
  moreover have "virt_from_phys PAGE_OFFSET (root div PAGE_SIZE - PAGE_OFFSET) = Some (root div PAGE_SIZE)"
    using root by (simp add: virt_from_phys_def)
  ultimately show ?case using 0 by (subst destroy_loop.simps) (simp add: Sv39Mapper_def)
next
  case (Suc n)
  let ?i = "512 - Suc n"
  have i: "?i < 512" "Suc ?i = 512 - n" using Suc.prems(6) by simp_all
  have range: "[?i..<512] = ?i # [512 - n..<512]" using i by (simp add: upt_conv_Cons)
  show ?case
  proof (cases "PageTableEntry_is_valid (get_entry m root ?i)")
    case False
    let ?st = "st\<lparr>indexes := (indexes st)[2 := Suc ?i]\<rparr>"
    have "destroy_loop Sv39Mapper dealloc m st = destroy_loop Sv39Mapper dealloc m ?st"
      using Suc.prems i(1) False by (subst destroy_loop.simps) (simp add: Sv39Mapper_def)
    also have "\<dots> = do { s \<leftarrow> free_subtables dealloc m root [512 - n..<512] (the_alloc ?st); dealloc s (root div PAGE_SIZE) 1 }"
      using Suc.prems i by (intro Suc.IH) auto
    finally show ?thesis unfolding range using False by simp
  next
    case True
    let ?t = "sub_table m root ?i"
    let ?st = "st\<lparr>current_level := 1, page_tables := (page_tables st)[1 := ?t]\<rparr>"
    have down: "destroy_loop Sv39Mapper dealloc m st = destroy_loop Sv39Mapper dealloc m ?st"
      using Suc.prems i(1) True by (subst destroy_loop.simps) (simp add: Sv39Mapper_def sv39_virt sub_table_def)
    show ?thesis
    proof (cases "free_entries Sv39Mapper dealloc m ?t [0..<512] (the_alloc st)")
      case None
      then have "destroy_loop Sv39Mapper dealloc m ?st = None"
        using Suc.prems by (subst destroy_loop.simps) (simp add: Sv39Mapper_def)
      with down True None show ?thesis unfolding range by simp
    next
      case (Some s1)
      let ?up = "?st\<lparr>current_level := 2, indexes := (indexes st)[2 := Suc ?i], the_alloc := s1\<rparr>"
      have "destroy_loop Sv39Mapper dealloc m ?st = destroy_loop Sv39Mapper dealloc m ?up"
        using Suc.prems Some by (subst destroy_loop.simps) (simp add: Sv39Mapper_def numeral_2_eq_2)
      also have "\<dots> = do { s \<leftarrow> free_subtables dealloc m root [512 - n..<512] (the_alloc ?up); dealloc s (root div PAGE_SIZE) 1 }"
        using Suc.prems i by (intro Suc.IH) auto
      finally show ?thesis using down True Some unfolding range by simp
    qed
  qed
qed

definition valid_slots :: "pt_mem \<Rightarrow> table \<Rightarrow> nat list" where
  "valid_slots m t = filter (\<lambda>i. PageTableEntry_is_valid (get_entry m t i)) [0..<512]"

definition slot_page :: "pt_mem \<Rightarrow> table \<Rightarrow> nat \<Rightarrow> nat" where
  "slot_page m t i = PageTableEntry_page_number (get_entry m t i) + PAGE_OFFSET"

definition leaf_tables :: "pt_mem \<Rightarrow> table \<Rightarrow> nat list" where
  "leaf_tables m root = concat (map (\<lambda>i. map (slot_page m (sub_table m root i)) (valid_slots m (sub_table m root i))) (valid_slots m root))"

lemma free_entries_log:
  "free_entries Sv39Mapper log_free m t is s =
   Some (rev (map (slot_page m t) (filter (\<lambda>i. PageTableEntry_is_valid (get_entry m t i)) is)) @ s)"
  by (induction "is" arbitrary: s) (auto simp: Sv39Mapper_def log_free_def sv39_virt slot_page_def)

lemma free_subtables_log:
  "free_subtables log_free m root is s =
   Some (rev (concat (map (\<lambda>i. map (slot_page m (sub_table m root i)) (valid_slots m (sub_table m root i)))
     (filter (\<lambda>i. PageTableEntry_is_valid (get_entry m root i)) is))) @ s)"
  by (induction "is" arbitrary: s) (simp_all add: free_entries_log valid_slots_def)

lemma destroy_log:
  assumes "PAGE_OFFSET \<le> root div PAGE_SIZE" "root div PAGE_SIZE < 2 ^ 52"
  shows "destroy_with_allocator Sv39Mapper log_free root m [] = Some (root div PAGE_SIZE # rev (leaf_tables m root))"
proof -
  let ?st = "\<lparr>current_level = 2, page_tables = (replicate 5 Table_empty)[2 := root], indexes = replicate 5 0, the_alloc = []\<rparr>"
  have "destroy_with_allocator Sv39Mapper log_free root m [] = destroy_loop Sv39Mapper log_free m ?st"
    by (simp add: destroy_with_allocator_def Sv39Mapper_def MAX_SUPPORTED_LEVEL_def)
  also have "\<dots> = do { s \<leftarrow> free_subtables log_free m root [512 - 512..<512] (the_alloc ?st); log_free s (root div PAGE_SIZE) 1 }"
    by (rule destroy_loop_sv39 [OF _ _ _ _ _ _ assms]) simp_all
  finally show ?thesis by (simp add: free_subtables_log log_free_def leaf_tables_def valid_slots_def)
qed

text \<open>C9: \<^verbatim>\<open>destroy_with_allocator\<close> on an SV39 page table terminates, and the pages it gives back are, in
  this order, the leaf tables and the root. The tables of the level between are not given back.\<close>

theorem destroy_sv39_frees:
  assumes "PAGE_OFFSET \<le> root div PAGE_SIZE" "root div PAGE_SIZE < 2 ^ 52"
  shows "destroy_with_allocator Sv39Mapper log_free root m [] = Some (root div PAGE_SIZE # rev (leaf_tables m root))"
  by (rule destroy_log [OF assms])

theorem destroy_sv39_frees_witness:
  "destroy_with_allocator Sv39Mapper log_free demo_root demo_mapped [] =
   Some (PAGE_OFFSET # rev (leaf_tables demo_mapped demo_root))"
  using destroy_sv39_frees [of demo_root demo_mapped] unfolding demo_root_page by (simp add: PAGE_OFFSET_eq)

lemma concat_map_filter: "concat (map (\<lambda>i. if P i then [f i] else []) xs) = map f (filter P xs)"
  by (induction xs) auto

text \<open>Destroying an SV39 page table leaks: no level-1 table of a well-formed page table is among the
  pages \<^verbatim>\<open>destroy_with_allocator\<close> gives back.\<close>

theorem destroy_sv39_leaks:
  assumes dist: "distinct (pt_pages Sv39Mapper m (LEVEL Sv39Mapper - 1) (root div PAGE_SIZE))"
    and bound: "\<And>q i. PageTableEntry_page_number (m q i) + PAGE_OFFSET < 2 ^ 52"
    and freed: "destroy_with_allocator Sv39Mapper log_free root m [] = Some L"
    and root: "PAGE_OFFSET \<le> root div PAGE_SIZE" "root div PAGE_SIZE < 2 ^ 52"
    and i: "i \<in> set (valid_slots m root)"
  shows "slot_page m root i \<in> set (pt_pages Sv39Mapper m (LEVEL Sv39Mapper - 1) (root div PAGE_SIZE)) - set L"
proof -
  let ?R = "root div PAGE_SIZE"
  let ?sub = "sv39_buddy.sub_pages m (Suc 0) ?R"
  have lv: "LEVEL Sv39Mapper - 1 = Suc (Suc 0)" and n: "PTES_PER_DIR Sv39Mapper = 512" by (simp_all add: Sv39Mapper_def)
  have child: "child_page Sv39Mapper (m q j) = PageTableEntry_page_number (m q j) + PAGE_OFFSET" for q j
    using bound [of q j] by (simp add: child_page_def Sv39Mapper_def)
  have slot: "slot_page m t j = child_page Sv39Mapper (m (t div PAGE_SIZE) j)" for t j
    by (simp add: slot_page_def get_entry_def child)
  have sub_page: "sub_table m root j div PAGE_SIZE = slot_page m root j" for j
    using bound [of ?R j] by (simp add: sub_table_def slot_page_def get_entry_def Table_from_page_page)
  have valid: "Entry_is_valid Sv39Mapper e = PageTableEntry_is_valid e" for e by (simp add: Sv39Mapper_def)
  have vs: "j \<in> set (valid_slots m t) \<longleftrightarrow> j < 512 \<and> Entry_is_valid Sv39Mapper (m (t div PAGE_SIZE) j)" for t j
    by (auto simp: valid_slots_def get_entry_def Sv39Mapper_def)
  have sub: "?sub j = slot_page m root j # map (slot_page m (sub_table m root j)) (valid_slots m (sub_table m root j))"
    if j: "j \<in> set (valid_slots m root)" for j
  proof -
    have "?sub j = pt_pages Sv39Mapper m (Suc 0) (slot_page m root j)"
      using j vs by (simp add: sv39_buddy.sub_pages_def slot del: pt_pages.simps)
    also have "\<dots> = slot_page m root j # map (slot_page m (sub_table m root j)) (valid_slots m (sub_table m root j))"
      using concat_map_filter [of "\<lambda>i. Entry_is_valid Sv39Mapper (m (slot_page m root j) i)"
        "\<lambda>i. child_page Sv39Mapper (m (slot_page m root j) i)" "[0..<512]"]
      by (simp add: n slot [of "sub_table m root j"] sub_page valid_slots_def get_entry_def valid cong: if_cong)
    finally show ?thesis .
  qed
  note d = dist [unfolded lv sv39_buddy.distinct_pt_pages n]
  note d1 = d [THEN conjunct1, rule_format] and d2 = d [THEN conjunct2, rule_format]
  have i512: "j < 512" if "j \<in> set (valid_slots m root)" for j using that vs by blast
  have mem: "slot_page m root i \<in> set (?sub i)" using sub [OF i] by simp
  have "slot_page m root i \<notin> set (leaf_tables m root)"
  proof
    assume "slot_page m root i \<in> set (leaf_tables m root)"
    then obtain j where j: "j \<in> set (valid_slots m root)"
      "slot_page m root i \<in> set (map (slot_page m (sub_table m root j)) (valid_slots m (sub_table m root j)))"
      by (auto simp: leaf_tables_def)
    with sub have "slot_page m root i \<in> set (?sub j)" by simp
    then have "i = j" using mem d2 [OF i512 [OF i] i512 [OF j(1)]] by (cases "i = j") auto
    moreover have "distinct (?sub i)" using d1 [OF i512 [OF i]] by simp
    ultimately show False using sub [OF i] j(2) by simp
  qed
  moreover have "slot_page m root i \<noteq> ?R" using d1 [OF i512 [OF i]] mem by auto
  moreover have "L = ?R # rev (leaf_tables m root)" using destroy_log [OF root] freed by simp
  moreover have "slot_page m root i \<in> set (pt_pages Sv39Mapper m (Suc (Suc 0)) ?R)"
    unfolding sv39_buddy.set_pt_pages n using mem i512 [OF i] by blast
  ultimately show ?thesis unfolding lv by simp
qed

theorem destroy_sv39_leaks_witness:
  "\<exists>L. destroy_with_allocator Sv39Mapper log_free demo_root demo_mapped [] = Some L \<and> PAGE_OFFSET + 1 \<notin> set L"
proof -
  obtain L where L: "destroy_with_allocator Sv39Mapper log_free demo_root demo_mapped [] = Some L"
    using destroy_log [of demo_root demo_mapped] unfolding demo_root_page by (simp add: PAGE_OFFSET_eq)
  have pn: "PageTableEntry_page_number (demo_entry k) = k" "PageTableEntry_is_valid (demo_entry k)" if "k < 2 ^ 20" for k
    using that sv39_page_number [of k False "[]"] sv39_new_valid [of k False "[]"] by (simp_all add: demo_entry_def)
  have slot: "slot_page demo_mapped demo_root 0 = PAGE_OFFSET + 1" "0 \<in> set (valid_slots demo_mapped demo_root)"
    using pn [of 1] demo_mapped_rows(1) by (simp_all add: slot_page_def get_entry_def demo_root_page valid_slots_def)
  have "PageTableEntry_page_number demo_leaf = 77" using sv39_page_number [of 77] by (simp add: demo_leaf_def)
  moreover have "PageTableEntry_page_number 0 = 0" by (simp add: PageTableEntry_page_number_def)
  ultimately have "PageTableEntry_page_number (demo_mapped q i) + PAGE_OFFSET < 2 ^ 52" for q i
    using pn [of 1] pn [of 2] by (simp add: demo_mapped_def demo_mem_def PAGE_OFFSET_eq)
  then have "slot_page demo_mapped demo_root 0 \<in>
      set (pt_pages Sv39Mapper demo_mapped (LEVEL Sv39Mapper - 1) (demo_root div PAGE_SIZE)) - set L"
    using L slot(2) demo_mapped_pages by (intro destroy_sv39_leaks) (simp_all add: demo_root_page, simp_all add: PAGE_OFFSET_eq)
  with slot(1) L show ?thesis by auto
qed

end
