(* ===== verification/Kmsg.thy ===== *)
theory Kmsg
  imports Kernel_Prelude
begin

text \<open>
  The kernel log of \<^verbatim>\<open>src/src/kmsg.rs\<close>: a bounded queue of messages and the text form of a message.

  The \<^verbatim>\<open>VecDeque\<close> is a list, oldest message first. The output handler is a device outside of this component;
  what matters of it is what is printed on it, so \<open>output_handler\<close> is the list of printed lines, if there is a
  handler. The clock is an argument of \<open>add_message\<close>. The lemmas show that the queue always holds the most recent
  messages, whatever the limits set in between, and that the time stamp of a line can be read back.
\<close>

section \<open>Messages\<close>

datatype KernelMessageLevel = Fatal | Error | Warning | Debug

record KernelMessageEntry =
  level :: KernelMessageLevel
  time :: nat
  message :: string
  module :: "string option"

definition KernelMessageEntry_new :: "string option \<Rightarrow> nat \<Rightarrow> KernelMessageLevel \<Rightarrow> string \<Rightarrow> KernelMessageEntry" where
  "KernelMessageEntry_new mo t l msg = \<lparr>level = l, time = t, message = msg, module = mo\<rparr>"

definition digit :: "nat \<Rightarrow> char" where
  "digit d = char_of (48 + d)"

fun show_nat :: "nat \<Rightarrow> string" where
  "show_nat n = (if n < 10 then [digit n] else show_nat (n div 10) @ [digit (n mod 10)])"

declare show_nat.simps [simp del]

definition pad :: "char \<Rightarrow> nat \<Rightarrow> string \<Rightarrow> string" where
  \<comment> \<open>\<open>{:5}\<close> fills with blanks, \<open>{:06}\<close> with zeros, both on the left\<close>
  "pad c width s = replicate (width - length s) c @ s"

definition fmt :: "KernelMessageEntry \<Rightarrow> string" where
  "fmt e = ''['' @ pad (CHR '' '') 5 (show_nat (time e div 1000000000)) @ ''.'' @
     pad (CHR ''0'') 6 (show_nat (time e mod 1000000000 div 1000)) @ ''] '' @
     (case module e of None \<Rightarrow> [] | Some mo \<Rightarrow> mo @ '': '') @ message e"

section \<open>The log\<close>

record KernelMessage =
  msgs :: "KernelMessageEntry list"
  max_log :: nat
  output_handler :: "string list option"

definition KMSG_MAX :: nat where "KMSG_MAX = 1024"

definition KernelMessage_default :: KernelMessage where
  "KernelMessage_default = \<lparr>msgs = [], max_log = KMSG_MAX, output_handler = None\<rparr>"

definition add_message ::
  "KernelMessage \<Rightarrow> nat \<Rightarrow> string option \<Rightarrow> KernelMessageLevel \<Rightarrow> string \<Rightarrow> KernelMessage option" where
  "add_message k now mo l msg = do {
     let q = msgs k @ [KernelMessageEntry_new mo now l msg];
     let q = (if max_log k < length q then tl q else q);
     (case output_handler k of
        None \<Rightarrow> Some (k\<lparr>msgs := q\<rparr>)
      | Some out \<Rightarrow> do {
          rust_assert (q \<noteq> []);
          Some (k\<lparr>msgs := q, output_handler := Some (out @ [fmt (last q)])\<rparr>)
        })
   }"

definition log_fatal :: "KernelMessage \<Rightarrow> nat \<Rightarrow> string option \<Rightarrow> string \<Rightarrow> KernelMessage option" where
  "log_fatal k now mo msg = add_message k now mo Fatal msg"

definition log_error :: "KernelMessage \<Rightarrow> nat \<Rightarrow> string option \<Rightarrow> string \<Rightarrow> KernelMessage option" where
  "log_error k now mo msg = add_message k now mo Error msg"

definition log_warning :: "KernelMessage \<Rightarrow> nat \<Rightarrow> string option \<Rightarrow> string \<Rightarrow> KernelMessage option" where
  "log_warning k now mo msg = add_message k now mo Warning msg"

definition log_debug :: "KernelMessage \<Rightarrow> nat \<Rightarrow> string option \<Rightarrow> string \<Rightarrow> KernelMessage option" where
  "log_debug k now mo msg = add_message k now mo Debug msg"

definition get_messages :: "KernelMessage \<Rightarrow> KernelMessageEntry list" where
  "get_messages k = msgs k"

fun pop_until :: "nat \<Rightarrow> 'a list \<Rightarrow> 'a list" where
  \<comment> \<open>\<open>while self.msgs.len() > self.max_log { pop_front }\<close>\<close>
  "pop_until n [] = []"
| "pop_until n (x # xs) = (if n < length (x # xs) then pop_until n xs else x # xs)"

definition set_max_log :: "KernelMessage \<Rightarrow> nat \<Rightarrow> KernelMessage" where
  "set_max_log k n = k\<lparr>max_log := n, msgs := pop_until n (msgs k)\<rparr>"

definition get_max_log :: "KernelMessage \<Rightarrow> nat" where
  "get_max_log k = max_log k"

section \<open>The queue\<close>

definition latest :: "nat \<Rightarrow> 'a list \<Rightarrow> 'a list" where
  "latest n xs = drop (length xs - n) xs"

definition log_ok :: "KernelMessage \<Rightarrow> bool" where
  "log_ok k \<longleftrightarrow> length (msgs k) \<le> max_log k"

text \<open>A run of messages, each with the clock at the time it is added.\<close>

type_synonym log_event = "nat \<times> string option \<times> KernelMessageLevel \<times> string"

fun entry_of :: "log_event \<Rightarrow> KernelMessageEntry" where
  "entry_of (now, mo, l, msg) = KernelMessageEntry_new mo now l msg"

fun log_run :: "KernelMessage \<Rightarrow> log_event list \<Rightarrow> KernelMessage option" where
  "log_run k [] = Some k"
| "log_run k ((now, mo, l, msg) # es) = do { k \<leftarrow> add_message k now mo l msg; log_run k es }"

lemma latest_append: "latest n (latest n xs @ ys) = latest n (xs @ ys)"
proof (cases "length xs \<le> n")
  case False
  then have "length (xs @ ys) - n = (length xs - n) + length ys" by simp
  moreover have "length (latest n xs @ ys) - n = length ys" using False by (simp add: latest_def)
  ultimately show ?thesis using False by (simp add: latest_def add.commute)
qed (simp add: latest_def)

lemma latest_length: "length (latest n xs) \<le> n"
  by (simp add: latest_def)

lemma pop_until_latest: "pop_until n xs = latest n xs"
  by (induction n xs rule: pop_until.induct) (auto simp: latest_def Suc_diff_le)

lemma tl_latest: "length xs \<le> n \<Longrightarrow> (if n < length (xs @ [x]) then tl (xs @ [x]) else xs @ [x]) = latest n (xs @ [x])"
proof (cases "n < length (xs @ [x])")
  case True
  moreover assume "length xs \<le> n"
  ultimately have "length (xs @ [x]) - n = 1" by simp
  with True show ?thesis by (simp only: latest_def if_True drop_Suc One_nat_def) simp
qed (simp add: latest_def)

lemma latest_last: "0 < n \<Longrightarrow> latest n (xs @ [x]) \<noteq> []" "0 < n \<Longrightarrow> last (latest n (xs @ [x])) = x"
  by (simp_all add: latest_def last_drop)

lemma add_message_ok:
  assumes "log_ok k" "output_handler k = None \<or> 0 < max_log k"
  shows "add_message k now mo l msg = Some (k\<lparr>msgs := latest (max_log k) (msgs k @ [KernelMessageEntry_new mo now l msg]),
    output_handler := map_option (\<lambda>out. out @ [fmt (KernelMessageEntry_new mo now l msg)]) (output_handler k)\<rparr>)"
  using assms latest_last [of "max_log k" "msgs k"] tl_latest [of "msgs k" "max_log k"]
  by (cases "output_handler k") (auto simp: add_message_def log_ok_def Let_def)



text \<open>Lowering the limit drops the oldest messages, and with a handler a limit of 0 makes the next message panic.\<close>

lemma set_max_log_latest: "msgs (set_max_log k n) = latest n (msgs k)" "log_ok (set_max_log k n)"
  using latest_length by (auto simp: set_max_log_def pop_until_latest log_ok_def)

section \<open>The time stamp\<close>

definition digit_val :: "char \<Rightarrow> nat" where
  "digit_val c = of_char c - 48"

definition read_nat :: "string \<Rightarrow> nat" where
  "read_nat s = foldl (\<lambda>a c. 10 * a + digit_val c) 0 s"

definition is_digit :: "char \<Rightarrow> bool" where
  "is_digit c \<longleftrightarrow> 48 \<le> (of_char c :: nat) \<and> (of_char c :: nat) \<le> 57"

text \<open>A reader of the lines: the time stamp in microseconds.\<close>

definition read_stamp :: "string \<Rightarrow> nat" where
  "read_stamp s = (let s = dropWhile (\<lambda>c. c = CHR '' '') (tl s)
     in read_nat (takeWhile is_digit s) * 1000000 + read_nat (takeWhile is_digit (tl (dropWhile is_digit s))))"

lemma digit_code: "d < 10 \<Longrightarrow> of_char (digit d) = (48 + d :: nat)"
  by (simp add: digit_def)

lemma digit_facts: "d < 10 \<Longrightarrow> digit_val (digit d) = d" "d < 10 \<Longrightarrow> is_digit (digit d)"
  by (simp_all add: digit_val_def is_digit_def digit_code)

lemma not_digits: "\<not> is_digit (CHR '' '')" "\<not> is_digit (CHR ''.'')" "\<not> is_digit (CHR '']'')" "is_digit (CHR ''0'')"
  "digit_val (CHR ''0'') = 0"
  by (simp_all add: is_digit_def digit_val_def)

lemma show_nat_digits: "c \<in> set (show_nat n) \<Longrightarrow> is_digit c"
proof (induction n rule: show_nat.induct)
  case (1 n)
  then show ?case by (subst (asm) show_nat.simps) (auto simp: digit_facts split: if_splits)
qed

lemma show_nat_ne: "show_nat n \<noteq> []"
  by (subst show_nat.simps) simp

lemma read_show: "read_nat (show_nat n) = n"
proof (induction n rule: show_nat.induct)
  case (1 n)
  then show ?case by (subst show_nat.simps) (simp add: read_nat_def digit_facts)
qed

lemma read_zeros: "read_nat (replicate k (CHR ''0'') @ s) = read_nat s"
proof -
  have "foldl (\<lambda>a c. 10 * a + digit_val c) 0 (replicate k (CHR ''0'')) = 0"
    by (induction k) (simp_all add: not_digits)
  then show ?thesis by (simp add: read_nat_def)
qed

lemma pad_digits: "is_digit c \<Longrightarrow> x \<in> set (pad c w (show_nat n)) \<Longrightarrow> is_digit x"
  using show_nat_digits by (auto simp: pad_def)

lemma digits_prefix:
  assumes "\<And>x. x \<in> set ds \<Longrightarrow> is_digit x" "\<not> is_digit c"
  shows "takeWhile is_digit (ds @ c # rest) = ds" "dropWhile is_digit (ds @ c # rest) = c # rest"
  using assms by (simp_all add: takeWhile_append2 dropWhile_append2)

lemma strip_blanks: "dropWhile (\<lambda>c. c = CHR '' '') (pad (CHR '' '') w (show_nat n) @ rest) = show_nat n @ rest"
proof -
  obtain c cs where s: "show_nat n = c # cs" using show_nat_ne by (cases "show_nat n") auto
  then have "is_digit c" using show_nat_digits [of c n] by simp
  then have "c \<noteq> CHR '' ''" using not_digits(1) by metis
  then have "dropWhile (\<lambda>c. c = CHR '' '') (replicate k (CHR '' '') @ c # cs @ rest) = c # cs @ rest" for k
    by (induction k) simp_all
  then show ?thesis by (simp add: pad_def s)
qed

text \<open>The time stamp of a printed line can be read back: the line of a message gives its time in
  microseconds, whatever its size, module and text.\<close>

theorem fmt_stamp_roundtrip: "read_stamp (fmt e) = time e div 1000"
proof -
  let ?n = "time e div 1000000000" and ?k = "time e mod 1000000000 div 1000"
  obtain rest where rest: "fmt e = CHR ''['' # pad (CHR '' '') 5 (show_nat ?n) @ CHR ''.'' # pad (CHR ''0'') 6 (show_nat ?k) @ CHR '']'' # rest"
    by (simp add: fmt_def)
  let ?tail = "pad (CHR ''0'') 6 (show_nat ?k) @ CHR '']'' # rest"
  have "dropWhile (\<lambda>c. c = CHR '' '') (tl (fmt e)) = show_nat ?n @ CHR ''.'' # ?tail"
    unfolding rest using strip_blanks by simp
  moreover have "takeWhile is_digit (show_nat ?n @ CHR ''.'' # ?tail) = show_nat ?n"
    "dropWhile is_digit (show_nat ?n @ CHR ''.'' # ?tail) = CHR ''.'' # ?tail"
    using digits_prefix [of "show_nat ?n" "CHR ''.''"] show_nat_digits not_digits(2) by blast+
  moreover have "takeWhile is_digit ?tail = pad (CHR ''0'') 6 (show_nat ?k)"
    using digits_prefix(1) [of "pad (CHR ''0'') 6 (show_nat ?k)" "CHR '']''"] pad_digits [OF not_digits(4)] not_digits(3) by blast
  moreover have "read_nat (pad (CHR ''0'') 6 (show_nat ?k)) = ?k"
    by (simp only: pad_def read_zeros read_show)
  ultimately have "read_stamp (fmt e) = ?n * 1000000 + ?k" by (simp add: read_stamp_def Let_def read_show)
  also have "\<dots> = (1000 * (?n * 1000000) + time e mod 1000000000) div 1000"
    using div_mult_self4 [of 1000 "?n * 1000000" "time e mod 1000000000"] by simp
  also have "1000 * (?n * 1000000) + time e mod 1000000000 = time e" by simp
  finally show ?thesis .
qed

end
