(* ===== verification/Byte_Order.thy ===== *)
theory Byte_Order
  imports Kernel_Prelude
begin

text \<open>
  The byte-order conversions of the Rust integers: \<^verbatim>\<open>to_be_bytes\<close>, \<^verbatim>\<open>to_le_bytes\<close>, \<^verbatim>\<open>from_be_bytes\<close> and
  \<^verbatim>\<open>from_le_bytes\<close>, as numbers in base 256, and that reading undoes writing.
\<close>

definition be_nat :: "u8 list \<Rightarrow> nat" where
  "be_nat bs = foldl (\<lambda>a b. 256 * a + unat b) 0 bs"

definition le_nat :: "u8 list \<Rightarrow> nat" where
  "le_nat bs = be_nat (rev bs)"

definition to_be_bytes :: "u32 \<Rightarrow> u8 list" where
  "to_be_bytes w = [ucast (drop_bit 24 w), ucast (drop_bit 16 w), ucast (drop_bit 8 w), ucast w]"

definition to_le_bytes :: "u32 \<Rightarrow> u8 list" where
  "to_le_bytes w = [ucast w, ucast (drop_bit 8 w), ucast (drop_bit 16 w), ucast (drop_bit 24 w)]"

definition u64_to_be_bytes :: "u64 \<Rightarrow> u8 list" where
  "u64_to_be_bytes w = to_be_bytes (ucast (drop_bit 32 w)) @ to_be_bytes (ucast w)"

definition from_be_bytes :: "u8 list \<Rightarrow> u32" where
  "from_be_bytes bs = foldl (\<lambda>a b. 256 * a + ucast b) 0 bs"

definition from_le_bytes :: "u8 list \<Rightarrow> u32" where
  "from_le_bytes bs = from_be_bytes (rev bs)"

lemma from_be_bytes_nat: "from_be_bytes bs = of_nat (be_nat bs)"
  by (induction bs rule: rev_induct) (simp_all add: from_be_bytes_def be_nat_def)

lemma from_le_bytes_nat: "from_le_bytes bs = of_nat (le_nat bs)"
  by (simp add: from_le_bytes_def le_nat_def from_be_bytes_nat)

lemma be_nat_Nil [simp]: "be_nat [] = 0"
  by (simp add: be_nat_def)

lemma be_nat_snoc [simp]: "be_nat (bs @ [b]) = 256 * be_nat bs + unat b"
  by (simp add: be_nat_def)

lemma le_nat_Nil [simp]: "le_nat [] = 0"
  by (simp add: le_nat_def)

lemma le_nat_Cons [simp]: "le_nat (b # bs) = unat b + 256 * le_nat bs"
  by (simp add: le_nat_def)

lemma be_nat_less: "be_nat bs < 256 ^ length bs"
proof (induction bs rule: rev_induct)
  case (snoc b bs)
  have "unat b < 256" using unsigned_less [of b] by simp
  then show ?case using snoc by (simp add: algebra_simps)
qed simp

lemma le_nat_less: "le_nat bs < 256 ^ length bs"
  using be_nat_less [of "rev bs"] by (simp add: le_nat_def)

lemma length_to_bytes [simp]: "length (to_be_bytes w) = 4" "length (to_le_bytes w) = 4" "length (u64_to_be_bytes v) = 8"
  by (simp_all add: to_be_bytes_def to_le_bytes_def u64_to_be_bytes_def)

lemma concat_be_length: "length (concat (map to_be_bytes ws)) = 4 * length ws"
  by (induction ws) simp_all

lemma unat_ucast_byte: "unat (ucast (drop_bit n w) :: u8) = unat (w :: u32) div 2 ^ n mod 256"
proof -
  have "unat (ucast (drop_bit n w) :: u8) = take_bit 8 (unat (drop_bit n w))" by (simp add: unsigned_ucast_eq)
  also have "\<dots> = take_bit 8 (drop_bit n (unat w))" by (simp only: unat_drop_bit_eq)
  finally show ?thesis by (simp add: take_bit_eq_mod drop_bit_eq_div)
qed

lemma base_256:
  assumes "n < 256 ^ 4"
  shows "n mod 256 + 256 * (n div 2 ^ 8 mod 256 + 256 * (n div 2 ^ 16 mod 256 + 256 * (n div 2 ^ 24 mod 256))) = (n :: nat)"
proof -
  let ?a = "n div 256"
  let ?b = "?a div 256"
  have d: "n div 2 ^ 8 = ?a" "n div 2 ^ 16 = ?b" "n div 2 ^ 24 = ?b div 256"
    by (simp_all flip: div_mult2_eq)
  have "?b div 256 < 256" using assms by (simp add: less_mult_imp_div_less flip: div_mult2_eq)
  then have "?b mod 256 + 256 * (?b div 256 mod 256) = ?b" by simp
  then show ?thesis unfolding d by simp
qed

lemma from_le_to_le [simp]: "from_le_bytes (to_le_bytes w) = w"
proof -
  have w: "unat w < 256 ^ 4" using unsigned_less [of w] by simp
  have b0: "unat (ucast w :: u8) = unat w mod 256" using unat_ucast_byte [of 0 w] by simp
  have "le_nat (to_le_bytes w) = unat w"
    using base_256 [OF w] by (simp only: to_le_bytes_def le_nat_Cons le_nat_Nil unat_ucast_byte b0 mult_0_right add_0_right)
  then show ?thesis by (simp add: from_le_bytes_nat)
qed

lemma from_be_to_be [simp]: "from_be_bytes (to_be_bytes w) = w"
proof -
  have "rev (to_be_bytes w) = to_le_bytes w" by (simp add: to_be_bytes_def to_le_bytes_def)
  then have "be_nat (to_be_bytes w) = le_nat (to_le_bytes w)" by (metis le_nat_def rev_rev_ident)
  then show ?thesis using from_le_to_le [of w] by (simp add: from_be_bytes_nat from_le_bytes_nat)
qed

lemma be_nat_append: "be_nat (a @ b) = be_nat a * 256 ^ length b + be_nat b"
  by (induction b rule: rev_induct) (simp_all add: algebra_simps flip: append_assoc)

end
