(* ===== verification/Rand.thy ===== *)
theory Rand
  imports Byte_Order
begin

text \<open>
  The random generator of \<^verbatim>\<open>src/src/rand.rs\<close>, MT19937, with 32-bit words.

  The code keeps the last 624 values of the recurrence in a ring buffer; \<open>mt_seq\<close> is the recurrence itself, as an
  infinite sequence, and \<open>mt_ok\<close> relates the two. The generator's outputs are then the tempered values of the
  sequence, one per call, forever. \<open>random_generator\<close> is the interface the provided methods of the trait
  \<^verbatim>\<open>RandomGenerator\<close> are written against: \<^verbatim>\<open>range_uint32\<close> and \<^verbatim>\<open>gen_bytes\<close> hold for every generator that always
  answers.
\<close>

section \<open>Constants\<close>

definition MT_N :: nat where "MT_N = 624"
definition MT_M :: nat where "MT_M = 397"
definition MT_W :: nat where "MT_W = 32"
definition MT_R :: nat where "MT_R = 31"
definition UMASK :: u32 where "UMASK = push_bit MT_R 0xffffffff"
definition LMASK :: u32 where "LMASK = drop_bit (MT_W - MT_R) 0xffffffff"
definition MT_A :: u32 where "MT_A = 0x9908b0df"
definition MT_U :: nat where "MT_U = 11"
definition MT_S :: nat where "MT_S = 7"
definition MT_T :: nat where "MT_T = 15"
definition MT_L :: nat where "MT_L = 18"
definition MT_B :: u32 where "MT_B = 0x9d2c5680"
definition MT_C :: u32 where "MT_C = 0xefc60000"
definition MT_F :: u32 where "MT_F = 1812433253"
definition SEED :: u32 where "SEED = 0"

section \<open>The generator\<close>

record MT19937 =
  state_array :: "u32 list"
  state_index :: nat

fun seed_loop :: "nat list \<Rightarrow> u32 \<Rightarrow> u32 list \<Rightarrow> u32 list option" where
  "seed_loop [] sd arr = Some arr"
| "seed_loop (i # is) sd arr = do {
     let sd = MT_F * (sd XOR drop_bit (MT_W - 2) sd) + of_nat i;
     arr \<leftarrow> set_opt arr i sd;
     seed_loop is sd arr
   }"

definition mt_seed :: "MT19937 \<Rightarrow> u32 \<Rightarrow> MT19937 option" where
  "mt_seed g sd = do {
     arr \<leftarrow> set_opt (state_array g) 0 sd;
     arr \<leftarrow> seed_loop [1..<MT_N] sd arr;
     Some (g\<lparr>state_array := arr\<rparr>)
   }"

definition MT19937_new :: "u32 \<Rightarrow> MT19937 option" where
  "MT19937_new sd = mt_seed \<lparr>state_array = replicate MT_N 0, state_index = 0\<rparr> sd"

definition mix :: "u32 \<Rightarrow> u32 \<Rightarrow> u32" where
  "mix x x' = (let y = (x AND UMASK) OR (x' AND LMASK)
     in if y AND 1 = 1 then drop_bit 1 y XOR MT_A else drop_bit 1 y)"

definition temper :: "u32 \<Rightarrow> u32" where
  "temper y = (let y = y XOR drop_bit MT_U y;
                   y = y XOR (push_bit MT_S y AND MT_B);
                   y = y XOR (push_bit MT_T y AND MT_C)
               in y XOR drop_bit MT_L y)"

definition random_uint32 :: "MT19937 \<Rightarrow> (u32 \<times> MT19937) option" where
  "random_uint32 g = do {
     let k = state_index g;
     x \<leftarrow> nth_opt (state_array g) k;
     x' \<leftarrow> nth_opt (state_array g) ((k + 1) mod MT_N);
     z \<leftarrow> nth_opt (state_array g) ((k + MT_M) mod MT_N);
     let y = z XOR mix x x';
     arr \<leftarrow> set_opt (state_array g) k y;
     Some (temper y, g\<lparr>state_array := arr, state_index := (k + 1) mod MT_N\<rparr>)
   }"

section \<open>The provided methods\<close>

definition range_uint32 :: "('g \<Rightarrow> (u32 \<times> 'g) option) \<Rightarrow> 'g \<Rightarrow> nat \<Rightarrow> nat \<Rightarrow> (nat \<times> 'g) option" where
  "range_uint32 rnd g lo hi = do {
     (rand, g) \<leftarrow> rnd g;
     range_delta \<leftarrow> usize_sub hi lo;
     rust_assert (range_delta \<noteq> 0);
     rust_assert (lo + unat rand mod range_delta < 2 ^ 32);
     Some (lo + unat rand mod range_delta, g)
   }"

text \<open>\<^verbatim>\<open>while ptr < buf_size\<close> of \<^verbatim>\<open>gen_bytes\<close>; the buffer is replaced from \<open>ptr\<close> on.\<close>

function gen_bytes_loop :: "('g \<Rightarrow> (u32 \<times> 'g) option) \<Rightarrow> 'g \<Rightarrow> u8 list \<Rightarrow> nat \<Rightarrow> (u8 list \<times> 'g) option" where
  "gen_bytes_loop rnd g buf ptr =
     (if ptr < length buf then do {
        let e = min (length buf) (ptr + 4);
        (r, g) \<leftarrow> rnd g;
        gen_bytes_loop rnd g (take ptr buf @ take (e - ptr) (to_be_bytes r) @ drop e buf) (ptr + 4)
      } else Some (buf, g))"
  by pat_completeness auto
termination
  by (relation "measure (\<lambda>(rnd, g, buf, ptr). length buf - ptr)") (auto simp: to_be_bytes_def)

declare gen_bytes_loop.simps [simp del]

definition gen_bytes :: "('g \<Rightarrow> (u32 \<times> 'g) option) \<Rightarrow> 'g \<Rightarrow> u8 list \<Rightarrow> (u8 list \<times> 'g) option" where
  "gen_bytes rnd g buf = gen_bytes_loop rnd g buf 0"

section \<open>The recurrence\<close>

fun mt_seq :: "u32 \<Rightarrow> nat \<Rightarrow> u32" where
  "mt_seq sd 0 = sd"
| "mt_seq sd (Suc n) =
     (if Suc n < 624 then MT_F * (mt_seq sd n XOR drop_bit 30 (mt_seq sd n)) + of_nat (Suc n)
      else mt_seq sd (Suc n - 227) XOR mix (mt_seq sd (Suc n - 624)) (mt_seq sd (Suc n - 623)))"

declare mt_seq.simps [simp del]

text \<open>After \<open>j\<close> calls slot \<open>i\<close> of the buffer holds the latest value whose index is \<open>i\<close> modulo 624.\<close>

definition mt_ok :: "u32 \<Rightarrow> nat \<Rightarrow> MT19937 \<Rightarrow> bool" where
  "mt_ok sd j g \<longleftrightarrow> length (state_array g) = MT_N \<and> state_index g = j mod MT_N \<and>
     (\<forall>i. j \<le> i \<and> i < j + MT_N \<longrightarrow> state_array g ! (i mod MT_N) = mt_seq sd i)"

lemma seed_loop_spec:
  assumes "length arr = MT_N" "k \<le> MT_N" "0 < k" "\<forall>i < k. arr ! i = mt_seq sd i" "sk = mt_seq sd (k - 1)"
  shows "\<exists>arr'. seed_loop [k..<MT_N] sk arr = Some arr' \<and> length arr' = MT_N \<and> (\<forall>i < MT_N. arr' ! i = mt_seq sd i)"
  using assms
proof (induction "MT_N - k" arbitrary: k arr sk)
  case 0
  then show ?case by simp
next
  case (Suc m)
  then have k: "k < MT_N" and m: "m = MT_N - Suc k" by simp_all
  obtain k' where k': "k = Suc k'" using Suc.prems(3) by (cases k) auto
  have step: "MT_F * (sk XOR drop_bit (MT_W - 2) sk) + of_nat k = mt_seq sd k"
    using k Suc.prems(5) by (simp add: k' mt_seq.simps(2) MT_W_def MT_N_def)
  have vals: "\<forall>i < Suc k. arr[k := mt_seq sd k] ! i = mt_seq sd i"
    using Suc.prems(1,4) k by (auto simp: less_Suc_eq nth_list_update)
  have "length (arr[k := mt_seq sd k]) = MT_N" "Suc k \<le> MT_N" "mt_seq sd k = mt_seq sd (Suc k - 1)"
    using Suc.prems(1) k by simp_all
  from Suc.hyps(1) [OF m this(1,2) zero_less_Suc vals this(3)] obtain arr' where
    "seed_loop [Suc k..<MT_N] (mt_seq sd k) (arr[k := mt_seq sd k]) = Some arr'" "length arr' = MT_N" "\<forall>i < MT_N. arr' ! i = mt_seq sd i"
    by blast
  then show ?case using k Suc.prems(1) step by (simp add: upt_conv_Cons Let_def)
qed

lemma MT19937_new_ok: "\<exists>g. MT19937_new sd = Some g \<and> mt_ok sd 0 g"
proof -
  have n: "0 < MT_N" "Suc 0 \<le> MT_N" by (simp_all add: MT_N_def)
  then have "\<forall>i < 1. (replicate MT_N 0)[0 := sd] ! i = mt_seq sd i" by (simp add: mt_seq.simps(1))
  from seed_loop_spec [OF _ _ _ this, of sd] obtain arr where
    "seed_loop [1..<MT_N] sd ((replicate MT_N 0)[0 := sd]) = Some arr" "length arr = MT_N" "\<forall>i < MT_N. arr ! i = mt_seq sd i"
    using n by (auto simp: mt_seq.simps(1))
  then show ?thesis using n by (simp add: MT19937_new_def mt_seed_def mt_ok_def)
qed

lemma random_uint32_ok:
  assumes "mt_ok sd j g"
  shows "\<exists>g'. random_uint32 g = Some (temper (mt_seq sd (MT_N + j)), g') \<and> mt_ok sd (Suc j) g'"
proof -
  let ?k = "j mod MT_N"
  have len: "length (state_array g) = MT_N" and idx: "state_index g = ?k" using assms by (simp_all add: mt_ok_def)
  have val: "state_array g ! (i mod MT_N) = mt_seq sd i" if "j \<le> i" "i < j + MT_N" for i using assms that by (simp add: mt_ok_def)
  have n: "0 < MT_N" "MT_M < MT_N" "MT_N = 624" "MT_M = 397" by (simp_all add: MT_N_def MT_M_def)
  have x: "state_array g ! ?k = mt_seq sd j" "state_array g ! ((?k + 1) mod MT_N) = mt_seq sd (Suc j)"
    "state_array g ! ((?k + MT_M) mod MT_N) = mt_seq sd (j + MT_M)"
    using val [of j] val [of "Suc j"] val [of "j + MT_M"] n by (simp_all add: mod_simps)
  have "mt_seq sd (MT_N + j) = mt_seq sd (j + MT_M) XOR mix (mt_seq sd j) (mt_seq sd (Suc j))"
  proof -
    have "MT_N + j = Suc (623 + j)" "Suc (623 + j) - 227 = j + MT_M" "Suc (623 + j) - 624 = j" "Suc (623 + j) - 623 = Suc j"
      "\<not> Suc (623 + j) < 624" using n by simp_all
    then show ?thesis by (simp only: mt_seq.simps(2) if_False)
  qed
  then have run: "random_uint32 g = Some (temper (mt_seq sd (MT_N + j)),
      g\<lparr>state_array := (state_array g)[?k := mt_seq sd (MT_N + j)], state_index := Suc j mod MT_N\<rparr>)"
    using len idx x n by (simp add: random_uint32_def Let_def mod_Suc_eq)
  have "(state_array g)[?k := mt_seq sd (MT_N + j)] ! (i mod MT_N) = mt_seq sd i" if "Suc j \<le> i" "i < Suc j + MT_N" for i
  proof (cases "i = MT_N + j")
    case True
    then show ?thesis using len n by simp
  next
    case False
    with that have "i < j + MT_N" by simp
    moreover have "i mod MT_N \<noteq> ?k"
    proof
      assume "i mod MT_N = ?k"
      then have "MT_N dvd i - j" using that by (simp add: mod_eq_dvd_iff_nat)
      then show False using that \<open>i < j + MT_N\<close> by (auto dest: dvd_imp_le)
    qed
    ultimately show ?thesis using val [of i] that by simp
  qed
  with run len show ?thesis by (simp add: mt_ok_def)
qed

text \<open>\<open>j\<close> calls in a row.\<close>

fun draws :: "('g \<Rightarrow> (u32 \<times> 'g) option) \<Rightarrow> nat \<Rightarrow> 'g \<Rightarrow> (u32 list \<times> 'g) option" where
  "draws rnd 0 g = Some ([], g)"
| "draws rnd (Suc j) g = do { (r, g) \<leftarrow> rnd g; (rs, g) \<leftarrow> draws rnd j g; Some (r # rs, g) }"

lemma draws_ok:
  "mt_ok sd i g \<Longrightarrow> \<exists>g'. draws random_uint32 j g = Some (map (\<lambda>k. temper (mt_seq sd (MT_N + i + k))) [0..<j], g') \<and> mt_ok sd (i + j) g'"
proof (induction j arbitrary: i g)
  case (Suc j)
  obtain g1 where g1: "random_uint32 g = Some (temper (mt_seq sd (MT_N + i)), g1)" "mt_ok sd (Suc i) g1"
    using random_uint32_ok [OF Suc.prems] by blast
  obtain g' where "draws random_uint32 j g1 = Some (map (\<lambda>k. temper (mt_seq sd (MT_N + Suc i + k))) [0..<j], g')" "mt_ok sd (Suc i + j) g'"
    using Suc.IH [OF g1(2)] by blast
  moreover have "map (\<lambda>k. temper (mt_seq sd (MT_N + i + k))) [0..<Suc j] =
      temper (mt_seq sd (MT_N + i)) # map (\<lambda>k. temper (mt_seq sd (MT_N + Suc i + k))) [0..<j]"
    by (simp add: upt_conv_Cons map_Suc_upt [symmetric] del: upt_Suc)
  ultimately show ?case using g1(1) by simp
qed simp

text \<open>C11: Seeded with any value the generator never panics, and its outputs are, one per call and forever, the
  tempered values of the MT19937 recurrence for that seed: the ring buffer implements the recurrence.\<close>

theorem mt19937_refines_recurrence:
  "\<exists>g g'. MT19937_new sd = Some g \<and>
    draws random_uint32 j g = Some (map (\<lambda>k. temper (mt_seq sd (624 + k))) [0..<j], g') \<and> state_index g' < 624"
proof -
  obtain g where g: "MT19937_new sd = Some g" "mt_ok sd 0 g" using MT19937_new_ok by blast
  obtain g' where "draws random_uint32 j g = Some (map (\<lambda>k. temper (mt_seq sd (MT_N + 0 + k))) [0..<j], g')" "mt_ok sd (0 + j) g'"
    using draws_ok [OF g(2)] by blast
  then show ?thesis using g(1) by (auto simp: mt_ok_def MT_N_def)
qed

section \<open>The interface of a generator\<close>

locale random_generator =
  fixes ok :: "'g \<Rightarrow> bool" and rnd :: "'g \<Rightarrow> (u32 \<times> 'g) option"
  assumes answers: "ok g \<Longrightarrow> \<exists>r g'. rnd g = Some (r, g') \<and> ok g'"
begin

lemma range_in:
  assumes "ok g" "lo < hi" "hi < 2 ^ 32"
  shows "\<exists>x g'. range_uint32 rnd g lo hi = Some (x, g') \<and> lo \<le> x \<and> x < hi \<and> ok g'"
proof -
  obtain r g' where r: "rnd g = Some (r, g')" "ok g'" using answers [OF assms(1)] by blast
  have "unat r mod (hi - lo) < hi - lo" using assms(2) by simp
  then have "lo + unat r mod (hi - lo) < hi" using assms(2) by linarith
  with r assms show ?thesis by (simp add: range_uint32_def)
qed

lemma draws_answers: "ok g \<Longrightarrow> \<exists>rs g'. draws rnd j g = Some (rs, g') \<and> length rs = j \<and> ok g'"
proof (induction j arbitrary: g)
  case (Suc j)
  then show ?case using answers [OF Suc.prems] Suc.IH by (metis (no_types, lifting) bind.bind_lunit case_prod_conv draws.simps(2) length_Cons)
qed simp

lemma words_left: "0 < n \<Longrightarrow> (n + 3) div 4 = Suc ((n - 4 + 3) div (4 :: nat))"
  by presburger

lemma gen_bytes_loop_spec:
  assumes "ok g"
  shows "\<exists>rs g'. draws rnd ((length buf - ptr + 3) div 4) g = Some (rs, g') \<and> ok g' \<and>
    gen_bytes_loop rnd g buf ptr = Some (take ptr buf @ take (length buf - ptr) (concat (map to_be_bytes rs)), g')"
  using assms
proof (induction "length buf - ptr" arbitrary: g buf ptr rule: less_induct)
  case less
  show ?case
  proof (cases "ptr < length buf")
    case False
    then show ?thesis using less.prems by (simp add: gen_bytes_loop.simps [of rnd])
  next
    case True
    obtain r g1 where r: "rnd g = Some (r, g1)" "ok g1" using answers [OF less.prems] by blast
    let ?e = "min (length buf) (ptr + 4)" and ?n = "length buf - (ptr + 4)"
    let ?b = "take ptr buf @ take (?e - ptr) (to_be_bytes r) @ drop ?e buf"
    have len: "length ?b = length buf" using True by (auto simp: to_be_bytes_def)
    have "length ?b - (ptr + 4) < length buf - ptr" unfolding len using True by simp
    from less.hyps [OF this r(2)] obtain rs g' where rs: "draws rnd ((?n + 3) div 4) g1 = Some (rs, g')" "ok g'"
      "gen_bytes_loop rnd g1 ?b (ptr + 4) = Some (take (ptr + 4) ?b @ take ?n (concat (map to_be_bytes rs)), g')"
      unfolding len by blast
    have "(length buf - ptr + 3) div 4 = Suc ((?n + 3) div 4)" using words_left [of "length buf - ptr"] True by simp
    then have d: "draws rnd ((length buf - ptr + 3) div 4) g = Some (r # rs, g')"
      using r(1) rs(1) by (simp only: draws.simps bind.bind_lunit case_prod_conv)
    have "take (ptr + 4) ?b = take ptr buf @ take (length buf - ptr) (to_be_bytes r)"
      using True by (auto simp: to_be_bytes_def min_def)
    moreover have "length (to_be_bytes r) = 4" by (simp add: to_be_bytes_def)
    ultimately have "take (ptr + 4) ?b @ take ?n (concat (map to_be_bytes rs)) =
        take ptr buf @ take (length buf - ptr) (concat (map to_be_bytes (r # rs)))" by simp
    with r(1) rs(3) True have "gen_bytes_loop rnd g buf ptr =
        Some (take ptr buf @ take (length buf - ptr) (concat (map to_be_bytes (r # rs))), g')"
      by (subst gen_bytes_loop.simps) (simp add: Let_def)
    with d rs(2) show ?thesis by blast
  qed
qed

lemma gen_bytes_draws:
  assumes "ok g"
  shows "\<exists>rs g'. draws rnd ((length buf + 3) div 4) g = Some (rs, g') \<and> ok g' \<and>
    gen_bytes rnd g buf = Some (take (length buf) (concat (map to_be_bytes rs)), g')"
  using gen_bytes_loop_spec [OF assms, of buf 0] by (simp add: gen_bytes_def)

lemma gen_bytes_length:
  assumes "ok g"
  shows "\<exists>bs g'. gen_bytes rnd g buf = Some (bs, g') \<and> length bs = length buf \<and> ok g'"
proof -
  obtain rs g' where rs: "draws rnd ((length buf + 3) div 4) g = Some (rs, g')" "ok g'"
    "gen_bytes rnd g buf = Some (take (length buf) (concat (map to_be_bytes rs)), g')"
    using gen_bytes_draws [OF assms] by blast
  moreover have "length rs = (length buf + 3) div 4" using draws_answers [OF assms, of "(length buf + 3) div 4"] rs(1) by auto
  ultimately show ?thesis by (simp add: concat_be_length)
qed

end

text \<open>The MT19937 generator answers forever, from any seed.\<close>

interpretation mt: random_generator "\<lambda>g. \<exists>sd j. mt_ok sd j g" random_uint32
  using random_uint32_ok by unfold_locales blast



text \<open>From any seed \<^verbatim>\<open>gen_bytes\<close> fills a buffer of any length, multiple of four or not, with the big-endian
  bytes of the next outputs of the MT19937 sequence, the last one cut off.\<close>

theorem gen_bytes_fills:
  assumes "MT19937_new sd = Some g"
  shows "\<exists>bs g'. gen_bytes random_uint32 g buf = Some (bs, g') \<and> length bs = length buf \<and>
    bs = take (length buf) (concat (map (\<lambda>k. to_be_bytes (temper (mt_seq sd (624 + k)))) [0..<(length buf + 3) div 4]))"
proof -
  have ok0: "mt_ok sd 0 g" using MT19937_new_ok [of sd] assms by auto
  then have ok: "\<exists>sd j. mt_ok sd j g" by blast
  obtain rs g' where rs: "draws random_uint32 ((length buf + 3) div 4) g = Some (rs, g')"
    "gen_bytes random_uint32 g buf = Some (take (length buf) (concat (map to_be_bytes rs)), g')"
    using mt.gen_bytes_draws [OF ok] by blast
  obtain g2 where "draws random_uint32 ((length buf + 3) div 4) g =
      Some (map (\<lambda>k. temper (mt_seq sd (MT_N + 0 + k))) [0..<(length buf + 3) div 4], g2)"
    using draws_ok [OF ok0] by blast
  with rs(1) have "rs = map (\<lambda>k. temper (mt_seq sd (624 + k))) [0..<(length buf + 3) div 4]" by (simp add: MT_N_def)
  moreover obtain bs g3 where "gen_bytes random_uint32 g buf = Some (bs, g3)" "length bs = length buf"
    using mt.gen_bytes_length [OF ok] by blast
  ultimately show ?thesis using rs(2) by (simp add: comp_def)
qed

theorem gen_bytes_fills_witness:
  "\<exists>g bs g'. MT19937_new SEED = Some g \<and> gen_bytes random_uint32 g [0, 0, 0, 0, 0] = Some (bs, g') \<and> length bs = 5"
proof -
  obtain g where "MT19937_new SEED = Some g" using MT19937_new_ok by blast
  then show ?thesis using gen_bytes_fills [of SEED g "[0, 0, 0, 0, 0]"] by auto
qed

end
