(* ===== verification/Spinlock.thy ===== *)
theory Spinlock
  imports Kernel_Prelude
begin

text \<open>
  The spinlock of \<^verbatim>\<open>src/lib/spinlock/src/lib.rs\<close>, as a transition system of any number of CPUs.

  Every atomic access of \<^verbatim>\<open>lock\<close> and \<^verbatim>\<open>drop\<close> is one step of \<open>lock_step\<close>: reading the interrupt register,
  disabling interrupts, each \<^verbatim>\<open>swap\<close> of the spin loop, the store of \<^verbatim>\<open>unlock\<close>, restoring the interrupts. The steps
  of the CPUs interleave freely. The interrupt operations of the two architectures are two instances of the
  interface \<open>irq_control\<close>. The lemmas show mutual exclusion, that interrupts are off while a CPU waits for or holds
  the lock and are restored afterwards, that the lock refines an atomic owner variable, and that a waiting CPU can
  always get the lock.
\<close>

section \<open>Interrupt control\<close>

record irq_ops =
  irq_save :: "u64 \<Rightarrow> u64"
  disable_interrupts :: "u64 \<Rightarrow> u64"
  irq_load :: "u64 \<Rightarrow> u64 \<Rightarrow> u64"
  irq_enabled :: "u64 \<Rightarrow> bool"

text \<open>RISC-V: the register is \<^verbatim>\<open>sstatus\<close>, bit 1 enables interrupts.\<close>

definition riscv_irq_save :: "u64 \<Rightarrow> u64" where
  "riscv_irq_save sstatus = sstatus AND push_bit 1 1"

definition riscv_disable_interrupts :: "u64 \<Rightarrow> u64" where
  "riscv_disable_interrupts sstatus = sstatus AND NOT 2"

definition riscv_irq_load :: "u64 \<Rightarrow> u64 \<Rightarrow> u64" where
  "riscv_irq_load irq sstatus = sstatus OR irq"

definition riscv_irq :: irq_ops where
  "riscv_irq = \<lparr>irq_save = riscv_irq_save, disable_interrupts = riscv_disable_interrupts,
     irq_load = riscv_irq_load, irq_enabled = (\<lambda>sstatus. bit sstatus 1)\<rparr>"

text \<open>AArch64: the register is \<^verbatim>\<open>DAIF\<close>, bit 7 masks interrupts; \<^verbatim>\<open>DAIFSet, #2\<close> sets it and \<^verbatim>\<open>DAIFClr, #2\<close> clears it.\<close>

definition arm64_irq_save :: "u64 \<Rightarrow> u64" where
  "arm64_irq_save daif = daif AND push_bit 7 1"

definition arm64_disable_interrupts :: "u64 \<Rightarrow> u64" where
  "arm64_disable_interrupts daif = daif OR 128"

definition arm64_irq_load :: "u64 \<Rightarrow> u64 \<Rightarrow> u64" where
  "arm64_irq_load irq daif = (if irq = 0 then daif AND NOT 128 else daif)"

definition arm64_irq :: irq_ops where
  "arm64_irq = \<lparr>irq_save = arm64_irq_save, disable_interrupts = arm64_disable_interrupts,
     irq_load = arm64_irq_load, irq_enabled = (\<lambda>daif. \<not> bit daif 7)\<rparr>"

section \<open>The lock\<close>

record 'a Spinlock =
  locked :: bool
  lock_data :: 'a

definition Spinlock_new :: "'a \<Rightarrow> 'a Spinlock" where
  "Spinlock_new d = \<lparr>locked = False, lock_data = d\<rparr>"

definition swap_locked :: "'a Spinlock \<Rightarrow> bool \<times> 'a Spinlock" where
  "swap_locked l = (locked l, l\<lparr>locked := True\<rparr>)"

definition unlock :: "'a Spinlock \<Rightarrow> 'a Spinlock" where
  "unlock l = l\<lparr>locked := False\<rparr>"

definition deref_mut :: "('a \<Rightarrow> 'a) \<Rightarrow> 'a Spinlock \<Rightarrow> 'a Spinlock" where
  "deref_mut f l = l\<lparr>lock_data := f (lock_data l)\<rparr>"

text \<open>Where a CPU is: outside, after \<^verbatim>\<open>irq_save\<close>, in the spin loop, with a guard, and in \<^verbatim>\<open>drop\<close> after \<^verbatim>\<open>unlock\<close>.\<close>

datatype lock_pc = Outside | Saved | Spinning | Holding | Dropping

record lock_cpu =
  irq_reg :: u64
  irq :: u64
  pc :: lock_pc

record 'a lock_system =
  spinlock :: "'a Spinlock"
  cpus :: "nat \<Rightarrow> lock_cpu"

datatype 'a lock_event = Tau | Acquire nat | Update nat "'a \<Rightarrow> 'a" | Release nat

definition set_cpu :: "'a lock_system \<Rightarrow> nat \<Rightarrow> lock_cpu \<Rightarrow> 'a lock_system" where
  "set_cpu s c k = s\<lparr>cpus := (cpus s)(c := k)\<rparr>"

inductive lock_step :: "irq_ops \<Rightarrow> 'a lock_system \<Rightarrow> 'a lock_event \<Rightarrow> 'a lock_system \<Rightarrow> bool" for ops where
  outside: "pc (cpus s c) = Outside \<Longrightarrow> lock_step ops s Tau (set_cpu s c ((cpus s c)\<lparr>irq_reg := r\<rparr>))"
| save: "pc (cpus s c) = Outside \<Longrightarrow>
    lock_step ops s Tau (set_cpu s c ((cpus s c)\<lparr>irq := irq_save ops (irq_reg (cpus s c)), pc := Saved\<rparr>))"
| disable: "pc (cpus s c) = Saved \<Longrightarrow>
    lock_step ops s Tau (set_cpu s c ((cpus s c)\<lparr>irq_reg := disable_interrupts ops (irq_reg (cpus s c)), pc := Spinning\<rparr>))"
| spin: "pc (cpus s c) = Spinning \<Longrightarrow> swap_locked (spinlock s) = (True, l) \<Longrightarrow> lock_step ops s Tau (s\<lparr>spinlock := l\<rparr>)"
| acquire: "pc (cpus s c) = Spinning \<Longrightarrow> swap_locked (spinlock s) = (False, l) \<Longrightarrow>
    lock_step ops s (Acquire c) (set_cpu (s\<lparr>spinlock := l\<rparr>) c ((cpus s c)\<lparr>pc := Holding\<rparr>))"
| update: "pc (cpus s c) = Holding \<Longrightarrow> lock_step ops s (Update c f) (s\<lparr>spinlock := deref_mut f (spinlock s)\<rparr>)"
| release: "pc (cpus s c) = Holding \<Longrightarrow>
    lock_step ops s (Release c) (set_cpu (s\<lparr>spinlock := unlock (spinlock s)\<rparr>) c ((cpus s c)\<lparr>pc := Dropping\<rparr>))"
| load: "pc (cpus s c) = Dropping \<Longrightarrow>
    lock_step ops s Tau (set_cpu s c ((cpus s c)\<lparr>irq_reg := irq_load ops (irq (cpus s c)) (irq_reg (cpus s c)), pc := Outside\<rparr>))"

definition lock_init :: "'a lock_system \<Rightarrow> bool" where
  "lock_init s \<longleftrightarrow> \<not> locked (spinlock s) \<and> (\<forall>c. pc (cpus s c) = Outside)"

inductive lock_run :: "irq_ops \<Rightarrow> 'a lock_system \<Rightarrow> 'a lock_event list \<Rightarrow> 'a lock_system \<Rightarrow> bool" for ops where
  lock_run_nil: "lock_run ops s [] s"
| lock_run_step: "lock_run ops s es s1 \<Longrightarrow> lock_step ops s1 e s2 \<Longrightarrow> lock_run ops s (es @ [e]) s2"

inductive_cases lock_step_cases: "lock_step ops s e s'"

lemmas lock_defs = set_cpu_def swap_locked_def unlock_def deref_mut_def

section \<open>Mutual exclusion\<close>

definition holders :: "'a lock_system \<Rightarrow> nat set" where
  "holders s = {c. pc (cpus s c) = Holding}"

definition mutex_inv :: "'a lock_system \<Rightarrow> bool" where
  "mutex_inv s \<longleftrightarrow> (if locked (spinlock s) then \<exists>c. holders s = {c} else holders s = {})"

lemma holders_set_cpu [simp]:
  "holders (set_cpu s c k) = (if pc k = Holding then insert c (holders s) else holders s - {c})"
  by (auto simp: holders_def set_cpu_def)

lemma holders_spinlock [simp]: "holders (s\<lparr>spinlock := l\<rparr>) = holders s"
  by (simp add: holders_def)

lemma spinlock_set_cpu [simp]: "spinlock (set_cpu s c k) = spinlock s"
  by (simp add: set_cpu_def)

lemma holders_minus: "pc (cpus s c) \<noteq> Holding \<Longrightarrow> holders s - {c} = holders s"
  by (auto simp: holders_def)

lemma holders_one: "pc (cpus s c) = Holding \<Longrightarrow> mutex_inv s \<Longrightarrow> holders s = {c} \<and> locked (spinlock s)"
proof -
  assume "pc (cpus s c) = Holding" "mutex_inv s"
  moreover then have "c \<in> holders s" by (simp add: holders_def)
  ultimately show ?thesis by (cases "locked (spinlock s)") (auto simp: mutex_inv_def)
qed

lemma lock_step_mutex: "lock_step ops s e s' \<Longrightarrow> mutex_inv s \<Longrightarrow> mutex_inv s'"
proof (induction rule: lock_step.induct)
  case (release s c)
  then have "holders s = {c}" using holders_one by blast
  then show ?case by (simp add: mutex_inv_def unlock_def)
next
  case (spin s c l)
  then have "l = spinlock s" by (cases "spinlock s") (simp add: swap_locked_def)
  then show ?case using spin.prems by simp
next
  case (acquire s c l)
  then have "\<not> locked (spinlock s)" "locked l" by (auto simp: swap_locked_def)
  then show ?case using acquire.prems by (simp add: mutex_inv_def)
qed (simp_all add: mutex_inv_def holders_minus deref_mut_def)

lemma lock_init_mutex: "lock_init s \<Longrightarrow> mutex_inv s"
  by (simp add: lock_init_def mutex_inv_def holders_def)

lemma lock_run_mutex: "lock_run ops s es s' \<Longrightarrow> lock_init s \<Longrightarrow> mutex_inv s'"
  by (induction rule: lock_run.induct) (auto intro: lock_step_mutex lock_init_mutex)

section \<open>The interface of the interrupt operations\<close>

locale irq_control =
  fixes ops :: irq_ops
  assumes disables: "\<not> irq_enabled ops (disable_interrupts ops r)"
    and restores: "irq_load ops (irq_save ops r) (disable_interrupts ops r) = r"
begin

text \<open>What a CPU has of its interrupt register, at every point of \<^verbatim>\<open>lock\<close> and \<^verbatim>\<open>drop\<close>; \<open>r\<close> is the register before.\<close>

definition irq_point :: "lock_cpu \<Rightarrow> bool" where
  "irq_point k \<longleftrightarrow> (case pc k of Outside \<Rightarrow> True | Saved \<Rightarrow> irq k = irq_save ops (irq_reg k)
     | _ \<Rightarrow> \<exists>r. irq k = irq_save ops r \<and> irq_reg k = disable_interrupts ops r)"

lemma step_irq_point: "lock_step ops s e s' \<Longrightarrow> \<forall>c. irq_point (cpus s c) \<Longrightarrow> irq_point (cpus s' c)"
proof (induction rule: lock_step.induct)
  case (disable s d)
  then have "irq (cpus s d) = irq_save ops (irq_reg (cpus s d))" using disable.prems [rule_format, of d] by (simp add: irq_point_def)
  then show ?case using disable.prems by (auto simp: irq_point_def lock_defs)
next
  case (acquire s d l)
  have "\<exists>r. irq (cpus s d) = irq_save ops r \<and> irq_reg (cpus s d) = disable_interrupts ops r"
    using acquire.prems [rule_format, of d] acquire.hyps(1) by (simp add: irq_point_def)
  then show ?case using acquire.prems by (auto simp: irq_point_def lock_defs)
next
  case (release s d)
  have "\<exists>r. irq (cpus s d) = irq_save ops r \<and> irq_reg (cpus s d) = disable_interrupts ops r"
    using release.prems [rule_format, of d] release.hyps(1) by (simp add: irq_point_def)
  then show ?case using release.prems by (auto simp: irq_point_def lock_defs)
qed (auto simp: irq_point_def lock_defs)

lemma run_irq_point: "lock_run ops s es s' \<Longrightarrow> lock_init s \<Longrightarrow> irq_point (cpus s' c)"
proof (induction arbitrary: c rule: lock_run.induct)
  case (lock_run_step s es s1 e s2)
  then show ?case using step_irq_point by blast
qed (simp add: lock_init_def irq_point_def)

lemma interrupts_off:
  assumes "lock_run ops s es s'" "lock_init s" "pc (cpus s' c) \<in> {Spinning, Holding, Dropping}"
  shows "\<not> irq_enabled ops (irq_reg (cpus s' c))"
  using run_irq_point [OF assms(1,2), of c] assms(3) disables by (auto simp: irq_point_def)

text \<open>A whole pass of one CPU through \<^verbatim>\<open>lock\<close> and \<^verbatim>\<open>drop\<close>: the register is as before.\<close>

definition pass_register :: "lock_cpu \<Rightarrow> u64 option" where
  "pass_register k = (if pc k = Outside then None else
     Some (if pc k = Saved then irq_reg k else irq_load ops (irq k) (irq_reg k)))"

lemma pass_register_step:
  assumes "lock_step ops s e s'" "irq_point (cpus s c)" "pc (cpus s c) \<noteq> Outside" "pc (cpus s' c) \<noteq> Outside"
  shows "pass_register (cpus s' c) = pass_register (cpus s c)"
  using assms by (induction rule: lock_step.induct)
    (auto simp: pass_register_def lock_defs irq_point_def restores split: if_splits)

end

interpretation riscv: irq_control riscv_irq
  by unfold_locales (auto simp: riscv_irq_def riscv_irq_save_def riscv_disable_interrupts_def riscv_irq_load_def
    bit_simps intro!: bit_word_eqI)

lemma bit_128: "bit (128 :: u64) n \<longleftrightarrow> n = 7"
proof -
  have "(128 :: u64) = push_bit 7 1" by simp
  then show ?thesis by (simp only: bit_push_bit_iff) (auto simp: bit_simps)
qed

lemma set_restore_bit:
  fixes r m :: u64
  assumes m: "\<And>n. bit m n \<longleftrightarrow> n = 7"
  shows "(if r AND m = 0 then (r OR m) AND NOT m else r OR m) = r"
proof -
  have "r AND m = 0 \<longleftrightarrow> (\<forall>n < 64. bit r n \<longrightarrow> n \<noteq> 7)" by (auto simp: bit_eq_iff [of _ "0 :: u64"] bit_and_iff m)
  also have "\<dots> \<longleftrightarrow> \<not> bit r 7" by (rule iffI, drule spec [of _ 7], simp, auto)
  finally have z: "r AND m = 0 \<longleftrightarrow> \<not> bit r 7" .
  have "bit ((r OR m) AND NOT m) n = bit r n" if "\<not> bit r 7" "n < 64" for n
    using that by (cases "n = 7") (simp_all add: bit_and_iff bit_or_iff bit_not_iff_eq m)
  moreover have "bit (r OR m) n = bit r n" if "bit r 7" for n
    using that by (cases "n = 7") (simp_all add: bit_or_iff m)
  ultimately show ?thesis unfolding z by (cases "bit r 7") (auto intro: bit_word_eqI)
qed

interpretation arm64i: irq_control arm64_irq
proof
  show "\<not> irq_enabled arm64_irq (disable_interrupts arm64_irq r)" for r
    using bit_128 [of 7] by (simp add: arm64_irq_def arm64_disable_interrupts_def bit_or_iff)
  show "irq_load arm64_irq (irq_save arm64_irq r) (disable_interrupts arm64_irq r) = r" for r
    using set_restore_bit [OF bit_128] by (simp add: arm64_irq_def arm64_irq_save_def arm64_disable_interrupts_def arm64_irq_load_def)
qed

section \<open>Refinement of an atomic owner\<close>

text \<open>The specification: an owner, if any, and the data; only the owner touches the data.\<close>

inductive owner_step :: "nat option \<times> 'a \<Rightarrow> 'a lock_event \<Rightarrow> nat option \<times> 'a \<Rightarrow> bool" where
  "owner_step (ow, d) Tau (ow, d)"
| "owner_step (None, d) (Acquire c) (Some c, d)"
| "owner_step (Some c, d) (Update c f) (Some c, f d)"
| "owner_step (Some c, d) (Release c) (None, d)"

inductive owner_run :: "nat option \<times> 'a \<Rightarrow> 'a lock_event list \<Rightarrow> nat option \<times> 'a \<Rightarrow> bool" where
  owner_run_nil: "owner_run a [] a"
| owner_run_step: "owner_run a es b \<Longrightarrow> owner_step b e c \<Longrightarrow> owner_run a (es @ [e]) c"

definition lock_abs :: "'a lock_system \<Rightarrow> nat option \<times> 'a \<Rightarrow> bool" where
  "lock_abs s a \<longleftrightarrow> snd a = lock_data (spinlock s) \<and> holders s = set_option (fst a) \<and> (locked (spinlock s) \<longleftrightarrow> fst a \<noteq> None)"

lemma lock_abs_iff:
  "lock_abs s (Some c, d) \<longleftrightarrow> d = lock_data (spinlock s) \<and> holders s = {c} \<and> locked (spinlock s)"
  "lock_abs s (None, d) \<longleftrightarrow> d = lock_data (spinlock s) \<and> holders s = {} \<and> \<not> locked (spinlock s)"
  by (simp_all add: lock_abs_def)

lemma lock_abs_mutex: "lock_abs s a \<Longrightarrow> mutex_inv s"
  by (cases a; cases "fst a") (auto simp: lock_abs_def mutex_inv_def)

lemma lock_abs_other: "lock_abs s a \<Longrightarrow> pc (cpus s c) \<noteq> Holding \<Longrightarrow> pc k \<noteq> Holding \<Longrightarrow> lock_abs (set_cpu s c k) a"
  using holders_minus [of s c] by (simp add: lock_abs_def)

lemma owner_tau: "owner_step a Tau a"
  using owner_step.intros(1) [of "fst a" "snd a"] by simp

lemma lock_step_simulates: "lock_step ops s e s' \<Longrightarrow> lock_abs s a \<Longrightarrow> \<exists>b. owner_step a e b \<and> lock_abs s' b"
proof (induction rule: lock_step.induct)
  case (acquire s c l)
  then have "fst a = None" by (auto simp: lock_abs_def swap_locked_def)
  then have a: "a = (None, lock_data (spinlock s))" using acquire.prems by (cases a) (simp add: lock_abs_def)
  have "lock_abs (set_cpu (s\<lparr>spinlock := l\<rparr>) c (cpus s c\<lparr>pc := Holding\<rparr>)) (Some c, lock_data (spinlock s))"
    using acquire.prems acquire.hyps(2) by (auto simp: a lock_abs_iff swap_locked_def)
  then show ?case unfolding a by (blast intro: owner_step.intros)
next
  case (update s c f)
  then have "holders s = {c}" using holders_one lock_abs_mutex by blast
  then have a: "a = (Some c, lock_data (spinlock s))" using update.prems by (cases a; cases "fst a") (auto simp: lock_abs_def)
  have "lock_abs (s\<lparr>spinlock := deref_mut f (spinlock s)\<rparr>) (Some c, f (lock_data (spinlock s)))"
    using update.prems by (auto simp: a lock_abs_iff deref_mut_def)
  then show ?case unfolding a by (blast intro: owner_step.intros)
next
  case (release s c)
  then have "holders s = {c}" using holders_one lock_abs_mutex by blast
  then have a: "a = (Some c, lock_data (spinlock s))" using release.prems by (cases a; cases "fst a") (auto simp: lock_abs_def)
  have "lock_abs (set_cpu (s\<lparr>spinlock := unlock (spinlock s)\<rparr>) c (cpus s c\<lparr>pc := Dropping\<rparr>)) (None, lock_data (spinlock s))"
    using release.prems by (auto simp: a lock_abs_iff unlock_def)
  then show ?case unfolding a by (blast intro: owner_step.intros)
next
  case (spin s c l)
  then have "l = spinlock s" by (cases "spinlock s") (simp add: swap_locked_def)
  then show ?case using spin.prems owner_tau by (intro exI [of _ a]) simp
qed (rule exI [of _ a], intro conjI owner_tau lock_abs_other, assumption, simp, simp)+

lemma lock_run_simulates:
  "lock_run ops s es s' \<Longrightarrow> lock_init s \<Longrightarrow> \<exists>b. owner_run (None, lock_data (spinlock s)) es b \<and> lock_abs s' b"
proof (induction rule: lock_run.induct)
  case (lock_run_nil s)
  then have "lock_abs s (None, lock_data (spinlock s))" by (simp add: lock_abs_iff lock_init_def holders_def)
  then show ?case by (blast intro: owner_run.intros)
next
  case (lock_run_step s es s1 e s2)
  then show ?case using lock_step_simulates by (metis owner_run.owner_run_step)
qed

section \<open>Properties\<close>

text \<open>C13: In every interleaving of any number of CPUs, at most one CPU holds the guard, and the flag is set
  exactly while one does.\<close>

theorem spinlock_mutual_exclusion:
  assumes "lock_init s" "lock_run ops s es s'"
  shows "(pc (cpus s' c) = Holding \<longrightarrow> pc (cpus s' c') = Holding \<longrightarrow> c = c') \<and>
    (locked (spinlock s') \<longleftrightarrow> (\<exists>c. pc (cpus s' c) = Holding))"
proof -
  have inv: "mutex_inv s'" using lock_run_mutex [OF assms(2,1)] .
  then have "c = c'" if "pc (cpus s' c) = Holding" "pc (cpus s' c') = Holding"
    using holders_one [of s' c] holders_one [of s' c'] that by auto
  moreover have "locked (spinlock s') \<longleftrightarrow> (\<exists>c. pc (cpus s' c) = Holding)"
    using inv by (cases "locked (spinlock s')") (auto simp: mutex_inv_def holders_def)
  ultimately show ?thesis by blast
qed

definition demo_locks :: "nat lock_system" where
  "demo_locks = \<lparr>spinlock = Spinlock_new 0, cpus = (\<lambda>c. \<lparr>irq_reg = 2, irq = 0, pc = Outside\<rparr>)\<rparr>"

lemma demo_init: "lock_init demo_locks"
  by (simp add: lock_init_def demo_locks_def Spinlock_new_def)

lemma demo_run: "\<exists>s'. lock_run riscv_irq demo_locks [Tau, Tau, Acquire 3, Update 3 Suc] s' \<and> pc (cpus s' 3) = Holding"
proof -
  let ?s1 = "set_cpu demo_locks 3 ((cpus demo_locks 3)\<lparr>irq := irq_save riscv_irq (irq_reg (cpus demo_locks 3)), pc := Saved\<rparr>)"
  let ?s2 = "set_cpu ?s1 3 ((cpus ?s1 3)\<lparr>irq_reg := disable_interrupts riscv_irq (irq_reg (cpus ?s1 3)), pc := Spinning\<rparr>)"
  let ?s3 = "set_cpu (?s2\<lparr>spinlock := (spinlock ?s2)\<lparr>locked := True\<rparr>\<rparr>) 3 ((cpus ?s2 3)\<lparr>pc := Holding\<rparr>)"
  let ?s4 = "?s3\<lparr>spinlock := deref_mut Suc (spinlock ?s3)\<rparr>"
  have 1: "lock_step riscv_irq demo_locks Tau ?s1" by (rule lock_step.save) (simp add: demo_locks_def)
  have 2: "lock_step riscv_irq ?s1 Tau ?s2" by (rule lock_step.disable) (simp add: set_cpu_def)
  have 3: "lock_step riscv_irq ?s2 (Acquire 3) ?s3"
    by (rule lock_step.acquire) (simp_all add: set_cpu_def swap_locked_def demo_locks_def Spinlock_new_def)
  have 4: "lock_step riscv_irq ?s3 (Update 3 Suc) ?s4" by (rule lock_step.update) (simp add: set_cpu_def)
  have "lock_run riscv_irq demo_locks ((([] @ [Tau]) @ [Tau]) @ [Acquire 3]) ?s3"
    by (rule lock_run_step [OF lock_run_step [OF lock_run_step [OF lock_run_nil 1] 2] 3])
  from lock_run_step [OF this 4] have "lock_run riscv_irq demo_locks [Tau, Tau, Acquire 3, Update 3 Suc] ?s4" by simp
  then show ?thesis by (intro exI [of _ ?s4]) (simp add: set_cpu_def)
qed

theorem spinlock_mutual_exclusion_witness:
  "\<exists>s'. lock_run riscv_irq demo_locks [Tau, Tau, Acquire 3, Update 3 Suc] s' \<and> pc (cpus s' 3) = Holding \<and>
    pc (cpus s' 5) \<noteq> Holding"
proof -
  obtain s' where s': "lock_run riscv_irq demo_locks [Tau, Tau, Acquire 3, Update 3 Suc] s'" "pc (cpus s' 3) = Holding"
    using demo_run by blast
  then show ?thesis using spinlock_mutual_exclusion [OF demo_init s'(1), of 3 5] by (intro exI [of _ s']) simp
qed

text \<open>C14: The lock refines an atomic owner: every run of the CPUs, with its acquisitions, accesses and releases
  in order, is a run of the specification in which only the owner changes the data, and the data agree at the end.\<close>

theorem spinlock_refines_owner:
  assumes "lock_init s" "lock_run ops s es s'"
  shows "\<exists>ow. owner_run (None, lock_data (spinlock s)) es (ow, lock_data (spinlock s')) \<and>
    {c. pc (cpus s' c) = Holding} = set_option ow"
proof -
  obtain ow d where "owner_run (None, lock_data (spinlock s)) es (ow, d)" "lock_abs s' (ow, d)"
    using lock_run_simulates [OF assms(2,1)] by (metis surj_pair)
  then show ?thesis by (auto simp: lock_abs_def holders_def)
qed

theorem spinlock_refines_owner_witness:
  "\<exists>s' ow. lock_run riscv_irq demo_locks [Tau, Tau, Acquire 3, Update 3 Suc] s' \<and>
    owner_run (None, 0) [Tau, Tau, Acquire 3, Update 3 Suc] (ow, lock_data (spinlock s'))"
proof -
  obtain s' where s': "lock_run riscv_irq demo_locks [Tau, Tau, Acquire 3, Update 3 Suc] s'" using demo_run by blast
  have "lock_data (spinlock demo_locks) = 0" by (simp add: demo_locks_def Spinlock_new_def)
  then show ?thesis using spinlock_refines_owner [OF demo_init s'] s' by auto
qed

text \<open>On both architectures interrupts are off on a CPU from the spin loop to the release, and when the guard
  is dropped the interrupt register is what it was before \<^verbatim>\<open>lock\<close>, whether interrupts were on or off.\<close>

theorem spinlock_interrupts:
  assumes "ops \<in> {riscv_irq, arm64_irq}" "lock_init s" "lock_run ops s es s'"
  shows "(pc (cpus s' c) \<in> {Spinning, Holding, Dropping} \<longrightarrow> \<not> irq_enabled ops (irq_reg (cpus s' c))) \<and>
    irq_load ops (irq_save ops r) (disable_interrupts ops r) = r \<and>
    (pc (cpus s' c) \<in> {Spinning, Holding, Dropping} \<longrightarrow>
      (\<exists>r. irq (cpus s' c) = irq_save ops r \<and> irq_reg (cpus s' c) = disable_interrupts ops r))"
proof -
  have "irq_control ops" using assms(1) riscv.irq_control_axioms arm64i.irq_control_axioms by auto
  note off = irq_control.interrupts_off [OF this assms(3,2), of c] and pt = irq_control.run_irq_point [OF this assms(3,2), of c]
  have "\<exists>r. irq (cpus s' c) = irq_save ops r \<and> irq_reg (cpus s' c) = disable_interrupts ops r"
    if "pc (cpus s' c) \<in> {Spinning, Holding, Dropping}"
    using pt that by (auto simp: irq_control.irq_point_def [OF \<open>irq_control ops\<close>])
  then show ?thesis using off irq_control.restores [OF \<open>irq_control ops\<close>] by blast
qed

theorem spinlock_interrupts_witness:
  "\<exists>s'. lock_run riscv_irq demo_locks [Tau, Tau, Acquire 3, Update 3 Suc] s' \<and> \<not> irq_enabled riscv_irq (irq_reg (cpus s' 3))"
proof -
  obtain s' where s': "lock_run riscv_irq demo_locks [Tau, Tau, Acquire 3, Update 3 Suc] s'" "pc (cpus s' 3) = Holding"
    using demo_run by blast
  then show ?thesis using spinlock_interrupts [OF _ demo_init s'(1), of 3] by (intro exI [of _ s']) simp
qed

text \<open>No deadlock: from every reachable state, a CPU in the spin loop can get the lock, after the holder, if
  there is one, has dropped its guard.\<close>

theorem spinlock_can_acquire:
  assumes "lock_init s" "lock_run ops s es s1" "pc (cpus s1 c) = Spinning"
  shows "\<exists>es' s2. lock_run ops s (es @ es') s2 \<and> pc (cpus s2 c) = Holding \<and> length es' \<le> 2"
proof -
  have inv: "mutex_inv s1" using lock_run_mutex [OF assms(2,1)] .
  have get: "\<exists>s2. lock_step ops t (Acquire c) s2 \<and> pc (cpus s2 c) = Holding"
    if "pc (cpus t c) = Spinning" "\<not> locked (spinlock t)" for t :: "'a lock_system"
    using lock_step.acquire [OF that(1), of "(spinlock t)\<lparr>locked := True\<rparr>" ops] that by (auto simp: swap_locked_def set_cpu_def)
  show ?thesis
  proof (cases "locked (spinlock s1)")
    case False
    then obtain s2 where "lock_step ops s1 (Acquire c) s2" "pc (cpus s2 c) = Holding" using get assms(3) by blast
    then show ?thesis using lock_run_step [OF assms(2)] by (intro exI [of _ "[Acquire c]"] exI [of _ s2]) simp
  next
    case True
    then obtain d where d: "pc (cpus s1 d) = Holding" using inv by (auto simp: mutex_inv_def holders_def)
    let ?t = "set_cpu (s1\<lparr>spinlock := unlock (spinlock s1)\<rparr>) d ((cpus s1 d)\<lparr>pc := Dropping\<rparr>)"
    have "lock_step ops s1 (Release d) ?t" using lock_step.release [OF d] .
    then have run: "lock_run ops s (es @ [Release d]) ?t" using lock_run_step [OF assms(2)] by blast
    have "pc (cpus ?t c) = Spinning" "\<not> locked (spinlock ?t)" using d assms(3) by (auto simp: set_cpu_def unlock_def)
    then obtain s2 where "lock_step ops ?t (Acquire c) s2" "pc (cpus s2 c) = Holding" using get by blast
    then show ?thesis using lock_run_step [OF run] by (intro exI [of _ "[Release d, Acquire c]"] exI [of _ s2]) simp
  qed
qed

theorem spinlock_can_acquire_witness:
  "\<exists>es' s2. lock_run riscv_irq demo_locks ([Tau, Tau] @ es') s2 \<and> pc (cpus s2 3) = Holding"
proof -
  let ?s1 = "set_cpu demo_locks 3 ((cpus demo_locks 3)\<lparr>irq := irq_save riscv_irq (irq_reg (cpus demo_locks 3)), pc := Saved\<rparr>)"
  let ?s2 = "set_cpu ?s1 3 ((cpus ?s1 3)\<lparr>irq_reg := disable_interrupts riscv_irq (irq_reg (cpus ?s1 3)), pc := Spinning\<rparr>)"
  have 1: "lock_step riscv_irq demo_locks Tau ?s1" by (rule lock_step.save) (simp add: demo_locks_def)
  have 2: "lock_step riscv_irq ?s1 Tau ?s2" by (rule lock_step.disable) (simp add: set_cpu_def)
  have "lock_run riscv_irq demo_locks [Tau, Tau] ?s2"
    using lock_run_step [OF lock_run_step [OF lock_run_nil 1] 2] by simp
  from spinlock_can_acquire [OF demo_init this, of 3] show ?thesis by (auto simp: set_cpu_def)
qed

end
