(* ===== verification/Crypto_Framework.thy ===== *)
theory Crypto_Framework
  imports Kernel_Prelude
begin

text \<open>
  The crate \<^verbatim>\<open>src/crypto/crypto_framework\<close>: the traits of the ciphers and hashes, and what is built on them for every
  implementation: the CBC mode, the random generator of a stream cipher, and HMAC.

  A trait is a record of its constants and operations. Its contract is a locale: \<open>block_cipher\<close> (decryption undoes
  encryption and no call panics on a whole block), \<open>stream_cipher\<close> (encryption adds a key stream) and \<open>hash_function\<close>
  (updates absorb the message piece by piece). The client code is proved once inside the locale; AES, ChaCha20 and
  SHA-256 interpret them.
\<close>

section \<open>Block ciphers and CBC\<close>

record 'c BlockCipher =
  BLOCK_SIZE :: nat
  BLOCK_KEY_SIZE :: nat
  block_set_key :: "'c \<Rightarrow> u8 list \<Rightarrow> 'c option"
  block_encrypt :: "'c \<Rightarrow> u8 list \<Rightarrow> (u8 list \<times> 'c) option"
  block_decrypt :: "'c \<Rightarrow> u8 list \<Rightarrow> (u8 list \<times> 'c) option"

record 'c CbcCipher =
  inner_cipher :: 'c
  prev_block :: "u8 list"

definition CbcCipher_default :: "'c \<Rightarrow> nat \<Rightarrow> 'c CbcCipher" where
  "CbcCipher_default d S = \<lparr>inner_cipher = d, prev_block = replicate S 0\<rparr>"

definition set_iv :: "'c CbcCipher \<Rightarrow> u8 list \<Rightarrow> 'c CbcCipher option" where
  "set_iv c iv = do { rust_assert (length iv = length (prev_block c)); Some (c\<lparr>prev_block := iv\<rparr>) }"

text \<open>\<^verbatim>\<open>for (i, byte) in block.iter_mut().enumerate() { *byte ^= prev[i] }\<close>\<close>

fun xor_prev :: "u8 list \<Rightarrow> u8 list \<Rightarrow> nat \<Rightarrow> u8 list option" where
  "xor_prev [] prev i = Some []"
| "xor_prev (b # bs) prev i = do {
     p \<leftarrow> nth_opt prev i;
     bs \<leftarrow> xor_prev bs prev (Suc i);
     Some ((b XOR p) # bs)
   }"

definition cbc_set_key :: "'c BlockCipher \<Rightarrow> 'c CbcCipher \<Rightarrow> u8 list \<Rightarrow> 'c CbcCipher option" where
  "cbc_set_key B c key = do { k \<leftarrow> block_set_key B (inner_cipher c) key; Some (c\<lparr>inner_cipher := k\<rparr>) }"

definition cbc_block_encrypt :: "'c BlockCipher \<Rightarrow> 'c CbcCipher \<Rightarrow> u8 list \<Rightarrow> (u8 list \<times> 'c CbcCipher) option" where
  "cbc_block_encrypt B c block = do {
     block \<leftarrow> xor_prev block (prev_block c) 0;
     (block, k) \<leftarrow> block_encrypt B (inner_cipher c) block;
     rust_assert (length block = length (prev_block c));
     Some (block, c\<lparr>inner_cipher := k, prev_block := block\<rparr>)
   }"

definition cbc_block_decrypt :: "'c BlockCipher \<Rightarrow> 'c CbcCipher \<Rightarrow> u8 list \<Rightarrow> (u8 list \<times> 'c CbcCipher) option" where
  "cbc_block_decrypt B c block = do {
     rust_assert (length block = length (prev_block c));
     (plain, k) \<leftarrow> block_decrypt B (inner_cipher c) block;
     plain \<leftarrow> xor_prev plain (prev_block c) 0;
     Some (plain, c\<lparr>inner_cipher := k, prev_block := block\<rparr>)
   }"

definition CbcCipher_ops :: "'c BlockCipher \<Rightarrow> 'c CbcCipher BlockCipher" where
  "CbcCipher_ops B = \<lparr>BLOCK_SIZE = BLOCK_SIZE B, BLOCK_KEY_SIZE = BLOCK_KEY_SIZE B,
     block_set_key = cbc_set_key B, block_encrypt = cbc_block_encrypt B, block_decrypt = cbc_block_decrypt B\<rparr>"

text \<open>A message of several blocks, one call per block.\<close>

fun each_block :: "('s \<Rightarrow> u8 list \<Rightarrow> (u8 list \<times> 's) option) \<Rightarrow> 's \<Rightarrow> u8 list list \<Rightarrow> (u8 list list \<times> 's) option" where
  "each_block f s [] = Some ([], s)"
| "each_block f s (b # bs) = do { (b, s) \<leftarrow> f s b; (bs, s) \<leftarrow> each_block f s bs; Some (b # bs, s) }"

section \<open>Stream ciphers\<close>

record 's StreamCipher =
  STREAM_KEY_SIZE :: nat
  STREAM_NONCE_SIZE :: nat
  stream_set_key :: "'s \<Rightarrow> u8 list \<Rightarrow> 's option"
  stream_set_nonce :: "'s \<Rightarrow> u8 list \<Rightarrow> 's option"
  stream_encrypt :: "'s \<Rightarrow> u8 list \<Rightarrow> (u8 list \<times> 's) option"

definition stream_decrypt :: "'s StreamCipher \<Rightarrow> 's \<Rightarrow> u8 list \<Rightarrow> (u8 list \<times> 's) option" where
  "stream_decrypt T s block = stream_encrypt T s block"

definition SEED_SIZE :: "'s StreamCipher \<Rightarrow> nat" where
  "SEED_SIZE T = STREAM_KEY_SIZE T + STREAM_NONCE_SIZE T"

definition reseed :: "'s StreamCipher \<Rightarrow> 's \<Rightarrow> u8 list \<Rightarrow> 's option" where
  "reseed T s seed = do {
     key \<leftarrow> slice_opt seed 0 (STREAM_KEY_SIZE T);
     s \<leftarrow> stream_set_key T s key;
     nonce \<leftarrow> slice_opt seed (STREAM_KEY_SIZE T) (length seed);
     stream_set_nonce T s nonce
   }"

definition crypto_gen_bytes :: "'s StreamCipher \<Rightarrow> 's \<Rightarrow> u8 list \<Rightarrow> (u8 list \<times> 's) option" where
  "crypto_gen_bytes T s buf = stream_encrypt T s buf"

section \<open>Hashes and HMAC\<close>

record 'h Hash =
  DIGEST_LEN :: nat
  hash_default :: 'h
  hash_update :: "'h \<Rightarrow> u8 list \<Rightarrow> 'h option"
  hash_digest :: "'h \<Rightarrow> u8 list \<Rightarrow> (u8 list \<times> 'h) option"

record 'h Hmac =
  ihasher :: 'h
  ohasher :: 'h

definition Hmac_new :: "'h Hash \<Rightarrow> 'h Hmac" where
  "Hmac_new H = \<lparr>ihasher = hash_default H, ohasher = hash_default H\<rparr>"

fun hmac_set_key :: "'h Hash \<Rightarrow> 'h Hmac \<Rightarrow> u8 list \<Rightarrow> 'h Hmac option" where
  "hmac_set_key H h [] = Some h"
| "hmac_set_key H h (b # key) = do {
     i \<leftarrow> hash_update H (ihasher h) [0x36 XOR b];
     o' \<leftarrow> hash_update H (ohasher h) [0x5c XOR b];
     hmac_set_key H (h\<lparr>ihasher := i, ohasher := o'\<rparr>) key
   }"

definition hmac_update :: "'h Hash \<Rightarrow> 'h Hmac \<Rightarrow> u8 list \<Rightarrow> 'h Hmac option" where
  "hmac_update H h msg = do { i \<leftarrow> hash_update H (ihasher h) msg; Some (h\<lparr>ihasher := i\<rparr>) }"

definition hmac_digest :: "'h Hash \<Rightarrow> 'h Hmac \<Rightarrow> u8 list \<Rightarrow> (u8 list \<times> 'h Hmac) option" where
  "hmac_digest H h out = do {
     rust_assert (length out = DIGEST_LEN H);
     (out, i) \<leftarrow> hash_digest H (ihasher h) out;
     o' \<leftarrow> hash_update H (ohasher h) out;
     (out, o') \<leftarrow> hash_digest H o' out;
     Some (out, h\<lparr>ihasher := i, ohasher := o'\<rparr>)
   }"

section \<open>Bytewise exclusive or\<close>

abbreviation xor_list :: "u8 list \<Rightarrow> u8 list \<Rightarrow> u8 list" where
  "xor_list xs ys \<equiv> map2 (XOR) xs ys"

lemma xor_prev_map2: "i + length bs \<le> length prev \<Longrightarrow> xor_prev bs prev i = Some (xor_list bs (drop i prev))"
proof (induction bs prev i rule: xor_prev.induct)
  case (2 b bs prev i)
  then show ?case by (simp add: Cons_nth_drop_Suc [symmetric])
qed simp

lemma xor_list_twice: "length xs \<le> length ys \<Longrightarrow> xor_list (xor_list xs ys) ys = xs"
  by (induction xs ys rule: list_induct2') (simp_all add: xor.assoc)

section \<open>Blocks of sixteen\<close>

lemma length_16:
  assumes "length m = 16"
  obtains x0 x1 x2 x3 x4 x5 x6 x7 x8 x9 x10 x11 x12 x13 x14 x15
  where "m = [x0, x1, x2, x3, x4, x5, x6, x7, x8, x9, x10, x11, x12, x13, x14, x15 :: 'a]"
  using assms by (auto simp: length_Suc_conv eval_nat_numeral)

section \<open>The contract of a block cipher\<close>

locale block_cipher =
  fixes B :: "'c BlockCipher" and valid :: "'c \<Rightarrow> bool"
  assumes set_key_valid: "valid c \<Longrightarrow> length key = BLOCK_KEY_SIZE B \<Longrightarrow> \<exists>c'. block_set_key B c key = Some c' \<and> valid c'"
    and encrypts: "valid c \<Longrightarrow> length b = BLOCK_SIZE B \<Longrightarrow>
      \<exists>e. block_encrypt B c b = Some (e, c) \<and> length e = BLOCK_SIZE B \<and> block_decrypt B c e = Some (b, c)"
begin

lemma cbc_encrypt_block:
  assumes "valid (inner_cipher c)" "length b = BLOCK_SIZE B" "length (prev_block c) = BLOCK_SIZE B"
  shows "\<exists>e. cbc_block_encrypt B c b = Some (e, c\<lparr>prev_block := e\<rparr>) \<and> length e = BLOCK_SIZE B \<and>
    cbc_block_decrypt B c e = Some (b, c\<lparr>prev_block := e\<rparr>)"
proof -
  let ?x = "xor_list b (prev_block c)"
  obtain e where e: "block_encrypt B (inner_cipher c) ?x = Some (e, inner_cipher c)" "length e = BLOCK_SIZE B"
    "block_decrypt B (inner_cipher c) e = Some (?x, inner_cipher c)"
    using encrypts [OF assms(1), of ?x] assms(2,3) by auto
  have "xor_prev b (prev_block c) 0 = Some ?x" "xor_prev ?x (prev_block c) 0 = Some b"
    using assms(2,3) by (simp_all add: xor_prev_map2 xor_list_twice)
  then show ?thesis using e assms(2,3) by (simp add: cbc_block_encrypt_def cbc_block_decrypt_def)
qed

text \<open>The textbook CBC chain: each block is added to the ciphertext block before it, then encrypted.\<close>

fun cbc_chain :: "'c \<Rightarrow> u8 list \<Rightarrow> u8 list list \<Rightarrow> u8 list list" where
  "cbc_chain k iv [] = []"
| "cbc_chain k iv (b # bs) = (let e = fst (the (block_encrypt B k (xor_list b iv))) in e # cbc_chain k e bs)"

lemma cbc_chain_nth:
  "length (cbc_chain k v bs) = length bs"
  "i < length bs \<Longrightarrow> cbc_chain k v bs ! i = fst (the (block_encrypt B k (xor_list (bs ! i) (if i = 0 then v else cbc_chain k v bs ! (i - 1)))))"
proof (induction bs arbitrary: v i)
  case (Cons b bs)
  {
    case 1
    show ?case using Cons.IH(1) by (simp add: Let_def)
  next
    case 2
    then show ?case using Cons.IH(2) by (cases i; cases "i - 1") (simp_all add: Let_def)
  }
qed simp_all

lemma cbc_message:
  assumes "valid (inner_cipher c)" "length (prev_block c) = BLOCK_SIZE B" "\<forall>b \<in> set bs. length b = BLOCK_SIZE B"
  shows "\<exists>es c'. each_block (cbc_block_encrypt B) c bs = Some (es, c') \<and> es = cbc_chain (inner_cipher c) (prev_block c) bs \<and>
    (\<forall>e \<in> set es. length e = BLOCK_SIZE B) \<and> each_block (cbc_block_decrypt B) c es = Some (bs, c')"
  using assms
proof (induction bs arbitrary: c)
  case (Cons b bs)
  obtain e where e: "cbc_block_encrypt B c b = Some (e, c\<lparr>prev_block := e\<rparr>)" "length e = BLOCK_SIZE B"
    "cbc_block_decrypt B c e = Some (b, c\<lparr>prev_block := e\<rparr>)"
    using cbc_encrypt_block [of c b] Cons.prems by auto
  have "fst (the (block_encrypt B (inner_cipher c) (xor_list b (prev_block c)))) = e"
    using e(1) Cons.prems(2,3) by (auto simp: cbc_block_encrypt_def xor_prev_map2 split: bind_splits)
  moreover obtain es c' where "each_block (cbc_block_encrypt B) (c\<lparr>prev_block := e\<rparr>) bs = Some (es, c')"
    "es = cbc_chain (inner_cipher c) e bs" "\<forall>e \<in> set es. length e = BLOCK_SIZE B" "each_block (cbc_block_decrypt B) (c\<lparr>prev_block := e\<rparr>) es = Some (bs, c')"
    using Cons.IH [of "c\<lparr>prev_block := e\<rparr>"] Cons.prems e(2) by auto
  ultimately show ?case using e by simp
qed simp

end

section \<open>The contract of a stream cipher\<close>

text \<open>\<open>ks s i\<close> is byte \<open>i\<close> of the key stream from state \<open>s\<close> on, and \<open>room s\<close> how many bytes are left before the
  block counter overflows.\<close>

locale stream_cipher =
  fixes T :: "'s StreamCipher" and ok :: "'s \<Rightarrow> bool" and ks :: "'s \<Rightarrow> nat \<Rightarrow> u8" and room :: "'s \<Rightarrow> nat"
  assumes stream: "ok s \<Longrightarrow> length xs \<le> room s \<Longrightarrow>
      \<exists>s'. stream_encrypt T s xs = Some (xor_list xs (map (ks s) [0..<length xs]), s') \<and> ok s' \<and>
        room s' = room s - length xs \<and> (\<forall>i. length xs + i < room s \<longrightarrow> ks s' i = ks s (length xs + i))"
begin

lemma decrypt_encrypt:
  assumes "ok s" "length xs \<le> room s"
  shows "\<exists>ys s'. stream_encrypt T s xs = Some (ys, s') \<and> length ys = length xs \<and> (\<exists>s2. stream_decrypt T s ys = Some (xs, s2))"
proof -
  let ?k = "map (ks s) [0..<length xs]" and ?ys = "xor_list xs (map (ks s) [0..<length xs])"
  obtain s' where s': "stream_encrypt T s xs = Some (?ys, s')" using stream [OF assms] by blast
  have len: "length ?ys = length xs" by simp
  obtain s2 where s2: "stream_encrypt T s ?ys = Some (xor_list ?ys ?k, s2)"
    using stream [OF assms(1), of ?ys] assms(2) by (auto simp: len)
  have "xor_list ?ys ?k = xs" by (rule xor_list_twice) simp
  with s' s2 len show ?thesis by (auto simp: stream_decrypt_def)
qed

lemma encrypt_append:
  assumes "ok s" "length (xs @ ys) \<le> room s"
  shows "\<exists>x y s1 s2. stream_encrypt T s xs = Some (x, s1) \<and> stream_encrypt T s1 ys = Some (y, s2) \<and>
    (\<exists>s'. stream_encrypt T s (xs @ ys) = Some (x @ y, s'))"
proof -
  obtain s1 where s1: "stream_encrypt T s xs = Some (xor_list xs (map (ks s) [0..<length xs]), s1)" "ok s1"
    "room s1 = room s - length xs" "\<forall>i. length xs + i < room s \<longrightarrow> ks s1 i = ks s (length xs + i)"
    using stream [OF assms(1), of xs] assms(2) by auto
  have room: "length ys \<le> room s1" using assms(2) s1(3) by simp
  obtain s2 where s2: "stream_encrypt T s1 ys = Some (xor_list ys (map (ks s1) [0..<length ys]), s2)"
    using stream [OF s1(2), of ys] room by blast
  obtain s' where s': "stream_encrypt T s (xs @ ys) = Some (xor_list (xs @ ys) (map (ks s) [0..<length (xs @ ys)]), s')"
    using stream [OF assms] by blast
  have "map (ks s1) [0..<length ys] = map (\<lambda>i. ks s (length xs + i)) [0..<length ys]" using s1(4) assms(2) by simp
  also have "\<dots> = map (ks s) [length xs..<length xs + length ys]" by (rule nth_equalityI) simp_all
  finally have "map (ks s) [0..<length (xs @ ys)] = map (ks s) [0..<length xs] @ map (ks s1) [0..<length ys]"
    using upt_add_eq_append [of 0 "length xs" "length ys"] by (simp only: map_append length_append le0 add_0)
  then show ?thesis using s1(1) s2 s' by (auto simp: zip_append)
qed

end

section \<open>The contract of a hash\<close>

text \<open>\<open>absorbed h m\<close>: the hasher has taken in the message \<open>m\<close>; \<open>fits n k\<close>: after \<open>n\<close> bytes an update of \<open>k\<close> bytes is
  taken in; \<open>H m\<close>: the hash of \<open>m\<close>.\<close>

locale hash_function =
  fixes Hs :: "'h Hash" and absorbed :: "'h \<Rightarrow> u8 list \<Rightarrow> bool" and fits :: "nat \<Rightarrow> nat \<Rightarrow> bool" and hash :: "u8 list \<Rightarrow> u8 list"
  assumes default_absorbed: "absorbed (hash_default Hs) []"
    and update_absorbs: "absorbed h m \<Longrightarrow> fits (length m) (length x) \<Longrightarrow> \<exists>h'. hash_update Hs h x = Some h' \<and> absorbed h' (m @ x)"
    and digests: "absorbed h m \<Longrightarrow> length out = DIGEST_LEN Hs \<Longrightarrow> \<exists>h'. hash_digest Hs h out = Some (hash m, h')"
    and hash_length: "length (hash m) = DIGEST_LEN Hs"
begin

lemma set_key_absorbs:
  assumes "absorbed (ihasher h) i" "absorbed (ohasher h) j" "length i = length j" "\<forall>n < length key. fits (length i + n) 1"
  shows "\<exists>h'. hmac_set_key Hs h key = Some h' \<and> absorbed (ihasher h') (i @ map ((XOR) 0x36) key) \<and>
    absorbed (ohasher h') (j @ map ((XOR) 0x5c) key)"
  using assms
proof (induction key arbitrary: h i j)
  case (Cons b key)
  have "fits (length i) (length [0x36 XOR b])" "fits (length j) (length [0x5c XOR b])"
    using Cons.prems(3,4) by auto
  then obtain hi ho where h: "hash_update Hs (ihasher h) [0x36 XOR b] = Some hi" "absorbed hi (i @ [0x36 XOR b])"
    "hash_update Hs (ohasher h) [0x5c XOR b] = Some ho" "absorbed ho (j @ [0x5c XOR b])"
    using update_absorbs Cons.prems(1,2) by metis
  have "\<forall>n < length key. fits (length (i @ [0x36 XOR b]) + n) 1" using Cons.prems(4) by auto
  from Cons.IH [of "h\<lparr>ihasher := hi, ohasher := ho\<rparr>" "i @ [0x36 XOR b]" "j @ [0x5c XOR b]", OF _ _ _ this]
  show ?case using h Cons.prems(3) by simp
qed auto

lemma hmac_correct:
  assumes "\<forall>n < length key. fits n 1" "fits (length key) (length msg)" "fits (length key) (DIGEST_LEN Hs)" "length out = DIGEST_LEN Hs"
  shows "\<exists>h h1 h2. hmac_set_key Hs (Hmac_new Hs) key = Some h \<and> hmac_update Hs h msg = Some h1 \<and>
    hmac_digest Hs h1 out = Some (hash (map ((XOR) 0x5c) key @ hash (map ((XOR) 0x36) key @ msg)), h2)"
proof -
  have "absorbed (ihasher (Hmac_new Hs)) []" "absorbed (ohasher (Hmac_new Hs)) []" by (simp_all add: Hmac_new_def default_absorbed)
  from set_key_absorbs [OF this, of key] obtain h where h: "hmac_set_key Hs (Hmac_new Hs) key = Some h"
    "absorbed (ihasher h) (map ((XOR) 0x36) key)" "absorbed (ohasher h) (map ((XOR) 0x5c) key)"
    using assms(1) by auto
  obtain i where i: "hash_update Hs (ihasher h) msg = Some i" "absorbed i (map ((XOR) 0x36) key @ msg)"
    using update_absorbs [OF h(2), of msg] assms(2) by auto
  obtain i' where i': "hash_digest Hs i out = Some (hash (map ((XOR) 0x36) key @ msg), i')" (is "_ = Some (?inner, _)")
    using digests [OF i(2) assms(4)] by blast
  obtain o' where o': "hash_update Hs (ohasher h) ?inner = Some o'" "absorbed o' (map ((XOR) 0x5c) key @ ?inner)"
    using update_absorbs [OF h(3), of ?inner] assms(3) hash_length by auto
  obtain o2 where "hash_digest Hs o' ?inner = Some (hash (map ((XOR) 0x5c) key @ ?inner), o2)"
    using digests [OF o'(2), of ?inner] hash_length by blast
  then show ?thesis using h(1) i i' o' assms(4) by (auto simp: hmac_update_def hmac_digest_def)
qed

end

end
