(* ===== verification/Aes.thy ===== *)
theory Aes
  imports Aes_Tables Crypto_Framework
begin

text \<open>
  The block ciphers of \<^verbatim>\<open>src/crypto/aes/src/lib.rs\<close>, AES-128 and AES-256: the round transformations on a block of
  sixteen bytes, the key expansions and the two ciphers, which differ in the expansion and the number of rounds.

  \<open>key_word\<close> is the key schedule of FIPS 197, as a recurrence on four-byte words. The lemmas show that both expansions
  compute it and that decryption undoes encryption for every key; AES then interprets \<open>block_cipher\<close>, which gives the CBC
  mode over it.
\<close>

section \<open>Round transformations\<close>

definition AES_BLOCK_SIZE :: nat where "AES_BLOCK_SIZE = 16"
definition AES128_KEY_SIZE :: nat where "AES128_KEY_SIZE = 16"
definition AES128_ROUND :: nat where "AES128_ROUND = 10"
definition AES256_KEY_SIZE :: nat where "AES256_KEY_SIZE = 32"
definition AES256_ROUND :: nat where "AES256_ROUND = 14"

definition add_round_key :: "u8 list \<Rightarrow> u8 list \<Rightarrow> u8 list" where
  "add_round_key block round_key = map (\<lambda>i. block ! i XOR round_key ! i) [0..<AES_BLOCK_SIZE]"

definition sub_bytes :: "u8 list \<Rightarrow> u8 list" where
  "sub_bytes block = map (\<lambda>i. SBOX ! unat (block ! i)) [0..<AES_BLOCK_SIZE]"

definition sub_bytes_inv :: "u8 list \<Rightarrow> u8 list" where
  "sub_bytes_inv block = map (\<lambda>i. SBOX_INV ! unat (block ! i)) [0..<AES_BLOCK_SIZE]"

text \<open>The macro \<^verbatim>\<open>shift_row!\<close>: the four right-hand sides are read before the four bytes are written.\<close>

definition shift_row :: "nat \<Rightarrow> nat \<Rightarrow> nat \<Rightarrow> nat \<Rightarrow> nat \<Rightarrow> u8 list \<Rightarrow> u8 list" where
  "shift_row row col0 col1 col2 col3 block =
     block[4 * 0 + row := block ! (4 * col0 + row), 4 * 1 + row := block ! (4 * col1 + row),
           4 * 2 + row := block ! (4 * col2 + row), 4 * 3 + row := block ! (4 * col3 + row)]"

definition shift_rows :: "u8 list \<Rightarrow> u8 list" where
  "shift_rows block = (
     let block = shift_row 1 1 2 3 0 block;
         block = shift_row 2 2 3 0 1 block
     in shift_row 3 3 0 1 2 block)"

definition shift_rows_inv :: "u8 list \<Rightarrow> u8 list" where
  "shift_rows_inv block = (
     let block = shift_row 1 3 0 1 2 block;
         block = shift_row 2 2 3 0 1 block
     in shift_row 3 1 2 3 0 block)"

text \<open>The body of the loop over the columns.\<close>

definition mix_column :: "u8 list \<Rightarrow> nat \<Rightarrow> u8 list" where
  "mix_column block col = (
     let a0 = block ! (4 * col); a1 = block ! (4 * col + 1); a2 = block ! (4 * col + 2); a3 = block ! (4 * col + 3)
     in block[4 * col := MUL_2 ! unat a0 XOR a3 XOR a2 XOR MUL_3 ! unat a1,
              4 * col + 1 := MUL_2 ! unat a1 XOR a0 XOR a3 XOR MUL_3 ! unat a2,
              4 * col + 2 := MUL_2 ! unat a2 XOR a1 XOR a0 XOR MUL_3 ! unat a3,
              4 * col + 3 := MUL_2 ! unat a3 XOR a2 XOR a1 XOR MUL_3 ! unat a0])"

definition mix_columns :: "u8 list \<Rightarrow> u8 list" where
  "mix_columns block = foldl mix_column block [0..<4]"

definition mix_column_inv :: "u8 list \<Rightarrow> nat \<Rightarrow> u8 list" where
  "mix_column_inv block col = (
     let a0 = block ! (4 * col); a1 = block ! (4 * col + 1); a2 = block ! (4 * col + 2); a3 = block ! (4 * col + 3)
     in block[4 * col := MUL_9 ! unat a3 XOR MUL_11 ! unat a1 XOR MUL_13 ! unat a2 XOR MUL_14 ! unat a0,
              4 * col + 1 := MUL_9 ! unat a0 XOR MUL_11 ! unat a2 XOR MUL_13 ! unat a3 XOR MUL_14 ! unat a1,
              4 * col + 2 := MUL_9 ! unat a1 XOR MUL_11 ! unat a3 XOR MUL_13 ! unat a0 XOR MUL_14 ! unat a2,
              4 * col + 3 := MUL_9 ! unat a2 XOR MUL_11 ! unat a0 XOR MUL_13 ! unat a1 XOR MUL_14 ! unat a3])"

definition mix_columns_inv :: "u8 list \<Rightarrow> u8 list" where
  "mix_columns_inv block = foldl mix_column_inv block [0..<4]"

section \<open>The ciphers\<close>

text \<open>The loops of \<^verbatim>\<open>block_encrypt\<close> and \<^verbatim>\<open>block_decrypt\<close>, for a number of rounds.\<close>

definition encrypt_round :: "u8 list list \<Rightarrow> u8 list \<Rightarrow> nat \<Rightarrow> u8 list" where
  "encrypt_round keys block round = add_round_key (mix_columns (shift_rows (sub_bytes block))) (keys ! round)"

definition encrypt_rounds :: "nat \<Rightarrow> u8 list list \<Rightarrow> u8 list \<Rightarrow> u8 list" where
  "encrypt_rounds R keys block = (
     let block = add_round_key block (keys ! 0);
         block = foldl (encrypt_round keys) block [1..<R]
     in add_round_key (shift_rows (sub_bytes block)) (keys ! R))"

definition decrypt_round :: "u8 list list \<Rightarrow> u8 list \<Rightarrow> nat \<Rightarrow> u8 list" where
  "decrypt_round keys block round = sub_bytes_inv (shift_rows_inv (mix_columns_inv (add_round_key block (keys ! round))))"

definition decrypt_rounds :: "nat \<Rightarrow> u8 list list \<Rightarrow> u8 list \<Rightarrow> u8 list" where
  "decrypt_rounds R keys block = (
     let block = sub_bytes_inv (shift_rows_inv (add_round_key block (keys ! R)));
         block = foldl (decrypt_round keys) block (rev [1..<R])
     in add_round_key block (keys ! 0))"

text \<open>The last loop of the key expansions: the columns 1 to 3 of a round key, from the key \<open>prev\<close> and the column before.\<close>

definition key_columns :: "u8 list \<Rightarrow> u8 list \<Rightarrow> u8 list" where
  "key_columns prev cur = foldl (\<lambda>cur (col, row). cur[4 * col + row := prev ! (4 * col + row) XOR cur ! (4 * (col - 1) + row)])
     cur (concat (map (\<lambda>col. map (Pair col) [0..<4]) [1..<4]))"

record Aes128 =
  round_keys128 :: "u8 list list"

definition Aes128_default :: Aes128 where
  "Aes128_default = \<lparr>round_keys128 = replicate (AES128_ROUND + 1) (replicate AES_BLOCK_SIZE 0)\<rparr>"

definition expand_round128 :: "u8 list list \<Rightarrow> nat \<Rightarrow> u8 list list" where
  "expand_round128 keys round = (
     let prev = keys ! (round - 1);
         cur = foldl (\<lambda>cur row. cur[row := (if row = 0 then RC ! (round - 1) else 0) XOR
                   SBOX ! unat (prev ! (4 * 3 + (row + 1) mod 4)) XOR prev ! row]) (keys ! round) [0..<4]
     in keys[round := key_columns prev cur])"

definition aes128_set_key :: "Aes128 \<Rightarrow> u8 list \<Rightarrow> Aes128 option" where
  "aes128_set_key c key = do {
     rust_assert (length key = AES128_KEY_SIZE);
     let keys = (round_keys128 c)[0 := key];
     Some (c\<lparr>round_keys128 := foldl expand_round128 keys [1..<AES128_ROUND + 1]\<rparr>)
   }"

definition aes128_block_encrypt :: "Aes128 \<Rightarrow> u8 list \<Rightarrow> (u8 list \<times> Aes128) option" where
  "aes128_block_encrypt c block = do {
     rust_assert (length block = AES_BLOCK_SIZE);
     Some (encrypt_rounds AES128_ROUND (round_keys128 c) block, c)
   }"

definition aes128_block_decrypt :: "Aes128 \<Rightarrow> u8 list \<Rightarrow> (u8 list \<times> Aes128) option" where
  "aes128_block_decrypt c block = do {
     rust_assert (length block = AES_BLOCK_SIZE);
     Some (decrypt_rounds AES128_ROUND (round_keys128 c) block, c)
   }"

definition Aes128_ops :: "Aes128 BlockCipher" where
  "Aes128_ops = \<lparr>BLOCK_SIZE = AES_BLOCK_SIZE, BLOCK_KEY_SIZE = AES128_KEY_SIZE, block_set_key = aes128_set_key,
     block_encrypt = aes128_block_encrypt, block_decrypt = aes128_block_decrypt\<rparr>"

record Aes256 =
  round_keys256 :: "u8 list list"

definition Aes256_default :: Aes256 where
  "Aes256_default = \<lparr>round_keys256 = replicate (AES256_ROUND + 1) (replicate AES_BLOCK_SIZE 0)\<rparr>"

definition expand_round256 :: "u8 list list \<Rightarrow> nat \<Rightarrow> u8 list list" where
  "expand_round256 keys round = (
     let prev = keys ! (round - 2);
         w_1 = keys ! (round - 1);
         cur = foldl (\<lambda>cur row. cur[row :=
                   (let rc = (if row = 0 then RC ! ((round - 1) div 2) else 0)
                    in if round mod 2 = 0 then rc XOR SBOX ! unat (w_1 ! (4 * 3 + (row + 1) mod 4)) XOR prev ! row
                       else SBOX ! unat (w_1 ! (4 * 3 + row)) XOR prev ! row)]) (keys ! round) [0..<4]
     in keys[round := key_columns prev cur])"

definition aes256_set_key :: "Aes256 \<Rightarrow> u8 list \<Rightarrow> Aes256 option" where
  "aes256_set_key c key = do {
     rust_assert (length key = AES256_KEY_SIZE);
     let keys = (round_keys256 c)[0 := take AES_BLOCK_SIZE key, 1 := drop AES_BLOCK_SIZE key];
     Some (c\<lparr>round_keys256 := foldl expand_round256 keys [2..<AES256_ROUND + 1]\<rparr>)
   }"

definition aes256_block_encrypt :: "Aes256 \<Rightarrow> u8 list \<Rightarrow> (u8 list \<times> Aes256) option" where
  "aes256_block_encrypt c block = do {
     rust_assert (length block = AES_BLOCK_SIZE);
     Some (encrypt_rounds AES256_ROUND (round_keys256 c) block, c)
   }"

definition aes256_block_decrypt :: "Aes256 \<Rightarrow> u8 list \<Rightarrow> (u8 list \<times> Aes256) option" where
  "aes256_block_decrypt c block = do {
     rust_assert (length block = AES_BLOCK_SIZE);
     Some (decrypt_rounds AES256_ROUND (round_keys256 c) block, c)
   }"

definition Aes256_ops :: "Aes256 BlockCipher" where
  "Aes256_ops = \<lparr>BLOCK_SIZE = AES_BLOCK_SIZE, BLOCK_KEY_SIZE = AES256_KEY_SIZE, block_set_key = aes256_set_key,
     block_encrypt = aes256_block_encrypt, block_decrypt = aes256_block_decrypt\<rparr>"

section \<open>Decryption undoes encryption\<close>

lemma upt_4: "[0..<4] = [0, 1, 2, 3 :: nat]"
  by (simp add: upt_conv_Cons)

lemma round_lengths [simp]:
  "length (add_round_key b k) = 16" "length (sub_bytes b) = 16" "length (sub_bytes_inv b) = 16"
  "length (shift_rows b) = length b" "length (shift_rows_inv b) = length b"
  by (simp_all add: add_round_key_def sub_bytes_def sub_bytes_inv_def AES_BLOCK_SIZE_def shift_rows_def shift_rows_inv_def
    shift_row_def Let_def)

lemma mix_column_length: "length (mix_column b c) = length b" "length (mix_column_inv b c) = length b"
  by (simp_all add: mix_column_def mix_column_inv_def Let_def)

lemma mix_columns_length [simp]: "length (mix_columns b) = length b" "length (mix_columns_inv b) = length b"
  by (simp_all add: mix_columns_def mix_columns_inv_def mix_column_length upt_4)

lemma add_round_key_twice: "length b = 16 \<Longrightarrow> add_round_key (add_round_key b k) k = b"
  by (rule nth_equalityI) (simp_all add: add_round_key_def AES_BLOCK_SIZE_def xor.assoc)

lemma sub_bytes_inverse: "length b = 16 \<Longrightarrow> sub_bytes_inv (sub_bytes b) = b" "length b = 16 \<Longrightarrow> sub_bytes (sub_bytes_inv b) = b"
  by (auto intro!: nth_equalityI simp: sub_bytes_def sub_bytes_inv_def AES_BLOCK_SIZE_def)

lemma shift_rows_inverse: "length b = 16 \<Longrightarrow> shift_rows_inv (shift_rows b) = b" "length b = 16 \<Longrightarrow> shift_rows (shift_rows_inv b) = b"
  by (elim length_16, simp add: shift_rows_def shift_rows_inv_def shift_row_def Let_def)+

text \<open>One column: the product of the two matrices over the field is the identity.\<close>

lemma mix_inverse_byte:
  fixes a0 a1 a2 a3 :: u8
  shows "MUL_9 ! unat (MUL_2 ! unat a3 XOR a2 XOR a1 XOR MUL_3 ! unat a0) XOR MUL_11 ! unat (MUL_2 ! unat a1 XOR a0 XOR a3 XOR MUL_3 ! unat a2) XOR
   MUL_13 ! unat (MUL_2 ! unat a2 XOR a1 XOR a0 XOR MUL_3 ! unat a3) XOR MUL_14 ! unat (MUL_2 ! unat a0 XOR a3 XOR a2 XOR MUL_3 ! unat a1) = a0"
  unfolding MUL_nth by (simp add: xtime_xor ac_simps)

lemma mix_byte_inverse:
  fixes a0 a1 a2 a3 :: u8
  shows "MUL_2 ! unat (MUL_9 ! unat a3 XOR MUL_11 ! unat a1 XOR MUL_13 ! unat a2 XOR MUL_14 ! unat a0) XOR
   (MUL_9 ! unat a2 XOR MUL_11 ! unat a0 XOR MUL_13 ! unat a1 XOR MUL_14 ! unat a3) XOR
   (MUL_9 ! unat a1 XOR MUL_11 ! unat a3 XOR MUL_13 ! unat a0 XOR MUL_14 ! unat a2) XOR
   MUL_3 ! unat (MUL_9 ! unat a0 XOR MUL_11 ! unat a2 XOR MUL_13 ! unat a3 XOR MUL_14 ! unat a1) = a0"
  unfolding MUL_nth by (simp add: xtime_xor ac_simps)

lemma mix_columns_inverse: "length b = 16 \<Longrightarrow> mix_columns_inv (mix_columns b) = b" "length b = 16 \<Longrightarrow> mix_columns (mix_columns_inv b) = b"
  by (elim length_16, simp add: mix_columns_def mix_columns_inv_def mix_column_def mix_column_inv_def Let_def upt_4
    mix_inverse_byte mix_byte_inverse)+

lemma encrypt_round_inverse: "length b = 16 \<Longrightarrow> decrypt_round keys (encrypt_round keys b r) r = b"
  by (simp add: encrypt_round_def decrypt_round_def add_round_key_twice mix_columns_inverse shift_rows_inverse sub_bytes_inverse)

lemma encrypt_round_length: "length (encrypt_round keys b r) = 16"
  by (simp add: encrypt_round_def)

lemma rounds_inverse: "length b = 16 \<Longrightarrow> foldl (decrypt_round keys) (foldl (encrypt_round keys) b rs) (rev rs) = b"
  by (induction rs arbitrary: b) (simp_all add: encrypt_round_inverse encrypt_round_length)

lemma rounds_length: "length b = 16 \<Longrightarrow> length (foldl (encrypt_round keys) b rs) = 16"
  by (induction rs arbitrary: b) (simp_all add: encrypt_round_length)

lemma encrypt_rounds_inverse: "length b = 16 \<Longrightarrow> decrypt_rounds R keys (encrypt_rounds R keys b) = b"
  by (simp add: encrypt_rounds_def decrypt_rounds_def Let_def add_round_key_twice shift_rows_inverse sub_bytes_inverse
    rounds_length rounds_inverse)

lemma encrypt_rounds_length [simp]: "length (encrypt_rounds R keys b) = 16"
  by (simp add: encrypt_rounds_def Let_def)

section \<open>The key schedule\<close>

definition sub_word :: "u8 list \<Rightarrow> u8 list" where
  "sub_word w = map (\<lambda>b. SBOX ! unat b) w"

definition rcon :: "nat \<Rightarrow> u8" where
  "rcon j = (xtime ^^ (j - 1)) 1"

text \<open>FIPS 197, with \<open>Nk\<close> the number of words of the key.\<close>

fun key_word :: "nat \<Rightarrow> u8 list \<Rightarrow> nat \<Rightarrow> u8 list" where
  "key_word Nk key i =
     (if i < Nk \<or> Nk = 0 then take 4 (drop (4 * i) key)
      else let t = key_word Nk key (i - 1);
               t = (if i mod Nk = 0 then xor_list (sub_word (rotate1 t)) [rcon (i div Nk), 0, 0, 0]
                    else if 6 < Nk \<and> i mod Nk = 4 then sub_word t else t)
           in xor_list (key_word Nk key (i - Nk)) t)"

declare key_word.simps [simp del]

definition round_key :: "nat \<Rightarrow> u8 list \<Rightarrow> nat \<Rightarrow> u8 list" where
  "round_key Nk key r = concat (map (key_word Nk key) [4 * r, 4 * r + 1, 4 * r + 2, 4 * r + 3])"

lemma key_word_length: "0 < Nk \<Longrightarrow> length key = 4 * Nk \<Longrightarrow> length (key_word Nk key i) = 4"
proof (induction Nk key i rule: key_word.induct)
  case (1 Nk key i)
  show ?case
  proof (cases "i < Nk")
    case True
    then show ?thesis using 1 by (simp add: key_word.simps [of Nk key i])
  next
    case False
    then have "length (key_word Nk key (i - 1)) = 4" "length (key_word Nk key (i - Nk)) = 4" using 1 by simp_all
    then show ?thesis using False 1(3,4) by (subst key_word.simps) (simp add: Let_def sub_word_def)
  qed
qed

lemma RC_table: "RC = map (\<lambda>j. rcon (Suc j)) [0..<15]"
  by (simp add: RC_def rcon_def xtime_def upt_conv_Cons)

lemma RC_rcon: "j < 15 \<Longrightarrow> RC ! j = rcon (Suc j)"
  by (simp add: RC_table)

lemma length_4: "length w = 4 \<Longrightarrow> (\<And>a b c d. w = [a, b, c, d :: 'a] \<Longrightarrow> thesis) \<Longrightarrow> thesis"
  by (auto simp: length_Suc_conv eval_nat_numeral)

lemma key_columns_words:
  assumes "length w0 = 4" "length w1 = 4" "length w2 = 4" "length w3 = 4" "length v0 = 4" "length cur = 16" "take 4 cur = v0"
  shows "key_columns (w0 @ w1 @ w2 @ w3) cur =
    v0 @ xor_list w1 v0 @ xor_list w2 (xor_list w1 v0) @ xor_list w3 (xor_list w2 (xor_list w1 v0))"
  using assms
proof (elim length_16)
  fix x0 x1 x2 x3 x4 x5 x6 x7 x8 x9 x10 x11 x12 x13 x14 x15
  assume cur: "cur = [x0, x1, x2, x3, x4, x5, x6, x7, x8, x9, x10, x11, x12, x13, x14, x15]"
  have pairs: "concat (map (\<lambda>col. map (Pair col) [0..<4]) [1..<4]) =
      [(1, 0), (1, 1), (1, 2), (1, 3), (2, 0), (2, 1), (2, 2), (2, 3), (3, 0), (3, 1), (3, 2), (3 :: nat, 3 :: nat)]"
    by (simp add: upt_conv_Cons)
  have v0: "v0 = [x0, x1, x2, x3]" using assms(7) cur by simp
  show ?thesis using assms(1-4) unfolding v0 cur key_columns_def pairs
    by (elim length_4) simp
qed

lemma expand_round128_words:
  assumes "length w0 = 4" "length w1 = 4" "length w2 = 4" "length w3 = 4" "length (keys ! round) = 16"
    "keys ! (round - 1) = w0 @ w1 @ w2 @ w3" "v0 = xor_list w0 (xor_list (sub_word (rotate1 w3)) [RC ! (round - 1), 0, 0, 0])"
  shows "expand_round128 keys round = keys[round := v0 @ xor_list w1 v0 @ xor_list w2 (xor_list w1 v0) @ xor_list w3 (xor_list w2 (xor_list w1 v0))]"
proof -
  let ?p = "w0 @ w1 @ w2 @ w3"
  let ?cur = "foldl (\<lambda>cur row. cur[row := (if row = 0 then RC ! (round - 1) else 0) XOR
      SBOX ! unat (?p ! (4 * 3 + (row + 1) mod 4)) XOR ?p ! row]) (keys ! round) [0..<4]"
  have "length ?cur = 16 \<and> take 4 ?cur = v0"
    using assms(1-5) unfolding assms(7) upt_4
    by (elim length_4 length_16) (simp add: sub_word_def ac_simps)
  moreover have "length v0 = 4" using assms(1,4) by (simp add: assms(7) sub_word_def)
  ultimately show ?thesis using key_columns_words [OF assms(1-4)] by (simp only: expand_round128_def Let_def assms(6))
qed

lemma expand_round256_words:
  assumes "length w0 = 4" "length w1 = 4" "length w2 = 4" "length w3 = 4" "length u0 = 4" "length u1 = 4" "length u2 = 4" "length u3 = 4"
    "length (keys ! round) = 16" "keys ! (round - 2) = w0 @ w1 @ w2 @ w3" "keys ! (round - 1) = u0 @ u1 @ u2 @ u3"
    "v0 = xor_list w0 (if round mod 2 = 0 then xor_list (sub_word (rotate1 u3)) [RC ! ((round - 1) div 2), 0, 0, 0] else sub_word u3)"
  shows "expand_round256 keys round = keys[round := v0 @ xor_list w1 v0 @ xor_list w2 (xor_list w1 v0) @ xor_list w3 (xor_list w2 (xor_list w1 v0))]"
proof -
  let ?p = "w0 @ w1 @ w2 @ w3" and ?u = "u0 @ u1 @ u2 @ u3"
  let ?cur = "foldl (\<lambda>cur row. cur[row := (let rc = (if row = 0 then RC ! ((round - 1) div 2) else 0)
      in if round mod 2 = 0 then rc XOR SBOX ! unat (?u ! (4 * 3 + (row + 1) mod 4)) XOR ?p ! row
         else SBOX ! unat (?u ! (4 * 3 + row)) XOR ?p ! row)]) (keys ! round) [0..<4]"
  have "length ?cur = 16 \<and> take 4 ?cur = v0"
    using assms(1-9) unfolding assms(12) upt_4
    by (elim length_4 length_16) (simp add: sub_word_def Let_def ac_simps)
  moreover have "length v0 = 4" using assms(1,8) by (simp add: assms(12) sub_word_def)
  ultimately show ?thesis using key_columns_words [OF assms(1-4)] by (simp only: expand_round256_def Let_def assms(10,11))
qed

lemma key_word_step:
  assumes "Nk \<le> i" "0 < Nk"
  shows "key_word Nk key i = xor_list (key_word Nk key (i - Nk))
    (if i mod Nk = 0 then xor_list (sub_word (rotate1 (key_word Nk key (i - 1)))) [rcon (i div Nk), 0, 0, 0]
     else if 6 < Nk \<and> i mod Nk = 4 then sub_word (key_word Nk key (i - 1)) else key_word Nk key (i - 1))"
  using assms by (simp add: key_word.simps [of Nk key i] Let_def)

lemma round_key_append:
  "round_key Nk key r = key_word Nk key (4 * r) @ key_word Nk key (4 * r + 1) @ key_word Nk key (4 * r + 2) @ key_word Nk key (4 * r + 3)"
  by (simp add: round_key_def)

lemma key_word_plain:
  assumes "i = j + Nk" "i = Suc p" "0 < Nk" "i mod Nk \<noteq> 0" "Nk \<le> 6 \<or> i mod Nk \<noteq> 4"
  shows "key_word Nk key i = xor_list (key_word Nk key j) (key_word Nk key p)"
proof -
  have "i - Nk = j" "i - 1 = p" using assms(1,2) by simp_all
  then show ?thesis using key_word_step [of Nk i key] assms by auto
qed

lemma key_word_first:
  assumes "i = j + Nk" "i = Suc p" "0 < Nk" "i mod Nk = 0" "i div Nk = d"
  shows "key_word Nk key i = xor_list (key_word Nk key j) (xor_list (sub_word (rotate1 (key_word Nk key p))) [rcon d, 0, 0, 0])"
proof -
  have "i - Nk = j" "i - 1 = p" using assms(1,2) by simp_all
  then show ?thesis using key_word_step [of Nk i key] assms by simp
qed

lemma key_word_middle:
  assumes "i = j + Nk" "i = Suc p" "6 < Nk" "i mod Nk = 4"
  shows "key_word Nk key i = xor_list (key_word Nk key j) (sub_word (key_word Nk key p))"
proof -
  have "i - Nk = j" "i - 1 = p" using assms(1,2) by simp_all
  then show ?thesis using key_word_step [of Nk i key] assms by simp
qed

lemma round_key128_Suc:
  "round_key 4 key (Suc n) = (
     let v0 = xor_list (key_word 4 key (4 * n)) (xor_list (sub_word (rotate1 (key_word 4 key (4 * n + 3)))) [rcon (Suc n), 0, 0, 0]);
         v1 = xor_list (key_word 4 key (4 * n + 1)) v0;
         v2 = xor_list (key_word 4 key (4 * n + 2)) v1
     in v0 @ v1 @ v2 @ xor_list (key_word 4 key (4 * n + 3)) v2)"
proof -
  have "key_word 4 key (4 * Suc n) = xor_list (key_word 4 key (4 * n)) (xor_list (sub_word (rotate1 (key_word 4 key (4 * n + 3)))) [rcon (Suc n), 0, 0, 0])"
    by (rule key_word_first) presburger+
  moreover have "key_word 4 key (4 * Suc n + 1) = xor_list (key_word 4 key (4 * n + 1)) (key_word 4 key (4 * Suc n))"
    by (rule key_word_plain) presburger+
  moreover have "key_word 4 key (4 * Suc n + 2) = xor_list (key_word 4 key (4 * n + 2)) (key_word 4 key (4 * Suc n + 1))"
    by (rule key_word_plain) presburger+
  moreover have "key_word 4 key (4 * Suc n + 3) = xor_list (key_word 4 key (4 * n + 3)) (key_word 4 key (4 * Suc n + 2))"
    by (rule key_word_plain) presburger+
  ultimately show ?thesis by (simp only: round_key_append Let_def)
qed

lemma round_key256_Suc:
  "round_key 8 key (Suc (Suc n)) = (
     let v0 = xor_list (key_word 8 key (4 * n)) (if Suc (Suc n) mod 2 = 0
           then xor_list (sub_word (rotate1 (key_word 8 key (4 * Suc n + 3)))) [rcon (Suc (n div 2)), 0, 0, 0]
           else sub_word (key_word 8 key (4 * Suc n + 3)));
         v1 = xor_list (key_word 8 key (4 * n + 1)) v0;
         v2 = xor_list (key_word 8 key (4 * n + 2)) v1
     in v0 @ v1 @ v2 @ xor_list (key_word 8 key (4 * n + 3)) v2)"
proof -
  let ?r = "Suc (Suc n)"
  have "key_word 8 key (4 * ?r) = xor_list (key_word 8 key (4 * n))
      (xor_list (sub_word (rotate1 (key_word 8 key (4 * Suc n + 3)))) [rcon (Suc (n div 2)), 0, 0, 0])" if "?r mod 2 = 0"
    using that by (intro key_word_first) presburger+
  moreover have "key_word 8 key (4 * ?r) = xor_list (key_word 8 key (4 * n)) (sub_word (key_word 8 key (4 * Suc n + 3)))" if "?r mod 2 \<noteq> 0"
    using that by (intro key_word_middle) presburger+
  ultimately have "key_word 8 key (4 * ?r) = xor_list (key_word 8 key (4 * n)) (if ?r mod 2 = 0
      then xor_list (sub_word (rotate1 (key_word 8 key (4 * Suc n + 3)))) [rcon (Suc (n div 2)), 0, 0, 0]
      else sub_word (key_word 8 key (4 * Suc n + 3)))"
    by (simp only: split: if_split) blast
  moreover have "key_word 8 key (4 * ?r + 1) = xor_list (key_word 8 key (4 * n + 1)) (key_word 8 key (4 * ?r))"
    by (rule key_word_plain) presburger+
  moreover have "key_word 8 key (4 * ?r + 2) = xor_list (key_word 8 key (4 * n + 2)) (key_word 8 key (4 * ?r + 1))"
    by (rule key_word_plain) presburger+
  moreover have "key_word 8 key (4 * ?r + 3) = xor_list (key_word 8 key (4 * n + 3)) (key_word 8 key (4 * ?r + 2))"
    by (rule key_word_plain) presburger+
  ultimately show ?thesis by (simp only: round_key_append Let_def)
qed

text \<open>The expansions fill the array with the round keys of the schedule, one after the other.\<close>

definition keys_shape :: "nat \<Rightarrow> u8 list list \<Rightarrow> bool" where
  "keys_shape R keys \<longleftrightarrow> length keys = R + 1 \<and> (\<forall>r < R + 1. length (keys ! r) = 16)"

definition keys_done :: "nat \<Rightarrow> u8 list \<Rightarrow> nat \<Rightarrow> u8 list list \<Rightarrow> bool" where
  "keys_done Nk key k keys \<longleftrightarrow> (\<forall>r < k. keys ! r = round_key Nk key r)"

lemma round_key_length: "0 < Nk \<Longrightarrow> length key = 4 * Nk \<Longrightarrow> length (round_key Nk key r) = 16"
  by (simp add: round_key_append key_word_length)

lemma keys_update:
  assumes "keys_shape R keys" "keys_done Nk key k keys" "k < R + 1" "0 < Nk" "length key = 4 * Nk"
  shows "keys_shape R (keys[k := round_key Nk key k])" "keys_done Nk key (Suc k) (keys[k := round_key Nk key k])"
  using assms round_key_length by (auto simp: keys_shape_def keys_done_def nth_list_update less_Suc_eq)

lemma expand_round128_key:
  assumes "keys_shape 10 keys" "keys_done 4 key (Suc n) keys" "Suc n < 11" "length key = 16"
  shows "expand_round128 keys (Suc n) = keys[Suc n := round_key 4 key (Suc n)]"
proof -
  have w: "length (key_word 4 key i) = 4" for i using key_word_length [of 4 key] assms(4) by simp
  have "length (keys ! Suc n) = 16" using assms(1,3) by (simp add: keys_shape_def)
  moreover have "keys ! (Suc n - 1) = key_word 4 key (4 * n) @ key_word 4 key (4 * n + 1) @ key_word 4 key (4 * n + 2) @ key_word 4 key (4 * n + 3)"
    using assms(2) by (simp add: keys_done_def round_key_append)
  moreover have "RC ! (Suc n - 1) = rcon (Suc n)" using RC_rcon assms(3) by simp
  ultimately show ?thesis using expand_round128_words [OF w w w w] unfolding round_key128_Suc Let_def by (simp only:)
qed

lemma expand128_loop:
  assumes "keys_shape 10 keys" "keys_done 4 key k keys" "0 < k" "k \<le> 11" "length key = 16"
  shows "keys_shape 10 (foldl expand_round128 keys [k..<11]) \<and> keys_done 4 key 11 (foldl expand_round128 keys [k..<11])"
  using assms
proof (induction "11 - k" arbitrary: k keys)
  case (Suc m)
  then obtain n where n: "k = Suc n" "Suc n < 11" by (cases k) auto
  have "expand_round128 keys k = keys[k := round_key 4 key k]" using expand_round128_key [of keys key n] Suc.prems n by simp
  then show ?case using Suc.hyps(1) [of "Suc k" "keys[k := round_key 4 key k]"] keys_update [OF Suc.prems(1,2)] Suc.prems(5) Suc.hyps(2) n
    by (simp add: upt_conv_Cons)
qed simp

lemma expand_round256_key:
  assumes "keys_shape 14 keys" "keys_done 8 key (Suc (Suc n)) keys" "Suc (Suc n) < 15" "length key = 32"
  shows "expand_round256 keys (Suc (Suc n)) = keys[Suc (Suc n) := round_key 8 key (Suc (Suc n))]"
proof -
  have w: "length (key_word 8 key i) = 4" for i using key_word_length [of 8 key] assms(4) by simp
  have "length (keys ! Suc (Suc n)) = 16" using assms(1,3) by (simp add: keys_shape_def)
  moreover have "keys ! (Suc (Suc n) - 2) = key_word 8 key (4 * n) @ key_word 8 key (4 * n + 1) @ key_word 8 key (4 * n + 2) @ key_word 8 key (4 * n + 3)"
    using assms(2) by (simp add: keys_done_def round_key_append)
  moreover have "keys ! (Suc (Suc n) - 1) = key_word 8 key (4 * Suc n) @ key_word 8 key (4 * Suc n + 1) @ key_word 8 key (4 * Suc n + 2) @ key_word 8 key (4 * Suc n + 3)"
    using assms(2) unfolding keys_done_def round_key_append [symmetric] by simp
  moreover have "Suc (Suc n) mod 2 = 0 \<Longrightarrow> RC ! ((Suc (Suc n) - 1) div 2) = rcon (Suc (n div 2))"
  proof -
    assume "Suc (Suc n) mod 2 = 0"
    then have "(Suc (Suc n) - 1) div 2 = n div 2" by presburger
    then show ?thesis using RC_rcon [of "n div 2"] assms(3) by simp
  qed
  ultimately show ?thesis using expand_round256_words [OF w w w w w w w w] unfolding round_key256_Suc Let_def
    by (simp only: cong: if_cong)
qed

lemma expand256_loop:
  assumes "keys_shape 14 keys" "keys_done 8 key k keys" "1 < k" "k \<le> 15" "length key = 32"
  shows "keys_shape 14 (foldl expand_round256 keys [k..<15]) \<and> keys_done 8 key 15 (foldl expand_round256 keys [k..<15])"
  using assms
proof (induction "15 - k" arbitrary: k keys)
  case (Suc m)
  then obtain n where n: "k = Suc (Suc n)" "Suc (Suc n) < 15" by (cases k; cases "k - 1") auto
  have "expand_round256 keys k = keys[k := round_key 8 key k]" using expand_round256_key [of keys key n] Suc.prems n by simp
  then show ?case using Suc.hyps(1) [of "Suc k" "keys[k := round_key 8 key k]"] keys_update [OF Suc.prems(1,2)] Suc.prems(5) Suc.hyps(2) n
    by (simp add: upt_conv_Cons)
qed simp

lemma aes128_set_key_spec:
  assumes "keys_shape 10 (round_keys128 c)" "length key = 16"
  shows "\<exists>c'. aes128_set_key c key = Some c' \<and> keys_shape 10 (round_keys128 c') \<and> keys_done 4 key 11 (round_keys128 c')"
proof -
  let ?keys = "(round_keys128 c)[0 := key]"
  have "key = round_key 4 key 0"
    using assms(2) by (elim length_16) (simp add: round_key_append key_word.simps)
  then have "keys_shape 10 ?keys" "keys_done 4 key 1 ?keys" using assms by (auto simp: keys_shape_def keys_done_def nth_list_update)
  from expand128_loop [OF this _ _ assms(2)] show ?thesis
    using assms(2) by (simp add: aes128_set_key_def AES128_KEY_SIZE_def AES128_ROUND_def)
qed

lemma split_16: "length xs = 16 \<Longrightarrow> xs = take 4 xs @ take 4 (drop 4 xs) @ take 4 (drop 8 xs) @ take 4 (drop 12 xs)"
  by (elim length_16) simp

lemma aes256_set_key_spec:
  assumes "keys_shape 14 (round_keys256 c)" "length key = 32"
  shows "\<exists>c'. aes256_set_key c key = Some c' \<and> keys_shape 14 (round_keys256 c') \<and> keys_done 8 key 15 (round_keys256 c')"
proof -
  let ?keys = "(round_keys256 c)[0 := take 16 key, 1 := drop 16 key]"
  have lens: "length (take 16 key) = 16" "length (drop 16 key) = 16" using assms(2) by simp_all
  have "take 16 key = take 4 key @ take 4 (drop 4 key) @ take 4 (drop 8 key) @ take 4 (drop 12 key)"
    "drop 16 key = take 4 (drop 16 key) @ take 4 (drop 20 key) @ take 4 (drop 24 key) @ take 4 (drop 28 key)"
    using split_16 [OF lens(1)] split_16 [OF lens(2)] by (simp_all add: drop_take)
  then have "take 16 key = round_key 8 key 0" "drop 16 key = round_key 8 key 1"
    by (simp_all add: round_key_append key_word.simps)
  then have "keys_shape 14 ?keys" "keys_done 8 key 2 ?keys"
    using assms lens by (auto simp: keys_shape_def keys_done_def nth_list_update less_Suc_eq numeral_2_eq_2)
  from expand256_loop [OF this _ _ assms(2)] show ?thesis
    using assms(2) by (simp add: aes256_set_key_def AES256_KEY_SIZE_def AES256_ROUND_def AES_BLOCK_SIZE_def)
qed

interpretation aes128: block_cipher Aes128_ops "\<lambda>c. keys_shape 10 (round_keys128 c)"
  using aes128_set_key_spec by unfold_locales
    (auto simp: Aes128_ops_def AES128_KEY_SIZE_def AES_BLOCK_SIZE_def aes128_block_encrypt_def aes128_block_decrypt_def encrypt_rounds_inverse)

interpretation aes256: block_cipher Aes256_ops "\<lambda>c. keys_shape 14 (round_keys256 c)"
  using aes256_set_key_spec by unfold_locales
    (auto simp: Aes256_ops_def AES256_KEY_SIZE_def AES_BLOCK_SIZE_def aes256_block_encrypt_def aes256_block_decrypt_def encrypt_rounds_inverse)

section \<open>Properties\<close>

lemma default_shapes: "keys_shape 10 (round_keys128 Aes128_default)" "keys_shape 14 (round_keys256 Aes256_default)"
  by (simp_all add: keys_shape_def Aes128_default_def Aes256_default_def AES128_ROUND_def AES256_ROUND_def AES_BLOCK_SIZE_def)

text \<open>Both key expansions compute the key schedule of FIPS 197: the round keys of AES-128 and AES-256 are the words
  of the recurrence with four and with eight key words, in order, and \<^verbatim>\<open>set_key\<close> does not panic on a key of the right
  length.\<close>

theorem aes_key_expansion_correct:
  assumes "length key = 16" "length key' = 32"
  shows "\<exists>c c'. aes128_set_key Aes128_default key = Some c \<and> aes256_set_key Aes256_default key' = Some c' \<and>
    round_keys128 c = map (round_key 4 key) [0..<11] \<and> round_keys256 c' = map (round_key 8 key') [0..<15]"
proof -
  obtain c where "aes128_set_key Aes128_default key = Some c" "keys_shape 10 (round_keys128 c)" "keys_done 4 key 11 (round_keys128 c)"
    using aes128_set_key_spec [OF default_shapes(1) assms(1)] by blast
  moreover then have "round_keys128 c = map (round_key 4 key) [0..<11]"
    by (intro nth_equalityI) (auto simp: keys_shape_def keys_done_def simp del: upt_Suc)
  moreover obtain c' where "aes256_set_key Aes256_default key' = Some c'" "keys_shape 14 (round_keys256 c')" "keys_done 8 key' 15 (round_keys256 c')"
    using aes256_set_key_spec [OF default_shapes(2) assms(2)] by blast
  moreover then have "round_keys256 c' = map (round_key 8 key') [0..<15]"
    by (intro nth_equalityI) (auto simp: keys_shape_def keys_done_def simp del: upt_Suc)
  ultimately show ?thesis by blast
qed

theorem aes_key_expansion_correct_witness:
  "\<exists>c c'. aes128_set_key Aes128_default (replicate 16 1) = Some c \<and> aes256_set_key Aes256_default (replicate 32 2) = Some c' \<and>
    round_keys128 c = map (round_key 4 (replicate 16 1)) [0..<11] \<and> round_keys256 c' = map (round_key 8 (replicate 32 2)) [0..<15]"
  using aes_key_expansion_correct [of "replicate 16 1" "replicate 32 2"] by (simp only: length_replicate)

text \<open>With any key, decryption undoes encryption on every block of 16 bytes, for AES-128 and AES-256; encryption
  keeps the length and neither changes the cipher.\<close>

theorem aes_decrypts:
  assumes "length key = 16" "length key' = 32" "length b = 16"
  shows "\<exists>c e c' e'. aes128_set_key Aes128_default key = Some c \<and> aes128_block_encrypt c b = Some (e, c) \<and> length e = 16 \<and>
    aes128_block_decrypt c e = Some (b, c) \<and> aes256_set_key Aes256_default key' = Some c' \<and>
    aes256_block_encrypt c' b = Some (e', c') \<and> length e' = 16 \<and> aes256_block_decrypt c' e' = Some (b, c')"
proof -
  obtain c where c: "aes128_set_key Aes128_default key = Some c" "keys_shape 10 (round_keys128 c)"
    using aes128_set_key_spec [OF default_shapes(1) assms(1)] by blast
  obtain c' where c': "aes256_set_key Aes256_default key' = Some c'" "keys_shape 14 (round_keys256 c')"
    using aes256_set_key_spec [OF default_shapes(2) assms(2)] by blast
  show ?thesis using c(1) c'(1) aes128.encrypts [OF c(2), of b] aes256.encrypts [OF c'(2), of b] assms(3)
    by (auto simp: Aes128_ops_def Aes256_ops_def AES_BLOCK_SIZE_def)
qed

theorem aes_decrypts_witness:
  "\<exists>c e c' e'. aes128_set_key Aes128_default (replicate 16 7) = Some c \<and> aes128_block_encrypt c (replicate 16 1) = Some (e, c) \<and> length e = 16 \<and>
    aes128_block_decrypt c e = Some (replicate 16 1, c) \<and> aes256_set_key Aes256_default (replicate 32 9) = Some c' \<and>
    aes256_block_encrypt c' (replicate 16 1) = Some (e', c') \<and> length e' = 16 \<and> aes256_block_decrypt c' e' = Some (replicate 16 1, c')"
  using aes_decrypts [of "replicate 16 7" "replicate 32 9" "replicate 16 1"] by (simp only: length_replicate)

text \<open>C18: AES-256 in CBC mode: after \<^verbatim>\<open>set_key\<close> and \<^verbatim>\<open>set_iv\<close>, encrypting a message block by block gives the textbook chain
  (every block is added to the previous ciphertext block and encrypted), and a cipher set up in the same way decrypts
  it to the message.\<close>

theorem aes256_cbc_decrypts:
  assumes "length key = 32" "length iv = 16" "\<forall>b \<in> set bs. length b = 16"
  shows "\<exists>c0 c es c'. cbc_set_key Aes256_ops (CbcCipher_default Aes256_default 16) key = Some c0 \<and> set_iv c0 iv = Some c \<and>
    each_block (cbc_block_encrypt Aes256_ops) c bs = Some (es, c') \<and> length es = length bs \<and>
    (\<forall>i < length bs. es ! i = encrypt_rounds 14 (map (round_key 8 key) [0..<15]) (xor_list (bs ! i) (if i = 0 then iv else es ! (i - 1)))) \<and>
    each_block (cbc_block_decrypt Aes256_ops) c es = Some (bs, c')"
proof -
  obtain k where k: "aes256_set_key Aes256_default key = Some k" "keys_shape 14 (round_keys256 k)" "keys_done 8 key 15 (round_keys256 k)"
    using aes256_set_key_spec [OF default_shapes(2) assms(1)] by blast
  have rks: "round_keys256 k = map (round_key 8 key) [0..<15]"
    using k(2,3) by (intro nth_equalityI) (auto simp: keys_shape_def keys_done_def simp del: upt_Suc)
  let ?c = "\<lparr>inner_cipher = k, prev_block = iv\<rparr>"
  have start: "cbc_set_key Aes256_ops (CbcCipher_default Aes256_default 16) key = Some \<lparr>inner_cipher = k, prev_block = replicate 16 0\<rparr>"
    "set_iv \<lparr>inner_cipher = k, prev_block = replicate 16 0\<rparr> iv = Some ?c"
    using k(1) assms(2) by (simp_all add: cbc_set_key_def CbcCipher_default_def Aes256_ops_def set_iv_def)
  have bs: "BLOCK_SIZE Aes256_ops = 16" by (simp add: Aes256_ops_def AES_BLOCK_SIZE_def)
  obtain es c' where es: "each_block (cbc_block_encrypt Aes256_ops) ?c bs = Some (es, c')" "es = aes256.cbc_chain k iv bs"
    "\<forall>e \<in> set es. length e = 16" "each_block (cbc_block_decrypt Aes256_ops) ?c es = Some (bs, c')"
    using aes256.cbc_message [of ?c bs] k(2) assms(2,3) bs by auto
  have "es ! i = encrypt_rounds 14 (round_keys256 k) (xor_list (bs ! i) (if i = 0 then iv else es ! (i - 1)))" if "i < length bs" for i
  proof -
    have "length es = length bs" using aes256.cbc_chain_nth(1) es(2) by simp
    then have "length (xor_list (bs ! i) (if i = 0 then iv else es ! (i - 1))) = 16" using that assms(2,3) es(3) by simp
    then show ?thesis using aes256.cbc_chain_nth(2) [OF that, of k iv, folded es(2)]
      by (simp add: Aes256_ops_def aes256_block_encrypt_def AES_BLOCK_SIZE_def AES256_ROUND_def)
  qed
  moreover have "length es = length bs" using aes256.cbc_chain_nth(1) es(2) by simp
  ultimately show ?thesis using start es(1,4) rks by (metis (no_types, lifting))
qed

theorem aes256_cbc_decrypts_witness:
  "\<exists>c0 c es c'. cbc_set_key Aes256_ops (CbcCipher_default Aes256_default 16) (replicate 32 3) = Some c0 \<and> set_iv c0 (replicate 16 4) = Some c \<and>
    each_block (cbc_block_encrypt Aes256_ops) c [replicate 16 1, replicate 16 2] = Some (es, c') \<and>
    each_block (cbc_block_decrypt Aes256_ops) c es = Some ([replicate 16 1, replicate 16 2], c')"
  using aes256_cbc_decrypts [of "replicate 32 3" "replicate 16 4" "[replicate 16 1, replicate 16 2]"] by auto

end
