(* ===== verification/Chacha.thy ===== *)
theory Chacha
  imports Crypto_Framework Byte_Order
begin

text \<open>
  The stream cipher of \<^verbatim>\<open>src/crypto/chacha20/src/lib.rs\<close>.

  The operations are those of the code: the in-place quarter rounds, the refill of the 64-byte buffer and the
  loop of \<^verbatim>\<open>encrypt\<close>, with the checked increment of the block counter. \<open>chacha_block\<close> is a reference definition of
  the block function after RFC 8439, written row by row on the 4x4 matrix, with the diagonal rounds as column rounds
  of the rotated rows. The lemmas show that the buffered loop adds the reference key stream to the data, however the
  data are cut into calls, until the counter overflows.
\<close>

section \<open>The cipher\<close>

definition CHACHA_C :: "u32 list" where
  "CHACHA_C = [0x61707865, 0x3320646e, 0x79622d32, 0x6b206574]"

definition quarter_round :: "u32 \<Rightarrow> u32 \<Rightarrow> u32 \<Rightarrow> u32 \<Rightarrow> u32 \<times> u32 \<times> u32 \<times> u32" where
  "quarter_round a b c d = (
     let a = a + b; d = d XOR a; d = word_rotl 16 d;
         c = c + d; b = b XOR c; b = word_rotl 12 b;
         a = a + b; d = d XOR a; d = word_rotl 8 d;
         c = c + d; b = b XOR c; b = word_rotl 7 b
     in (a, b, c, d))"

text \<open>The macro \<^verbatim>\<open>quarter_round!\<close>, on four places of the matrix.\<close>

definition quarter_round_at :: "nat \<Rightarrow> nat \<Rightarrow> nat \<Rightarrow> nat \<Rightarrow> u32 list \<Rightarrow> u32 list" where
  "quarter_round_at a b c d m =
     (case quarter_round (m ! a) (m ! b) (m ! c) (m ! d) of (x, y, z, w) \<Rightarrow> m[a := x, b := y, c := z, d := w])"

definition double_round :: "u32 list \<Rightarrow> u32 list" where
  "double_round m = (
     let m = quarter_round_at 0 4 8 12 m;
         m = quarter_round_at 1 5 9 13 m;
         m = quarter_round_at 2 6 10 14 m;
         m = quarter_round_at 3 7 11 15 m;
         m = quarter_round_at 0 5 10 15 m;
         m = quarter_round_at 1 6 11 12 m;
         m = quarter_round_at 2 7 8 13 m
     in quarter_round_at 3 4 9 14 m)"

record ChaCha20 =
  cc_key :: "u32 list"
  cc_nonce :: "u32 list"
  cc_counter :: u32
  cc_state :: "u8 list"
  cc_ptr :: nat

definition ChaCha20_default :: ChaCha20 where
  "ChaCha20_default = \<lparr>cc_key = replicate 8 0, cc_nonce = replicate 3 0, cc_counter = 0, cc_state = replicate 64 0, cc_ptr = 0\<rparr>"

text \<open>The last loop of \<^verbatim>\<open>update_state\<close> writes the sixteen words one after the other over the whole buffer.\<close>

definition update_state :: "ChaCha20 \<Rightarrow> ChaCha20" where
  "update_state c = (
     let origin = CHACHA_C @ cc_key c @ [cc_counter c] @ cc_nonce c;
         m = (double_round ^^ 10) origin
     in c\<lparr>cc_state := concat (map to_le_bytes (map2 (+) m origin))\<rparr>)"

definition chacha_set_key :: "ChaCha20 \<Rightarrow> u8 list \<Rightarrow> ChaCha20 option" where
  "chacha_set_key c key = do {
     rust_assert (length key = 32);
     Some (c\<lparr>cc_key := map (\<lambda>i. from_le_bytes (take 4 (drop (4 * i) key))) [0..<8]\<rparr>)
   }"

definition chacha_set_nonce :: "ChaCha20 \<Rightarrow> u8 list \<Rightarrow> ChaCha20 option" where
  "chacha_set_nonce c nonce = do {
     rust_assert (length nonce = 12);
     Some (c\<lparr>cc_nonce := map (\<lambda>i. from_le_bytes (take 4 (drop (4 * i) nonce))) [0..<3]\<rparr>)
   }"

text \<open>\<^verbatim>\<open>if self.state_ptr == 0 { self.update_state(); self.counter += 1; }\<close>; the addition panics on overflow.\<close>

definition chacha_refill :: "ChaCha20 \<Rightarrow> ChaCha20 option" where
  "chacha_refill c =
     (if cc_ptr c = 0 then do {
        let c = update_state c;
        rust_assert (cc_counter c \<noteq> 2 ^ 32 - 1);
        Some (c\<lparr>cc_counter := cc_counter c + 1\<rparr>)
      } else Some c)"

lemma chacha_refill_ptr: "chacha_refill c = Some c' \<Longrightarrow> cc_ptr c' = cc_ptr c"
  by (auto simp: chacha_refill_def update_state_def Let_def rust_simps bind_eq_Some_conv split: if_splits)

function (sequential) chacha_encrypt :: "ChaCha20 \<Rightarrow> u8 list \<Rightarrow> (u8 list \<times> ChaCha20) option" where
  "chacha_encrypt c [] = Some ([], c)"
| "chacha_encrypt c (b # bs) =
     (case chacha_refill c of
        None \<Rightarrow> None
      | Some c \<Rightarrow> (if 64 < cc_ptr c then None else
          (let n = min (length (b # bs)) (64 - cc_ptr c);
               output = take n (b # bs);
               rest = drop n (b # bs);
               p = cc_ptr c
           in do {
             key_stream \<leftarrow> slice_opt (cc_state c) p (p + n);
             (rest, c) \<leftarrow> chacha_encrypt (c\<lparr>cc_ptr := (p + n) mod 64\<rparr>) rest;
             Some (map2 (XOR) output key_stream @ rest, c)
           })))"
  by pat_completeness auto
termination
proof (relation "measure (\<lambda>(c, xs). 2 * length xs + (if cc_ptr c = 64 then 1 else 0))", goal_cases)
  case (2 c b bs c' n out rest p ks)
  then have "cc_ptr c' = cc_ptr c" by (simp only: chacha_refill_ptr)
  with 2 show ?case by (cases "cc_ptr c = 64") (auto simp: min_def split: if_splits)
qed simp

declare chacha_encrypt.simps [simp del]

definition ChaCha20_ops :: "ChaCha20 StreamCipher" where
  "ChaCha20_ops = \<lparr>STREAM_KEY_SIZE = 32, STREAM_NONCE_SIZE = 12, stream_set_key = chacha_set_key,
     stream_set_nonce = chacha_set_nonce, stream_encrypt = chacha_encrypt\<rparr>"

section \<open>The reference block function\<close>

type_synonym rows = "u32 list \<times> u32 list \<times> u32 list \<times> u32 list"

text \<open>One quarter round on every column of the matrix.\<close>

fun column_round :: "rows \<Rightarrow> rows" where
  "column_round (a, b, c, d) = (
     let qs = map (\<lambda>i. quarter_round (a ! i) (b ! i) (c ! i) (d ! i)) [0, 1, 2, 3]
     in (map fst qs, map (\<lambda>q. fst (snd q)) qs, map (\<lambda>q. fst (snd (snd q))) qs, map (\<lambda>q. snd (snd (snd q))) qs))"

text \<open>The diagonals become columns when row \<open>k\<close> is rotated by \<open>k\<close>.\<close>

fun diagonal_round :: "rows \<Rightarrow> rows" where
  "diagonal_round (a, b, c, d) =
     (case column_round (a, rotate 1 b, rotate 2 c, rotate 3 d) of (a, b, c, d) \<Rightarrow> (a, rotate 3 b, rotate 2 c, rotate 1 d))"

definition to_rows :: "u32 list \<Rightarrow> rows" where
  "to_rows m = (take 4 m, take 4 (drop 4 m), take 4 (drop 8 m), drop 12 m)"

fun of_rows :: "rows \<Rightarrow> u32 list" where
  "of_rows (a, b, c, d) = a @ b @ c @ d"

definition rfc_double_round :: "u32 list \<Rightarrow> u32 list" where
  "rfc_double_round m = of_rows (diagonal_round (column_round (to_rows m)))"

definition chacha_block :: "u32 list \<Rightarrow> u32 list \<Rightarrow> nat \<Rightarrow> u8 list" where
  "chacha_block key nonce n = (
     let m = CHACHA_C @ key @ [of_nat n] @ nonce
     in concat (map to_le_bytes (map2 (+) ((rfc_double_round ^^ 10) m) m)))"

lemma quarter_round_at_length [simp]: "length (quarter_round_at a b c d m) = length m"
  by (simp add: quarter_round_at_def split: prod.split)

lemma double_round_length [simp]: "length (double_round m) = length m"
  by (simp add: double_round_def Let_def)

lemma double_rounds_length [simp]: "length ((double_round ^^ n) m) = length m"
  by (induction n) simp_all

text \<open>The first four and the last four in-place quarter rounds, on an explicit matrix.\<close>

lemma in_place_columns:
  "quarter_round_at 3 7 11 15 (quarter_round_at 2 6 10 14 (quarter_round_at 1 5 9 13 (quarter_round_at 0 4 8 12
     [x0, x1, x2, x3, x4, x5, x6, x7, x8, x9, x10, x11, x12, x13, x14, x15]))) =
   of_rows (column_round ([x0, x1, x2, x3], [x4, x5, x6, x7], [x8, x9, x10, x11], [x12, x13, x14, x15]))"
  by (simp add: quarter_round_at_def Let_def split: prod.split)

lemma in_place_diagonals:
  "quarter_round_at 3 4 9 14 (quarter_round_at 2 7 8 13 (quarter_round_at 1 6 11 12 (quarter_round_at 0 5 10 15
     [x0, x1, x2, x3, x4, x5, x6, x7, x8, x9, x10, x11, x12, x13, x14, x15]))) =
   of_rows (diagonal_round ([x0, x1, x2, x3], [x4, x5, x6, x7], [x8, x9, x10, x11], [x12, x13, x14, x15]))"
  by (simp add: quarter_round_at_def Let_def rotate_drop_take split: prod.split)

lemma column_round_rows:
  "\<exists>y0 y1 y2 y3 y4 y5 y6 y7 y8 y9 y10 y11 y12 y13 y14 y15.
     column_round r = ([y0, y1, y2, y3], [y4, y5, y6, y7], [y8, y9, y10, y11], [y12, y13, y14, y15])"
  by (cases r) (simp add: Let_def)

lemma double_round_rfc: "length m = 16 \<Longrightarrow> double_round m = rfc_double_round m"
proof (elim length_16)
  fix x0 x1 x2 x3 x4 x5 x6 x7 x8 x9 x10 x11 x12 x13 x14 x15
  assume m: "m = [x0, x1, x2, x3, x4, x5, x6, x7, x8, x9, x10, x11, x12, x13, x14, x15]"
  have rows: "to_rows m = ([x0, x1, x2, x3], [x4, x5, x6, x7], [x8, x9, x10, x11], [x12, x13, x14, x15])"
    by (simp add: m to_rows_def)
  obtain y0 y1 y2 y3 y4 y5 y6 y7 y8 y9 y10 y11 y12 y13 y14 y15 where
    y: "column_round (to_rows m) = ([y0, y1, y2, y3], [y4, y5, y6, y7], [y8, y9, y10, y11], [y12, y13, y14, y15])"
    using column_round_rows [of "to_rows m"] by (elim exE)
  have "double_round m = quarter_round_at 3 4 9 14 (quarter_round_at 2 7 8 13 (quarter_round_at 1 6 11 12 (quarter_round_at 0 5 10 15
      (of_rows (column_round (to_rows m))))))"
    unfolding rows by (simp only: double_round_def Let_def m in_place_columns)
  then show ?thesis by (simp only: y rfc_double_round_def of_rows.simps append.simps in_place_diagonals)
qed

lemma double_rounds_rfc: "length m = 16 \<Longrightarrow> (double_round ^^ n) m = (rfc_double_round ^^ n) m"
proof (induction n)
  case (Suc n)
  then show ?case using double_round_rfc [of "(rfc_double_round ^^ n) m"] double_rounds_length [of n m] by simp
qed simp

lemma concat_bytes_length: "length (concat (map to_le_bytes ws)) = 4 * length ws"
  by (induction ws) simp_all

section \<open>The key stream\<close>

text \<open>How many bytes of the key stream have been used, and the stream.\<close>

definition chacha_pos :: "ChaCha20 \<Rightarrow> nat" where
  "chacha_pos c = (if cc_ptr c = 0 then 64 * unat (cc_counter c) else 64 * (unat (cc_counter c) - 1) + cc_ptr c)"

definition key_stream :: "u32 list \<Rightarrow> u32 list \<Rightarrow> nat \<Rightarrow> u8" where
  "key_stream key nonce i = chacha_block key nonce (i div 64) ! (i mod 64)"

definition chacha_ks :: "ChaCha20 \<Rightarrow> nat \<Rightarrow> u8" where
  "chacha_ks c i = key_stream (cc_key c) (cc_nonce c) (chacha_pos c + i)"

definition chacha_room :: "ChaCha20 \<Rightarrow> nat" where
  "chacha_room c = 64 * (2 ^ 32 - 1) - chacha_pos c"

definition chacha_ok :: "ChaCha20 \<Rightarrow> bool" where
  "chacha_ok c \<longleftrightarrow> length (cc_key c) = 8 \<and> length (cc_nonce c) = 3 \<and> cc_ptr c < 64 \<and>
     (cc_ptr c \<noteq> 0 \<longrightarrow> cc_counter c \<noteq> 0 \<and> cc_state c = chacha_block (cc_key c) (cc_nonce c) (unat (cc_counter c) - 1))"

lemma chacha_block_length: "length key = 8 \<Longrightarrow> length nonce = 3 \<Longrightarrow> length (chacha_block key nonce n) = 64"
proof -
  assume "length key = 8" "length nonce = 3"
  then have len: "length (CHACHA_C @ key @ [of_nat n] @ nonce) = 16" by (simp add: CHACHA_C_def)
  then have "length ((rfc_double_round ^^ 10) (CHACHA_C @ key @ [of_nat n] @ nonce)) = 16"
    using double_rounds_rfc [OF len, of 10] double_rounds_length [of 10] by metis
  then show ?thesis using len by (simp only: chacha_block_def Let_def concat_bytes_length length_map length_zip)
qed

lemma update_state_block:
  "chacha_ok c \<Longrightarrow> update_state c = c\<lparr>cc_state := chacha_block (cc_key c) (cc_nonce c) (unat (cc_counter c))\<rparr>"
proof -
  assume "chacha_ok c"
  then have "length (CHACHA_C @ cc_key c @ [cc_counter c] @ cc_nonce c) = 16" by (simp add: chacha_ok_def CHACHA_C_def)
  from double_rounds_rfc [OF this, of 10] show ?thesis by (simp add: update_state_def chacha_block_def Let_def)
qed

lemma chacha_refill_spec:
  assumes "chacha_ok c" "0 < chacha_room c"
  shows "\<exists>c1. chacha_refill c = Some c1 \<and> cc_key c1 = cc_key c \<and> cc_nonce c1 = cc_nonce c \<and> cc_ptr c1 = cc_ptr c \<and>
    cc_state c1 = chacha_block (cc_key c) (cc_nonce c) (chacha_pos c div 64) \<and> cc_ptr c = chacha_pos c mod 64 \<and>
    unat (cc_counter c1) = Suc (chacha_pos c div 64)"
proof (cases "cc_ptr c = 0")
  case True
  then have pos: "chacha_pos c = 64 * unat (cc_counter c)" by (simp add: chacha_pos_def)
  with assms(2) have lt: "unat (cc_counter c) < 2 ^ 32 - 1" by (simp add: chacha_room_def)
  then have ne: "cc_counter c \<noteq> 2 ^ 32 - 1" by auto
  then have "unat (cc_counter c + 1) = Suc (unat (cc_counter c))" using lt by (simp add: unat_word_ariths)
  then show ?thesis using True ne pos update_state_block [OF assms(1)] by (simp add: chacha_refill_def)
next
  case False
  then have c: "0 < unat (cc_counter c)" "cc_ptr c < 64" using assms(1) by (auto simp: chacha_ok_def unat_gt_0)
  then have "chacha_pos c div 64 = unat (cc_counter c) - 1" "chacha_pos c mod 64 = cc_ptr c" using False by (simp_all add: chacha_pos_def)
  then show ?thesis using False c assms(1) by (auto simp: chacha_refill_def chacha_ok_def)
qed

lemma block_slice:
  assumes "p = pos mod 64" "n \<le> 64 - p" "length key = 8" "length nonce = 3"
  shows "slice_opt (chacha_block key nonce (pos div 64)) p (p + n) = Some (map (\<lambda>i. key_stream key nonce (pos + i)) [0..<n])"
proof -
  have p: "p < 64" using assms(1) by simp
  have len: "length (chacha_block key nonce (pos div 64)) = 64" using chacha_block_length assms(3,4) by blast
  have "take n (drop p (chacha_block key nonce (pos div 64))) ! i = key_stream key nonce (pos + i)" if "i < n" for i
  proof -
    have "pos mod 64 + i < 64" using that assms(1,2) by simp
    moreover have "pos + i = 64 * (pos div 64) + (pos mod 64 + i)" by simp
    ultimately have "(pos + i) div 64 = pos div 64" "(pos + i) mod 64 = pos mod 64 + i"
      by (metis div_mult_self4 div_less add.right_neutral zero_neq_numeral, metis mod_mult_self4 mod_less)
    then show ?thesis using that assms(1,2) len by (simp add: key_stream_def)
  qed
  then have "take n (drop p (chacha_block key nonce (pos div 64))) = map (\<lambda>i. key_stream key nonce (pos + i)) [0..<n]"
    using len assms(2) by (intro nth_equalityI) simp_all
  then show ?thesis using assms(2) p len by (simp add: slice_opt_def)
qed

lemma chacha_step_pos:
  assumes "chacha_ok c" "unat (cc_counter c1) = Suc (chacha_pos c div 64)" "cc_key c1 = cc_key c" "cc_nonce c1 = cc_nonce c"
    "cc_state c1 = chacha_block (cc_key c) (cc_nonce c) (chacha_pos c div 64)" "p = chacha_pos c mod 64" "0 < n" "n \<le> 64 - p"
  shows "chacha_pos (c1\<lparr>cc_ptr := (p + n) mod 64\<rparr>) = chacha_pos c + n" "chacha_ok (c1\<lparr>cc_ptr := (p + n) mod 64\<rparr>)"
proof -
  have pos: "chacha_pos c = 64 * (chacha_pos c div 64) + p" using assms(6) by simp
  have pn: "(p + n) mod 64 = (if p + n = 64 then 0 else p + n)" using assms(6-8) by auto
  show "chacha_pos (c1\<lparr>cc_ptr := (p + n) mod 64\<rparr>) = chacha_pos c + n"
    using pos pn assms(2,7) by (simp add: chacha_pos_def [of "c1\<lparr>cc_ptr := _\<rparr>"])
  show "chacha_ok (c1\<lparr>cc_ptr := (p + n) mod 64\<rparr>)"
    using assms(1-5) by (auto simp: chacha_ok_def simp flip: unat_eq_zero)
qed

lemma chacha_encrypt_step:
  assumes "xs = b # bs" "chacha_refill c = Some c1" "cc_ptr c1 = p" "p \<le> 64" "n = min (length xs) (64 - p)"
    "slice_opt (cc_state c1) p (p + n) = Some k"
  shows "chacha_encrypt c xs = do { (rest, c) \<leftarrow> chacha_encrypt (c1\<lparr>cc_ptr := (p + n) mod 64\<rparr>) (drop n xs);
    Some (xor_list (take n xs) k @ rest, c) }"
  using assms by (simp add: chacha_encrypt.simps(2) Let_def)

lemma xor_list_append:
  "length xs = length ks \<Longrightarrow> xor_list (xs @ ys) (ks @ ls) = xor_list xs ks @ xor_list ys ls"
  by simp

lemma chacha_encrypt_spec:
  assumes "chacha_ok c" "length xs \<le> chacha_room c"
  shows "\<exists>c'. chacha_encrypt c xs = Some (xor_list xs (map (chacha_ks c) [0..<length xs]), c') \<and> chacha_ok c' \<and>
    cc_key c' = cc_key c \<and> cc_nonce c' = cc_nonce c \<and> chacha_pos c' = chacha_pos c + length xs"
  using assms
proof (induction "length xs" arbitrary: c xs rule: less_induct)
  case less
  show ?case
  proof (cases xs)
    case Nil
    then show ?thesis using less.prems by (simp add: chacha_encrypt.simps)
  next
    case (Cons b bs)
    define p where "p = chacha_pos c mod 64"
    define n where "n = min (length xs) (64 - p)"
    have "0 < chacha_room c" using less.prems(2) Cons by auto
    then obtain c1 where c1: "chacha_refill c = Some c1" "cc_key c1 = cc_key c" "cc_nonce c1 = cc_nonce c" "cc_ptr c1 = p"
      "cc_state c1 = chacha_block (cc_key c) (cc_nonce c) (chacha_pos c div 64)" "unat (cc_counter c1) = Suc (chacha_pos c div 64)"
      using chacha_refill_spec [OF less.prems(1)] unfolding p_def by auto
    have "p < 64" by (simp add: p_def)
    then have n: "0 < n" "n \<le> 64 - p" "n \<le> length xs" using Cons by (auto simp: n_def)
    define c2 where "c2 = c1\<lparr>cc_ptr := (p + n) mod 64\<rparr>"
    have pos: "chacha_pos c2 = chacha_pos c + n" and ok: "chacha_ok c2"
      using chacha_step_pos [OF less.prems(1) c1(6,2,3,5) p_def n(1,2)] unfolding c2_def by simp_all
    have key: "cc_key c2 = cc_key c" "cc_nonce c2 = cc_nonce c" using c1(2,3) by (simp_all add: c2_def)
    have keys: "length (cc_key c) = 8" "length (cc_nonce c) = 3" using less.prems(1) by (auto simp: chacha_ok_def)
    have slice: "slice_opt (cc_state c1) p (p + n) = Some (map (chacha_ks c) [0..<n])"
      using block_slice [OF p_def n(2) keys] by (simp add: c1(5) chacha_ks_def [abs_def])
    have "length (drop n xs) < length xs" "length (drop n xs) \<le> chacha_room c2"
      using n less.prems(2) unfolding chacha_room_def pos length_drop by linarith+
    from less.hyps [OF this(1) ok this(2)] obtain c' where
      c': "chacha_encrypt c2 (drop n xs) = Some (xor_list (drop n xs) (map (chacha_ks c2) [0..<length xs - n]), c')"
        "chacha_ok c'" "cc_key c' = cc_key c" "cc_nonce c' = cc_nonce c" "chacha_pos c' = chacha_pos c + length xs"
      using key pos n(3) by auto
    have "chacha_encrypt c xs = Some (xor_list (take n xs) (map (chacha_ks c) [0..<n]) @
        xor_list (drop n xs) (map (chacha_ks c2) [0..<length xs - n]), c')"
      using chacha_encrypt_step [OF Cons c1(1) c1(4) _ n_def slice] c'(1) \<open>p < 64\<close> by (simp add: c2_def)
    moreover have "map (chacha_ks c2) [0..<length xs - n] = map (chacha_ks c) [n..<length xs]"
      using pos key n(3) by (intro nth_equalityI) (simp_all add: chacha_ks_def add.assoc)
    moreover have "map (chacha_ks c) [0..<length xs] = map (chacha_ks c) [0..<n] @ map (chacha_ks c) [n..<length xs]"
      using upt_add_eq_append [of 0 n "length xs - n"] n(3) by (simp flip: map_append)
    moreover have "xs = take n xs @ drop n xs" by simp
    ultimately have "chacha_encrypt c xs = Some (xor_list xs (map (chacha_ks c) [0..<length xs]), c')"
      using xor_list_append [of "take n xs" "map (chacha_ks c) [0..<n]" "drop n xs" "map (chacha_ks c) [n..<length xs]"] n(3)
      by (simp only: append_take_drop_id) simp
    then show ?thesis using c' by blast
  qed
qed

interpretation chacha: stream_cipher ChaCha20_ops chacha_ok chacha_ks chacha_room
proof
  fix c and xs :: "u8 list"
  assume "chacha_ok c" "length xs \<le> chacha_room c"
  from chacha_encrypt_spec [OF this] show "\<exists>c'. stream_encrypt ChaCha20_ops c xs = Some (xor_list xs (map (chacha_ks c) [0..<length xs]), c') \<and>
    chacha_ok c' \<and> chacha_room c' = chacha_room c - length xs \<and>
    (\<forall>i. length xs + i < chacha_room c \<longrightarrow> chacha_ks c' i = chacha_ks c (length xs + i))"
    by (auto simp: ChaCha20_ops_def chacha_room_def chacha_ks_def add.assoc)
qed

section \<open>Properties\<close>

definition le_words :: "nat \<Rightarrow> u8 list \<Rightarrow> u32 list" where
  "le_words n bs = map (\<lambda>i. from_le_bytes (take 4 (drop (4 * i) bs))) [0..<n]"

lemma chacha_setup:
  assumes "length key = 32" "length nonce = 12"
  shows "\<exists>c0 c. chacha_set_key ChaCha20_default key = Some c0 \<and> chacha_set_nonce c0 nonce = Some c \<and> chacha_ok c \<and>
    cc_key c = le_words 8 key \<and> cc_nonce c = le_words 3 nonce \<and> chacha_pos c = 0"
  using assms by (simp add: chacha_set_key_def chacha_set_nonce_def ChaCha20_default_def chacha_ok_def chacha_pos_def le_words_def)

lemma chacha_calls:
  assumes "chacha_ok c" "length (concat xss) \<le> chacha_room c"
  shows "\<exists>yss c'. each_block chacha_encrypt c xss = Some (yss, c') \<and>
    concat yss = xor_list (concat xss) (map (chacha_ks c) [0..<length (concat xss)])"
  using assms
proof (induction xss arbitrary: c)
  case (Cons xs xss)
  have "length xs \<le> chacha_room c" using Cons.prems(2) by simp
  from chacha_encrypt_spec [OF Cons.prems(1) this] obtain c1 where
    c1: "chacha_encrypt c xs = Some (xor_list xs (map (chacha_ks c) [0..<length xs]), c1)" "chacha_ok c1"
      "cc_key c1 = cc_key c" "cc_nonce c1 = cc_nonce c" "chacha_pos c1 = chacha_pos c + length xs"
    by blast
  have "length (concat xss) \<le> chacha_room c1"
    using Cons.prems(2) unfolding chacha_room_def c1(5) by (simp only: concat.simps length_append)
  from Cons.IH [OF c1(2) this] obtain yss c' where
    ys: "each_block chacha_encrypt c1 xss = Some (yss, c')"
      "concat yss = xor_list (concat xss) (map (chacha_ks c1) [0..<length (concat xss)])"
    by blast
  have "map (chacha_ks c1) [0..<length (concat xss)] = map (chacha_ks c) [length xs..<length xs + length (concat xss)]"
    using c1(3-5) by (intro nth_equalityI) (simp_all add: chacha_ks_def add.assoc)
  moreover have "map (chacha_ks c) [0..<length xs + length (concat xss)] =
      map (chacha_ks c) [0..<length xs] @ map (chacha_ks c) [length xs..<length xs + length (concat xss)]"
    using upt_add_eq_append [of 0 "length xs" "length (concat xss)"] by (simp only: map_append le0 add_0)
  ultimately show ?case using c1(1) ys by (simp add: zip_append)
qed simp

text \<open>C15: With a key of 32 bytes and a nonce of 12, any run of calls of \<^verbatim>\<open>encrypt\<close>, cutting the data into pieces of
  any lengths, adds the RFC 8439 key stream (the reference block function of the counter 0, 1, 2, ...) to the data
  and never panics, up to 64 * (2^32 - 1) bytes.\<close>

theorem chacha20_adds_rfc_stream:
  assumes "length key = 32" "length nonce = 12" "length (concat xss) \<le> 64 * (2 ^ 32 - 1)"
  shows "\<exists>c0 c yss c'. chacha_set_key ChaCha20_default key = Some c0 \<and> chacha_set_nonce c0 nonce = Some c \<and>
    each_block chacha_encrypt c xss = Some (yss, c') \<and>
    concat yss = xor_list (concat xss) (map (\<lambda>i. chacha_block (le_words 8 key) (le_words 3 nonce) (i div 64) ! (i mod 64))
      [0..<length (concat xss)])"
proof -
  obtain c0 c where c: "chacha_set_key ChaCha20_default key = Some c0" "chacha_set_nonce c0 nonce = Some c" "chacha_ok c"
    "cc_key c = le_words 8 key" "cc_nonce c = le_words 3 nonce" "chacha_pos c = 0"
    using chacha_setup [OF assms(1,2)] by blast
  have "length (concat xss) \<le> chacha_room c" using assms(3) c(6) by (simp add: chacha_room_def)
  from chacha_calls [OF c(3) this] obtain yss c' where "each_block chacha_encrypt c xss = Some (yss, c')"
    "concat yss = xor_list (concat xss) (map (chacha_ks c) [0..<length (concat xss)])" by blast
  moreover have "chacha_ks c = (\<lambda>i. chacha_block (le_words 8 key) (le_words 3 nonce) (i div 64) ! (i mod 64))"
    using c(4-6) by (simp add: fun_eq_iff chacha_ks_def key_stream_def)
  ultimately show ?thesis using c(1,2) by (metis (no_types, lifting))
qed

theorem chacha20_adds_rfc_stream_witness:
  "\<exists>c0 c yss c'. chacha_set_key ChaCha20_default (replicate 32 7) = Some c0 \<and> chacha_set_nonce c0 (replicate 12 1) = Some c \<and>
    each_block chacha_encrypt c [[1, 2, 3], [4, 5]] = Some (yss, c') \<and> length (concat yss) = 5"
proof -
  have "length (replicate 32 7) = (32 :: nat)" "length (replicate 12 1) = (12 :: nat)"
    "length (concat [[1, 2, 3], [4, 5]]) \<le> 64 * (2 ^ 32 - 1 :: nat)" by simp_all
  from chacha20_adds_rfc_stream [OF this] show ?thesis by (fastforce dest: arg_cong [of _ _ length])
qed

text \<open>Decrypting from the same state undoes an encryption of any length, as long as the block counter has room;
  when it has none left, \<^verbatim>\<open>encrypt\<close> panics on every non-empty block.\<close>

theorem chacha20_decrypts:
  assumes "chacha_ok c" "length xs \<le> chacha_room c"
  shows "(\<exists>ys c' c2. chacha_encrypt c xs = Some (ys, c') \<and> length ys = length xs \<and> stream_decrypt ChaCha20_ops c ys = Some (xs, c2)) \<and>
    (chacha_room c = 0 \<longrightarrow> chacha_encrypt c (x # zs) = None)"
proof -
  have "chacha_encrypt c (x # zs) = None" if "chacha_room c = 0"
  proof -
    have bound: "unat (cc_counter c) < 2 ^ 32" using unsigned_less [of "cc_counter c"] by simp
    have p: "cc_ptr c < 64" using assms(1) by (simp add: chacha_ok_def)
    with that bound have "cc_ptr c = 0" "unat (cc_counter c) = 2 ^ 32 - 1"
      by (auto simp: chacha_room_def chacha_pos_def split: if_splits)
    moreover from this(2) have "cc_counter c = 2 ^ 32 - 1" by (simp add: word_unat_eq_iff)
    ultimately have "chacha_refill c = None" by (simp add: chacha_refill_def update_state_def rust_assert_def Let_def)
    then show ?thesis by (simp add: chacha_encrypt.simps)
  qed
  then show ?thesis using chacha.decrypt_encrypt [OF assms] by (auto simp: ChaCha20_ops_def)
qed

theorem chacha20_decrypts_witness:
  "\<exists>ys c' c2. chacha_encrypt ChaCha20_default [1, 2, 3] = Some (ys, c') \<and> stream_decrypt ChaCha20_ops ChaCha20_default ys = Some ([1, 2, 3], c2)"
proof -
  have "chacha_ok ChaCha20_default" "length [1, 2, 3 :: u8] \<le> chacha_room ChaCha20_default"
    by (simp_all add: chacha_ok_def ChaCha20_default_def chacha_room_def chacha_pos_def)
  from chacha20_decrypts [OF this] show ?thesis by blast
qed

end
