(* ===== verification/Sha256.thy ===== *)
theory Sha256
  imports Crypto_Framework Byte_Order
begin

text \<open>
  The hash of \<^verbatim>\<open>src/crypto/sha2/src/lib.rs\<close>: the round functions, the message schedule, the buffering of \<^verbatim>\<open>update\<close>
  and the padding of \<^verbatim>\<open>digest\<close>.

  \<open>sha256\<close> is a reference definition after FIPS 180-4: the padded message is folded block by block, and the schedule
  is a recurrence. \<open>sha_state s m\<close> relates a hasher to the message it has taken in. \<^verbatim>\<open>update\<close> keeps the relation when
  the buffer is empty or does not fill up; when a buffered rest fills up, the code goes on with the wrong part of the
  message.
\<close>

section \<open>Round functions\<close>

definition SHA256_DIGEST_LEN :: nat where "SHA256_DIGEST_LEN = 32"

definition K_TABLE :: "u32 list" where
  "K_TABLE =
    [0x428a2f98, 0x71374491, 0xb5c0fbcf, 0xe9b5dba5, 0x3956c25b, 0x59f111f1, 0x923f82a4, 0xab1c5ed5] @
    [0xd807aa98, 0x12835b01, 0x243185be, 0x550c7dc3, 0x72be5d74, 0x80deb1fe, 0x9bdc06a7, 0xc19bf174] @
    [0xe49b69c1, 0xefbe4786, 0x0fc19dc6, 0x240ca1cc, 0x2de92c6f, 0x4a7484aa, 0x5cb0a9dc, 0x76f988da] @
    [0x983e5152, 0xa831c66d, 0xb00327c8, 0xbf597fc7, 0xc6e00bf3, 0xd5a79147, 0x06ca6351, 0x14292967] @
    [0x27b70a85, 0x2e1b2138, 0x4d2c6dfc, 0x53380d13, 0x650a7354, 0x766a0abb, 0x81c2c92e, 0x92722c85] @
    [0xa2bfe8a1, 0xa81a664b, 0xc24b8b70, 0xc76c51a3, 0xd192e819, 0xd6990624, 0xf40e3585, 0x106aa070] @
    [0x19a4c116, 0x1e376c08, 0x2748774c, 0x34b0bcb5, 0x391c0cb3, 0x4ed8aa4a, 0x5b9cca4f, 0x682e6ff3] @
    [0x748f82ee, 0x78a5636f, 0x84c87814, 0x8cc70208, 0x90befffa, 0xa4506ceb, 0xbef9a3f7, 0xc67178f2]"

definition ch :: "u32 \<Rightarrow> u32 \<Rightarrow> u32 \<Rightarrow> u32" where
  "ch x y z = (x AND y) XOR (NOT x AND z)"

definition maj :: "u32 \<Rightarrow> u32 \<Rightarrow> u32 \<Rightarrow> u32" where
  "maj x y z = (x AND y) XOR (x AND z) XOR (y AND z)"

definition bsig0 :: "u32 \<Rightarrow> u32" where
  "bsig0 x = word_rotr 2 x XOR word_rotr 13 x XOR word_rotr 22 x"

definition bsig1 :: "u32 \<Rightarrow> u32" where
  "bsig1 x = word_rotr 6 x XOR word_rotr 11 x XOR word_rotr 25 x"

definition ssig0 :: "u32 \<Rightarrow> u32" where
  "ssig0 x = word_rotr 7 x XOR word_rotr 18 x XOR drop_bit 3 x"

definition ssig1 :: "u32 \<Rightarrow> u32" where
  "ssig1 x = word_rotr 17 x XOR word_rotr 19 x XOR drop_bit 10 x"

section \<open>The hasher\<close>

record Sha256 =
  message_len :: nat
  w_table :: "u32 list"
  bytes_remain :: "u8 list"
  bytes_remain_len :: nat
  sha_h :: "u32 list"

definition Sha256_default :: Sha256 where
  "Sha256_default = \<lparr>message_len = 0, w_table = replicate 64 0, bytes_remain = replicate 64 0, bytes_remain_len = 0,
     sha_h = [0x6a09e667, 0xbb67ae85, 0x3c6ef372, 0xa54ff53a, 0x510e527f, 0x9b05688c, 0x1f83d9ab, 0x5be0cd19]\<rparr>"

text \<open>The two loops of \<^verbatim>\<open>update_w_table\<close>.\<close>

fun load_words :: "nat list \<Rightarrow> u8 list \<Rightarrow> u32 list \<Rightarrow> u32 list option" where
  "load_words [] msg w = Some w"
| "load_words (i # is) msg w = do {
     bs \<leftarrow> slice_opt msg 0 4;
     w \<leftarrow> set_opt w i (from_be_bytes bs);
     load_words is (drop 4 msg) w
   }"

fun extend_words :: "nat list \<Rightarrow> u32 list \<Rightarrow> u32 list" where
  "extend_words [] w = w"
| "extend_words (p # ps) w =
     extend_words ps (w[p := w ! (p - 16) + ssig0 (w ! (p - 15)) + w ! (p - 7) + ssig1 (w ! (p - 2))])"

definition update_w_table :: "Sha256 \<Rightarrow> u8 list \<Rightarrow> Sha256 option" where
  "update_w_table s msg = do {
     w \<leftarrow> load_words [0..<16] msg (w_table s);
     Some (s\<lparr>w_table := extend_words [16..<64] w\<rparr>)
   }"

text \<open>One round of \<^verbatim>\<open>update_h\<close>: the assignments in the order of the code.\<close>

definition h_round :: "u32 list \<Rightarrow> u32 list \<Rightarrow> nat \<times> u32 \<Rightarrow> u32 list" where
  "h_round wt h rk = (case rk of (round, k) \<Rightarrow>
     let c = ch (h ! 4) (h ! 5) (h ! 6);
         temp1 = h ! 7 + bsig1 (h ! 4) + c + k + wt ! round;
         m = maj (h ! 0) (h ! 1) (h ! 2);
         temp2 = bsig0 (h ! 0) + m;
         h = h[7 := h ! 6];
         h = h[6 := h ! 5];
         h = h[5 := h ! 4];
         h = h[4 := h ! 3 + temp1];
         h = h[3 := h ! 2];
         h = h[2 := h ! 1];
         h = h[1 := h ! 0]
     in h[0 := temp1 + temp2])"

definition update_h :: "Sha256 \<Rightarrow> Sha256" where
  "update_h s = (let h = foldl (h_round (w_table s)) (sha_h s) (enumerate 0 K_TABLE)
     in s\<lparr>sha_h := map2 (+) (sha_h s) h\<rparr>)"

definition sha_chunk :: "Sha256 \<Rightarrow> u8 list \<Rightarrow> Sha256 option" where
  \<comment> \<open>\<open>self.update_w_table(chunk); self.update_h();\<close>\<close>
  "sha_chunk s chunk = do { s \<leftarrow> update_w_table s chunk; Some (update_h s) }"

text \<open>\<^verbatim>\<open>while message.len() >= 64\<close> and what follows it in \<^verbatim>\<open>update\<close>.\<close>

fun sha_blocks :: "Sha256 \<Rightarrow> u8 list \<Rightarrow> (Sha256 \<times> u8 list) option" where
  "sha_blocks s msg =
     (if 64 \<le> length msg then do { s \<leftarrow> sha_chunk s (take 64 msg); sha_blocks s (drop 64 msg) } else Some (s, msg))"

declare sha_blocks.simps [simp del]

definition sha_tail :: "Sha256 \<Rightarrow> u8 list \<Rightarrow> Sha256 option" where
  "sha_tail s msg = do {
     (s, msg) \<leftarrow> sha_blocks s msg;
     if msg \<noteq> [] then Some (s\<lparr>bytes_remain := msg @ drop (length msg) (bytes_remain s), bytes_remain_len := length msg\<rparr>)
     else Some s
   }"

definition sha_update :: "Sha256 \<Rightarrow> u8 list \<Rightarrow> Sha256 option" where
  "sha_update s msg = do {
     bits \<leftarrow> usize_mul 8 (length msg);
     total \<leftarrow> usize_add (message_len s) bits;
     let s = s\<lparr>message_len := total\<rparr>;
     let r = bytes_remain_len s;
     if 0 < r then
       if 64 \<le> r + length msg then do {
         head \<leftarrow> slice_opt (bytes_remain s) 0 r;
         rest \<leftarrow> slice_opt msg 0 (64 - r);
         s \<leftarrow> sha_chunk s (head @ rest);
         sha_tail (s\<lparr>bytes_remain_len := 0\<rparr>) (take (64 - r) msg)
       } else
         Some (s\<lparr>bytes_remain := take r (bytes_remain s) @ msg @ drop (r + length msg) (bytes_remain s),
                 bytes_remain_len := r + length msg\<rparr>)
     else sha_tail s msg
   }"

definition sha_digest :: "Sha256 \<Rightarrow> u8 list \<Rightarrow> (u8 list \<times> Sha256) option" where
  "sha_digest s out = do {
     let r = bytes_remain_len s;
     head \<leftarrow> slice_opt (bytes_remain s) 0 r;
     chunk \<leftarrow> set_opt (head @ replicate (64 - r) 0) r 0x80;
     let len = u64_to_be_bytes (of_nat (message_len s));
     s \<leftarrow> (if 64 - 9 < r then do {
             s \<leftarrow> sha_chunk s chunk;
             sha_chunk s (replicate 56 0 @ len)
           } else sha_chunk s (take 56 chunk @ len));
     rust_assert (32 \<le> length out);
     Some (concat (map to_be_bytes (sha_h s)) @ drop 32 out, s)
   }"

definition Sha256_ops :: "Sha256 Hash" where
  "Sha256_ops = \<lparr>DIGEST_LEN = SHA256_DIGEST_LEN, hash_default = Sha256_default, hash_update = sha_update, hash_digest = sha_digest\<rparr>"

section \<open>The reference hash\<close>

fun sched :: "u32 list \<Rightarrow> nat \<Rightarrow> u32" where
  "sched ws t = (if t < 16 then ws ! t else ssig1 (sched ws (t - 2)) + sched ws (t - 7) + ssig0 (sched ws (t - 15)) + sched ws (t - 16))"

declare sched.simps [simp del]

definition be_words :: "nat \<Rightarrow> u8 list \<Rightarrow> u32 list" where
  "be_words n bs = map (\<lambda>i. from_be_bytes (take 4 (drop (4 * i) bs))) [0..<n]"

type_synonym working = "u32 \<times> u32 \<times> u32 \<times> u32 \<times> u32 \<times> u32 \<times> u32 \<times> u32"

fun fips_round :: "u32 \<Rightarrow> u32 \<Rightarrow> working \<Rightarrow> working" where
  "fips_round k w (a, b, c, d, e, f, g, h) = (
     let t1 = h + bsig1 e + ch e f g + k + w; t2 = bsig0 a + maj a b c
     in (t1 + t2, a, b, c, d + t1, e, f, g))"

fun working_list :: "working \<Rightarrow> u32 list" where
  "working_list (a, b, c, d, e, f, g, h) = [a, b, c, d, e, f, g, h]"

definition compress :: "u32 list \<Rightarrow> u8 list \<Rightarrow> u32 list" where
  "compress h block = (
     let w = sched (be_words 16 block);
         v = (h ! 0, h ! 1, h ! 2, h ! 3, h ! 4, h ! 5, h ! 6, h ! 7)
     in map2 (+) h (working_list (foldl (\<lambda>v t. fips_round (K_TABLE ! t) (w t) v) v [0..<64])))"

definition hash_blocks :: "u32 list \<Rightarrow> u8 list \<Rightarrow> nat \<Rightarrow> u32 list" where
  "hash_blocks h msg n = foldl (\<lambda>h i. compress h (take 64 (drop (64 * i) msg))) h [0..<n]"

definition sha_pad :: "u8 list \<Rightarrow> u8 list" where
  "sha_pad m = m @ [0x80] @ replicate ((119 - length m mod 64) mod 64) 0 @ u64_to_be_bytes (of_nat (8 * length m))"

definition sha256 :: "u8 list \<Rightarrow> u8 list" where
  "sha256 m = concat (map to_be_bytes (hash_blocks (sha_h Sha256_default) (sha_pad m) (length (sha_pad m) div 64)))"

section \<open>One block\<close>

lemma K_TABLE_length: "length K_TABLE = 64"
  by (simp add: K_TABLE_def)

lemma load_words_spec:
  assumes "length msg = 4 * (16 - k)" "k \<le> 16" "length w = 64"
  shows "\<exists>w'. load_words [k..<16] msg w = Some w' \<and> length w' = 64 \<and> (\<forall>i < k. w' ! i = w ! i) \<and>
    (\<forall>i. k \<le> i \<and> i < 16 \<longrightarrow> w' ! i = from_be_bytes (take 4 (drop (4 * (i - k)) msg)))"
  using assms
proof (induction "16 - k" arbitrary: k msg w)
  case 0
  then show ?case by auto
next
  case (Suc n)
  then have k: "k < 16" "n = 16 - Suc k" by simp_all
  let ?w = "w[k := from_be_bytes (take 4 msg)]"
  have "length (drop 4 msg) = 4 * (16 - Suc k)" "Suc k \<le> 16" "length ?w = 64" using Suc.prems k by simp_all
  from Suc.hyps(1) [OF k(2) this] obtain w' where
    w': "load_words [Suc k..<16] (drop 4 msg) ?w = Some w'" "length w' = 64" "\<forall>i < Suc k. w' ! i = ?w ! i"
      "\<forall>i. Suc k \<le> i \<and> i < 16 \<longrightarrow> w' ! i = from_be_bytes (take 4 (drop (4 * (i - Suc k)) (drop 4 msg)))"
    by blast
  have "slice_opt msg 0 4 = Some (take 4 msg)" using Suc.prems(1) k by (simp add: slice_opt_def)
  then have "load_words [k..<16] msg w = Some w'" using w'(1) k Suc.prems(3) by (simp add: upt_conv_Cons)
  moreover have "\<forall>i < k. w' ! i = w ! i" using w'(3) by simp
  moreover have "w' ! i = from_be_bytes (take 4 (drop (4 * (i - k)) msg))" if "k \<le> i" "i < 16" for i
  proof (cases "i = k")
    case True
    then show ?thesis using w'(3) Suc.prems(3) k by simp
  next
    case False
    then have "4 * (i - Suc k) + 4 = 4 * (i - k)" using that by simp
    then show ?thesis using w'(4) False that by simp
  qed
  ultimately show ?case using w'(2) by blast
qed

lemma extend_words_spec:
  assumes "length w = 64" "16 \<le> p" "p \<le> 64" "\<forall>i < p. w ! i = sched ws i"
  shows "length (extend_words [p..<64] w) = 64 \<and> (\<forall>i < 64. extend_words [p..<64] w ! i = sched ws i)"
  using assms
proof (induction "64 - p" arbitrary: p w)
  case 0
  then show ?case by simp
next
  case (Suc n)
  then have p: "p < 64" "n = 64 - Suc p" by simp_all
  let ?v = "w ! (p - 16) + ssig0 (w ! (p - 15)) + w ! (p - 7) + ssig1 (w ! (p - 2))"
  have "?v = sched ws p" using Suc.prems(2,4) by (subst sched.simps) (simp add: ac_simps)
  then have "\<forall>i < Suc p. w[p := ?v] ! i = sched ws i" using Suc.prems(1,4) p by (auto simp: less_Suc_eq nth_list_update)
  from Suc.hyps(1) [OF p(2) _ _ _ this] show ?case using Suc.prems p by (simp add: upt_conv_Cons)
qed

lemma update_w_table_spec:
  assumes "length block = 64" "length (w_table s) = 64"
  shows "\<exists>w. update_w_table s block = Some (s\<lparr>w_table := w\<rparr>) \<and> length w = 64 \<and> (\<forall>i < 64. w ! i = sched (be_words 16 block) i)"
proof -
  obtain w where w: "load_words [0..<16] block (w_table s) = Some w" "length w = 64"
    "\<forall>i. 0 \<le> i \<and> i < 16 \<longrightarrow> w ! i = from_be_bytes (take 4 (drop (4 * (i - 0)) block))"
    using load_words_spec [of block 0 "w_table s"] assms by auto
  have "w ! i = sched (be_words 16 block) i" if "i < 16" for i
    using w(3) that sched.simps [of _ i] by (simp add: be_words_def)
  then have "length (extend_words [16..<64] w) = 64 \<and> (\<forall>i < 64. extend_words [16..<64] w ! i = sched (be_words 16 block) i)"
    by (intro extend_words_spec [OF w(2)]) simp_all
  with w(1) show ?thesis unfolding update_w_table_def by (intro exI [of _ "extend_words [16..<64] w"]) (simp del: upt_rec_numeral)
qed

lemma h_round_working: "h_round w (working_list v) (i, k) = working_list (fips_round k (w ! i) v)"
  by (cases v rule: working_list.cases) (simp add: h_round_def Let_def)

lemma h_rounds_working:
  "foldl (h_round w) (working_list v) (map (\<lambda>t. (t, K t)) ts) = working_list (foldl (\<lambda>v t. fips_round (K t) (w ! t) v) v ts)"
  by (induction ts arbitrary: v) (simp_all add: h_round_working)

lemma enumerate_map: "enumerate 0 xs = map (\<lambda>t. (t, xs ! t)) [0..<length xs]"
  by (rule nth_equalityI) (simp_all add: nth_enumerate_eq)

lemma length_8_working:
  assumes "length h = 8"
  shows "working_list (h ! 0, h ! 1, h ! 2, h ! 3, h ! 4, h ! 5, h ! 6, h ! 7) = h"
proof (rule nth_equalityI)
  fix i assume "i < length (working_list (h ! 0, h ! 1, h ! 2, h ! 3, h ! 4, h ! 5, h ! 6, h ! 7))"
  then have "i \<in> {0, 1, 2, 3, 4, 5, 6, 7}" by auto
  then show "working_list (h ! 0, h ! 1, h ! 2, h ! 3, h ! 4, h ! 5, h ! 6, h ! 7) ! i = h ! i" by auto
qed (simp add: assms)

lemma working_list_length [simp]: "length (working_list v) = 8"
  by (cases v rule: working_list.cases) simp

lemma compress_length [simp]: "length h = 8 \<Longrightarrow> length (compress h b) = 8"
  by (simp add: compress_def Let_def)

lemma update_h_compress:
  assumes "length (sha_h s) = 8" "\<forall>i < 64. w_table s ! i = sched (be_words 16 block) i"
  shows "update_h s = s\<lparr>sha_h := compress (sha_h s) block\<rparr>"
proof -
  let ?h = "sha_h s" and ?w = "sched (be_words 16 block)"
  let ?v = "(?h ! 0, ?h ! 1, ?h ! 2, ?h ! 3, ?h ! 4, ?h ! 5, ?h ! 6, ?h ! 7)"
  have "foldl (h_round (w_table s)) ?h (enumerate 0 K_TABLE) =
      foldl (h_round (w_table s)) (working_list ?v) (map (\<lambda>t. (t, K_TABLE ! t)) [0..<64])"
    by (simp only: length_8_working [OF assms(1)] enumerate_map K_TABLE_length)
  also have "\<dots> = working_list (foldl (\<lambda>v t. fips_round (K_TABLE ! t) (w_table s ! t) v) ?v [0..<64])"
    by (rule h_rounds_working)
  also have "foldl (\<lambda>v t. fips_round (K_TABLE ! t) (w_table s ! t) v) ?v [0..<64] = foldl (\<lambda>v t. fips_round (K_TABLE ! t) (?w t) v) ?v [0..<64]"
    using assms(2) by (intro foldl_cong) auto
  finally show ?thesis by (simp only: update_h_def compress_def Let_def)
qed

lemma sha_chunk_spec:
  assumes "length block = 64" "length (w_table s) = 64" "length (sha_h s) = 8"
  shows "\<exists>w. sha_chunk s block = Some (s\<lparr>w_table := w, sha_h := compress (sha_h s) block\<rparr>) \<and> length w = 64"
proof -
  obtain w where w: "update_w_table s block = Some (s\<lparr>w_table := w\<rparr>)" "length w = 64" "\<forall>i < 64. w ! i = sched (be_words 16 block) i"
    using update_w_table_spec [OF assms(1,2)] by blast
  with update_h_compress [of "s\<lparr>w_table := w\<rparr>" block] assms(3) show ?thesis
    by (intro exI [of _ w]) (simp add: sha_chunk_def)
qed

section \<open>The buffer\<close>

abbreviation IV :: "u32 list" where
  "IV \<equiv> sha_h Sha256_default"

lemma hash_blocks_Suc: "hash_blocks h m (Suc n) = compress (hash_blocks h m n) (take 64 (drop (64 * n) m))"
  by (simp add: hash_blocks_def)

lemma hash_blocks_0 [simp]: "hash_blocks h m 0 = h"
  by (simp add: hash_blocks_def)

lemma hash_blocks_append: "64 * n \<le> length m \<Longrightarrow> hash_blocks h (m @ x) n = hash_blocks h m n"
proof (induction n)
  case (Suc n)
  then have "64 - (length m - 64 * n) = 0" by simp
  with Suc show ?case by (simp add: hash_blocks_Suc)
qed simp

lemma IV_length [simp]: "length IV = 8"
  by (simp add: Sha256_default_def)

lemma hash_blocks_length [simp]: "length (hash_blocks IV m n) = 8"
  by (induction n) (simp_all only: hash_blocks_0 IV_length hash_blocks_Suc compress_length)

text \<open>\<open>sha_buf s m\<close>: the chaining value and the buffer are those after \<open>m\<close>; \<open>sha_state\<close> adds the length.\<close>

definition sha_buf :: "Sha256 \<Rightarrow> u8 list \<Rightarrow> bool" where
  "sha_buf s m \<longleftrightarrow> length (w_table s) = 64 \<and> length (bytes_remain s) = 64 \<and> bytes_remain_len s = length m mod 64 \<and>
     take (length m mod 64) (bytes_remain s) = drop (64 * (length m div 64)) m \<and>
     sha_h s = hash_blocks IV m (length m div 64)"

definition sha_state :: "Sha256 \<Rightarrow> u8 list \<Rightarrow> bool" where
  "sha_state s m \<longleftrightarrow> message_len s = 8 * length m \<and> sha_buf s m"

lemma sha_blocks_spec:
  assumes "length (w_table s) = 64" "length m mod 64 = 0" "sha_h s = hash_blocks IV m (length m div 64)"
  shows "\<exists>w. sha_blocks s x = Some (s\<lparr>w_table := w, sha_h := hash_blocks IV (m @ x) (length (m @ x) div 64)\<rparr>,
      drop (64 * (length x div 64)) x) \<and> length w = 64"
  using assms
proof (induction "length x" arbitrary: s m x rule: less_induct)
  case less
  obtain q where q: "length m = 64 * q" using less.prems(2) by (meson dvd_eq_mod_eq_0 dvdE)
  show ?case
  proof (cases "64 \<le> length x")
    case False
    then have "length (m @ x) div 64 = length m div 64" "length x div 64 = 0" using q by simp_all
    moreover have "hash_blocks IV (m @ x) (length m div 64) = sha_h s" using less.prems(3) q by (simp add: hash_blocks_append)
    ultimately show ?thesis using False less.prems(1) by (intro exI [of _ "w_table s"]) (simp add: sha_blocks.simps)
  next
    case True
    obtain w where w: "sha_chunk s (take 64 x) = Some (s\<lparr>w_table := w, sha_h := compress (sha_h s) (take 64 x)\<rparr>)" "length w = 64"
      using sha_chunk_spec [of "take 64 x" s] True less.prems(1,3) by auto
    let ?s = "s\<lparr>w_table := w, sha_h := compress (sha_h s) (take 64 x)\<rparr>" and ?m = "m @ take 64 x"
    have m': "length ?m = 64 * Suc q" using q True by simp
    have "hash_blocks IV ?m (Suc q) = compress (hash_blocks IV m q) (take 64 x)"
      using q by (simp add: hash_blocks_Suc hash_blocks_append)
    then have h: "sha_h ?s = hash_blocks IV ?m (length ?m div 64)" using less.prems(3) q unfolding m' by simp
    have "length (drop 64 x) < length x" "length (w_table ?s) = 64" "length ?m mod 64 = 0" using True w(2) m' by simp_all
    from less.hyps [OF this h] obtain w' where w': "sha_blocks ?s (drop 64 x) =
        Some (?s\<lparr>w_table := w', sha_h := hash_blocks IV (?m @ drop 64 x) (length (?m @ drop 64 x) div 64)\<rparr>,
          drop (64 * (length (drop 64 x) div 64)) (drop 64 x))" "length w' = 64"
      by blast
    have "length x div 64 = Suc (length (drop 64 x) div 64)" using True by (simp add: le_div_geq)
    moreover have "sha_blocks s x = sha_blocks ?s (drop 64 x)" using True w(1) by (subst sha_blocks.simps) simp
    ultimately show ?thesis using w' by (intro exI [of _ w']) (simp add: add.commute)
  qed
qed

lemma split_64: "length m = 64 * (length m div 64) + length m mod 64"
  by simp

lemma sha_tail_spec:
  assumes "sha_buf s m" "length m mod 64 = 0"
  shows "\<exists>s'. sha_tail s x = Some s' \<and> sha_buf s' (m @ x) \<and> message_len s' = message_len s"
proof -
  have s: "length (w_table s) = 64" "length (bytes_remain s) = 64" "bytes_remain_len s = 0" "sha_h s = hash_blocks IV m (length m div 64)"
    using assms by (simp_all add: sha_buf_def)
  obtain q where q: "length m = 64 * q" using assms(2) by (meson dvd_eq_mod_eq_0 dvdE)
  have l: "length (m @ x) mod 64 = length x mod 64" "length (m @ x) div 64 = q + length x div 64" using q by simp_all
  let ?rest = "drop (64 * (length x div 64)) x"
  have rest: "length ?rest = length x mod 64" "drop (64 * (length (m @ x) div 64)) (m @ x) = ?rest"
    using q by (simp_all add: l(2) minus_mult_div_eq_mod algebra_simps del: length_append)
  obtain w where w: "sha_blocks s x = Some (s\<lparr>w_table := w, sha_h := hash_blocks IV (m @ x) (length (m @ x) div 64)\<rparr>, ?rest)" "length w = 64"
    using sha_blocks_spec [OF s(1) assms(2) s(4)] by blast
  let ?s1 = "s\<lparr>w_table := w, sha_h := hash_blocks IV (m @ x) (length (m @ x) div 64)\<rparr>"
  show ?thesis
  proof (cases "?rest = []")
    case True
    then have "length x mod 64 = 0" using rest(1) by simp
    then have "sha_buf ?s1 (m @ x)" using True w(2) s(2,3) rest(2) l(1) by (simp add: sha_buf_def del: length_append)
    then show ?thesis using True w(1) by (intro exI [of _ ?s1]) (simp add: sha_tail_def del: length_append drop_eq_Nil)
  next
    case False
    let ?s2 = "?s1\<lparr>bytes_remain := ?rest @ drop (length ?rest) (bytes_remain s), bytes_remain_len := length ?rest\<rparr>"
    have "length ?rest \<le> 64" using rest(1) by (simp add: less_imp_le)
    then have "sha_buf ?s2 (m @ x)" unfolding sha_buf_def l(1) rest(1) [symmetric] rest(2) using w(2) s(2) by simp
    then show ?thesis using False w(1) by (intro exI [of _ ?s2]) (simp add: sha_tail_def del: length_append drop_eq_Nil)
  qed
qed

lemma sha_buf_h_length: "sha_buf s m \<Longrightarrow> length (sha_h s) = 8"
  by (simp add: sha_buf_def)

text \<open>The bytes that wait in the buffer, and filling it up.\<close>

lemma sha_head:
  assumes "sha_buf s m"
  shows "slice_opt (bytes_remain s) 0 (length m mod 64) = Some (drop (64 * (length m div 64)) m)"
proof -
  have "length m mod 64 \<le> length (bytes_remain s)" using assms by (simp add: sha_buf_def less_imp_le)
  then show ?thesis using assms by (simp add: slice_opt_def sha_buf_def)
qed

lemma fill_length:
  assumes "length y = 64 - length m mod 64"
  shows "length (m @ y) = 64 * Suc (length m div 64)"
proof -
  define q r where "q = length m div 64" and r: "r = length m mod 64"
  then have "length m = 64 * q + r" "r < 64" "length y = 64 - r" using assms by simp_all
  then have "length m + length y = 64 * q + (r + (64 - r))" "r + (64 - r) = 64" by simp_all
  then show ?thesis by (simp add: \<open>q = length m div 64\<close>)
qed

lemma sha_fill:
  assumes "sha_buf s m" "0 < length m mod 64" "length y = 64 - length m mod 64"
  shows "\<exists>w. sha_chunk s (drop (64 * (length m div 64)) m @ y) =
      Some (s\<lparr>w_table := w, sha_h := hash_blocks IV (m @ y) (length (m @ y) div 64)\<rparr>) \<and> length w = 64"
proof -
  let ?q = "length m div 64" and ?r = "length m mod 64"
  let ?b = "drop (64 * ?q) m @ y"
  have r: "?r < 64" by simp
  have rest: "length (drop (64 * ?q) m) = ?r" by (simp add: minus_mult_div_eq_mod)
  have len: "length (m @ y) div 64 = Suc ?q" unfolding fill_length [OF assms(3)] by simp
  have b: "length ?b = 64" using rest assms(3) r by simp
  have "take 64 (drop (64 * ?q) (m @ y)) = ?b" using b rest by simp
  moreover have "hash_blocks IV (m @ y) ?q = sha_h s" using assms(1) by (simp add: hash_blocks_append sha_buf_def)
  ultimately have "hash_blocks IV (m @ y) (length (m @ y) div 64) = compress (sha_h s) ?b"
    unfolding len hash_blocks_Suc by (simp only:)
  then show ?thesis using sha_chunk_spec [OF b, of s] assms(1) sha_buf_h_length [OF assms(1)] by (simp add: sha_buf_def del: length_append)
qed

lemma sha_update_fits:
  assumes "sha_state s m" "length m mod 64 = 0 \<or> length m mod 64 + length x < 64" "8 * (length m + length x) < 2 ^ 64"
  shows "\<exists>s'. sha_update s x = Some s' \<and> sha_state s' (m @ x)"
proof -
  let ?q = "length m div 64" and ?r = "length m mod 64"
  have buf: "sha_buf s m" and mlen: "message_len s = 8 * length m" using assms(1) by (simp_all add: sha_state_def)
  have len: "usize_mul 8 (length x) = Some (8 * length x)" "usize_add (message_len s) (8 * length x) = Some (8 * (length m + length x))"
    using assms(3) mlen by (simp_all add: usize_mul_def usize_add_def algebra_simps)
  let ?s = "s\<lparr>message_len := 8 * (length m + length x)\<rparr>"
  have buf': "sha_buf ?s m" using buf by (simp add: sha_buf_def)
  show ?thesis
  proof (cases "?r = 0")
    case True
    then obtain s' where "sha_tail ?s x = Some s'" "sha_buf s' (m @ x)" "message_len s' = message_len ?s"
      using sha_tail_spec [OF buf' True, of x] by auto
    then show ?thesis using True len buf by (auto simp: sha_update_def sha_state_def sha_buf_def)
  next
    case False
    then have fit: "?r + length x < 64" using assms(2) by simp
    let ?b = "take ?r (bytes_remain s) @ x @ drop (?r + length x) (bytes_remain s)"
    let ?s2 = "?s\<lparr>bytes_remain := ?b, bytes_remain_len := ?r + length x\<rparr>"
    have "length (m @ x) = 64 * ?q + (?r + length x)" by simp
    then have l: "length (m @ x) div 64 = ?q" "length (m @ x) mod 64 = ?r + length x" using fit by (simp_all only: div_mult_self4 mod_mult_self4) simp_all
    have lens: "length (bytes_remain s) = 64" "length (w_table s) = 64" "bytes_remain_len s = ?r" "sha_h s = hash_blocks IV m ?q"
      "take ?r (bytes_remain s) = drop (64 * ?q) m" using buf by (simp_all add: sha_buf_def)
    have "length ?b = 64" "take (?r + length x) ?b = take ?r (bytes_remain s) @ x"
      using lens(1) fit by simp_all
    then have "length ?b = 64" "take (?r + length x) ?b = drop (64 * ?q) m @ x" using lens(5) by simp_all
    moreover have "drop (64 * ?q) (m @ x) = drop (64 * ?q) m @ x" by simp
    moreover have "hash_blocks IV (m @ x) ?q = hash_blocks IV m ?q" by (simp add: hash_blocks_append)
    ultimately have "sha_buf ?s2 (m @ x)" using lens unfolding sha_buf_def l by simp
    then show ?thesis using False fit len lens(3) by (auto simp: sha_update_def sha_state_def Let_def)
  qed
qed

lemma sha_update_overflow:
  assumes "sha_state s m" "0 < length m mod 64" "64 \<le> length m mod 64 + length x" "8 * (length m + length x) < 2 ^ 64"
  shows "\<exists>s'. sha_update s x = Some s' \<and> message_len s' = 8 * length (m @ x) \<and>
    sha_buf s' (m @ take (64 - length m mod 64) x @ take (64 - length m mod 64) x)"
proof -
  let ?r = "length m mod 64" and ?y = "take (64 - length m mod 64) x"
  have buf: "sha_buf s m" and mlen: "message_len s = 8 * length m" using assms(1) by (simp_all add: sha_state_def)
  have len: "usize_mul 8 (length x) = Some (8 * length x)" "usize_add (message_len s) (8 * length x) = Some (8 * (length m + length x))"
    using assms(4) mlen by (simp_all add: usize_mul_def usize_add_def algebra_simps)
  let ?s = "s\<lparr>message_len := 8 * (length m + length x)\<rparr>"
  have buf': "sha_buf ?s m" using buf by (simp add: sha_buf_def)
  have y: "length ?y = 64 - ?r" using assms(3) by simp
  obtain w where w: "sha_chunk ?s (drop (64 * (length m div 64)) m @ ?y) =
      Some (?s\<lparr>w_table := w, sha_h := hash_blocks IV (m @ ?y) (length (m @ ?y) div 64)\<rparr>)" "length w = 64"
    using sha_fill [OF buf' assms(2) y] by blast
  let ?s2 = "?s\<lparr>w_table := w, sha_h := hash_blocks IV (m @ ?y) (length (m @ ?y) div 64), bytes_remain_len := 0\<rparr>"
  have whole: "length (m @ ?y) = 64 * Suc (length m div 64)" using fill_length [OF y] .
  then have all: "64 * (length (m @ ?y) div 64) = length (m @ ?y)" "length (m @ ?y) mod 64 = 0" by simp_all
  then have "sha_buf ?s2 (m @ ?y)" unfolding sha_buf_def all using w(2) buf by (simp add: sha_buf_def)
  from sha_tail_spec [OF this all(2), of ?y] obtain s' where
    s': "sha_tail ?s2 ?y = Some s'" "sha_buf s' ((m @ ?y) @ ?y)" "message_len s' = message_len ?s2"
    by (elim exE conjE)
  have "slice_opt x 0 (64 - ?r) = Some ?y" using assms(3) by (simp add: slice_opt_def)
  then have "sha_update s x = Some s'" using assms(2,3) len s'(1) w(1) sha_head [OF buf'] buf
    by (simp add: sha_update_def sha_buf_def)
  then show ?thesis using s'(2,3) by simp
qed

section \<open>The padding\<close>

lemma hash_blocks_tail:
  assumes "q = length m div 64" "P = drop (64 * q) m @ t"
  shows "hash_blocks IV (m @ t) (Suc q) = compress (hash_blocks IV m q) (take 64 P)"
    "hash_blocks IV (m @ t) (Suc (Suc q)) = compress (compress (hash_blocks IV m q) (take 64 P)) (take 64 (drop 64 P))"
proof -
  have le: "64 * q \<le> length m" using assms(1) by simp
  then have d: "drop (64 * q) (m @ t) = P" using assms(2) by simp
  have "64 * Suc q = 64 + 64 * q" by simp
  then have "drop (64 * Suc q) (m @ t) = drop 64 P" using d drop_drop [of 64 "64 * q" "m @ t"] by (simp only:)
  then show "hash_blocks IV (m @ t) (Suc q) = compress (hash_blocks IV m q) (take 64 P)"
    "hash_blocks IV (m @ t) (Suc (Suc q)) = compress (compress (hash_blocks IV m q) (take 64 P)) (take 64 (drop 64 P))"
    using d le by (simp_all only: hash_blocks_Suc hash_blocks_append)
qed

lemma pad_tail:
  fixes R :: "u8 list"
  assumes "r = length R" "r < 64" "length len = 8"
  shows "r \<le> 55 \<Longrightarrow> R @ [b] @ replicate ((119 - r) mod 64) 0 @ len = take 56 ((R @ replicate (64 - r) 0)[r := b]) @ len"
    "\<not> r \<le> 55 \<Longrightarrow> R @ [b] @ replicate ((119 - r) mod 64) 0 @ len = (R @ replicate (64 - r) 0)[r := b] @ replicate 56 0 @ len"
    "length ((R @ replicate (64 - r) 0)[r := b]) = 64"
proof -
  have "64 - r = Suc (63 - r)" using assms(2) by simp
  then have z: "replicate (64 - r) 0 = (0 :: u8) # replicate (63 - r) 0" by (simp only: replicate_Suc)
  have chunk: "(R @ replicate (64 - r) 0)[r := b] = R @ b # replicate (63 - r) 0" unfolding z using assms(1) by simp
  show "R @ [b] @ replicate ((119 - r) mod 64) 0 @ len = take 56 ((R @ replicate (64 - r) 0)[r := b]) @ len" if "r \<le> 55"
  proof -
    have "56 - r = Suc (55 - r)" "119 - r = 55 - r + 64" using that by simp_all
    moreover have "(55 - r + 64) mod 64 = 55 - r" by simp
    ultimately have "(119 - r) mod 64 = 55 - r" by (simp only:)
    then show ?thesis unfolding chunk using that assms(1) \<open>56 - r = Suc (55 - r)\<close> by simp
  qed
  show "R @ [b] @ replicate ((119 - r) mod 64) 0 @ len = (R @ replicate (64 - r) 0)[r := b] @ replicate 56 0 @ len" if "\<not> r \<le> 55"
  proof -
    have "(119 - r) mod 64 = (63 - r) + 56" using that assms(2) by simp
    then show ?thesis unfolding chunk by (simp only: replicate_add append_assoc append.simps)
  qed
  show "length ((R @ replicate (64 - r) 0)[r := b]) = 64" using assms(1,2) by simp
qed

lemma sha_digest_spec:
  assumes "sha_state s m" "32 \<le> length out"
  shows "\<exists>s'. sha_digest s out = Some (sha256 m @ drop 32 out, s')"
proof -
  define q r R where "q = length m div 64" and "r = length m mod 64" and "R = drop (64 * q) m"
  have buf: "sha_buf s m" and mlen: "message_len s = 8 * length m" using assms(1) by (simp_all add: sha_state_def)
  have s: "length (w_table s) = 64" "bytes_remain_len s = r" "sha_h s = hash_blocks IV m q" using buf by (simp_all add: sha_buf_def q_def r_def)
  have R: "r = length R" "r < 64" by (simp_all add: R_def q_def r_def minus_mult_div_eq_mod)
  define len where "len = u64_to_be_bytes (of_nat (8 * length m))"
  define chunk where "chunk = (R @ replicate (64 - r) 0)[r := 0x80]"
  have len8: "length len = 8" by (simp add: len_def)
  note tail = pad_tail [OF R len8, of "0x80", folded chunk_def]
  define t where "t = [0x80] @ replicate ((119 - r) mod 64) 0 @ len"
  have pad: "sha_pad m = m @ t" by (simp add: sha_pad_def t_def len_def r_def)
  note blocks = hash_blocks_tail [OF q_def, of "R @ t" t, unfolded R_def, OF refl, folded R_def]
  have lenP: "length (sha_pad m) div 64 = q + length (R @ t) div 64"
  proof -
    have "length m = 64 * q + r" by (simp add: q_def r_def)
    then have "length (sha_pad m) = 64 * q + length (R @ t)" using R(1) by (simp add: pad)
    then show ?thesis by simp
  qed
  have start: "sha_digest s out = do {
      s \<leftarrow> (if 64 - 9 < r then do { s \<leftarrow> sha_chunk s chunk; sha_chunk s (replicate 56 0 @ len) } else sha_chunk s (take 56 chunk @ len));
      Some (concat (map to_be_bytes (sha_h s)) @ drop 32 out, s) }"
    using sha_head [OF buf] R assms(2) unfolding sha_digest_def Let_def s(2) mlen r_def [symmetric] q_def [symmetric] R_def [symmetric]
    by (simp add: chunk_def len_def)
  show ?thesis
  proof (cases "r \<le> 55")
    case True
    have P: "R @ t = take 56 chunk @ len" using tail(1) True by (simp add: t_def)
    then have P64: "length (R @ t) = 64" using tail(3) len8 by simp
    then have n: "length (sha_pad m) div 64 = Suc q" by (simp only: lenP)
    have "take 64 (R @ t) = take 56 chunk @ len" using P P64 by simp
    then have "sha256 m = concat (map to_be_bytes (compress (hash_blocks IV m q) (take 56 chunk @ len)))"
      unfolding sha256_def n using blocks(1) by (simp only: pad)
    moreover obtain w where "sha_chunk s (take 56 chunk @ len) = Some (s\<lparr>w_table := w, sha_h := compress (sha_h s) (take 56 chunk @ len)\<rparr>)"
      using sha_chunk_spec [of "take 56 chunk @ len" s] tail(3) len8 s by auto
    ultimately show ?thesis using True start s(3) by simp
  next
    case False
    have P: "R @ t = chunk @ (replicate 56 0 @ len)" using tail(2) False by (simp add: t_def)
    then have "length (R @ t) = 128" using tail(3) len8 by simp
    then have n: "length (sha_pad m) div 64 = Suc (Suc q)" by (simp only: lenP)
    have "take 64 (R @ t) = chunk" "take 64 (drop 64 (R @ t)) = replicate 56 0 @ len" unfolding P using tail(3) len8 by simp_all
    then have "sha256 m = concat (map to_be_bytes (compress (compress (hash_blocks IV m q) chunk) (replicate 56 0 @ len)))"
      unfolding sha256_def n using blocks(2) by (simp only: pad)
    moreover obtain w where w: "sha_chunk s chunk = Some (s\<lparr>w_table := w, sha_h := compress (sha_h s) chunk\<rparr>)" "length w = 64"
      using sha_chunk_spec [OF tail(3), of s] s by auto
    moreover obtain w' where "sha_chunk (s\<lparr>w_table := w, sha_h := compress (sha_h s) chunk\<rparr>) (replicate 56 0 @ len) =
        Some (s\<lparr>w_table := w', sha_h := compress (compress (sha_h s) chunk) (replicate 56 0 @ len)\<rparr>)"
      using sha_chunk_spec [of "replicate 56 0 @ len" "s\<lparr>w_table := w, sha_h := compress (sha_h s) chunk\<rparr>"] w(2) len8 s by auto
    ultimately show ?thesis using False start s(3) by simp
  qed
qed

section \<open>Properties\<close>

definition sha_fits :: "nat \<Rightarrow> nat \<Rightarrow> bool" where
  "sha_fits n k \<longleftrightarrow> (n mod 64 = 0 \<or> n mod 64 + k < 64) \<and> 8 * (n + k) < 2 ^ 64"

lemma sha_default_state: "sha_state Sha256_default []"
  by (simp add: sha_state_def sha_buf_def) (simp add: Sha256_default_def)

interpretation sha: hash_function Sha256_ops sha_state sha_fits sha256
proof
  show "sha_state (hash_default Sha256_ops) []" using sha_default_state by (simp add: Sha256_ops_def)
  show "\<exists>s'. hash_update Sha256_ops s x = Some s' \<and> sha_state s' (m @ x)" if "sha_state s m" "sha_fits (length m) (length x)" for s m x
    using sha_update_fits [OF that(1)] that(2) by (simp add: Sha256_ops_def sha_fits_def)
  show "\<exists>s'. hash_digest Sha256_ops s out = Some (sha256 m, s')" if "sha_state s m" "length out = DIGEST_LEN Sha256_ops" for s m out
    using sha_digest_spec [OF that(1), of out] that(2) by (simp add: Sha256_ops_def SHA256_DIGEST_LEN_def)
  show "length (sha256 m) = DIGEST_LEN Sha256_ops" for m
    by (simp add: sha256_def Sha256_ops_def SHA256_DIGEST_LEN_def concat_be_length)
qed

text \<open>C16: For every message below 2^61 bytes, \<^verbatim>\<open>update\<close> followed by \<^verbatim>\<open>digest\<close> gives the FIPS 180-4 hash of the message,
  for every length of the last block, padding into one or two blocks; no call panics.\<close>

theorem sha256_digest_correct:
  assumes "8 * length m < 2 ^ 64" "length out = 32"
  shows "\<exists>s s'. sha_update Sha256_default m = Some s \<and> sha_digest s out = Some (sha256 m, s')"
proof -
  have "sha_fits (length []) (length m)" using assms(1) by (simp add: sha_fits_def)
  then obtain s where "sha_update Sha256_default m = Some s" "sha_state s m"
    using sha.update_absorbs [OF sha.default_absorbed] by (auto simp: Sha256_ops_def)
  then show ?thesis using sha.digests [of s m out] assms(2) by (simp add: Sha256_ops_def SHA256_DIGEST_LEN_def)
qed

theorem sha256_digest_correct_witness:
  "\<exists>s s'. sha_update Sha256_default [0x61, 0x62, 0x63] = Some s \<and> sha_digest s (replicate 32 0) = Some (sha256 [0x61, 0x62, 0x63], s')"
  using sha256_digest_correct [of "[0x61, 0x62, 0x63]" "replicate 32 0"] by simp

text \<open>When bytes of an earlier \<^verbatim>\<open>update\<close> wait in the buffer and the next \<^verbatim>\<open>update\<close> fills it up, the code hashes the
  full block and then goes on with the \<^emph>\<open>first\<close> bytes of the new message again instead of the rest: the hasher is in
  the state after \<open>m @ y @ y\<close>, where \<open>y\<close> is the part of \<open>x\<close> that filled the buffer, and the rest of \<open>x\<close> is lost,
  while the length counts \<open>m @ x\<close>.\<close>

theorem sha256_update_repeats_bytes:
  assumes "sha_state s m" "0 < length m mod 64" "64 \<le> length m mod 64 + length x" "8 * (length m + length x) < 2 ^ 64"
  shows "\<exists>s' y. sha_update s x = Some s' \<and> y = take (64 - length m mod 64) x \<and> message_len s' = 8 * length (m @ x) \<and>
    sha_h s' = hash_blocks IV (m @ y @ y) (length (m @ y @ y) div 64) \<and>
    take (bytes_remain_len s') (bytes_remain s') = y"
proof -
  let ?y = "take (64 - length m mod 64) x"
  obtain s' where s': "sha_update s x = Some s'" "message_len s' = 8 * length (m @ x)" "sha_buf s' (m @ ?y @ ?y)"
    using sha_update_overflow [OF assms] by blast
  have y: "length ?y = 64 - length m mod 64" using assms(3) by simp
  have "64 - length m mod 64 < 64" using assms(2) by linarith
  with y have small: "length ?y < 64" by simp
  have "length (m @ ?y @ ?y) = 64 * Suc (length m div 64) + length ?y" using fill_length [OF y] by simp
  then have "length (m @ ?y @ ?y) mod 64 = length ?y" "length (m @ ?y @ ?y) div 64 = Suc (length m div 64)"
    using small by (simp_all only: mod_mult_self4 div_mult_self4 mod_less div_less)
  then have "take (bytes_remain_len s') (bytes_remain s') = drop (64 * Suc (length m div 64)) (m @ ?y @ ?y)"
    using s'(3) by (simp only: sha_buf_def)
  also have "\<dots> = ?y" using fill_length [OF y] by (simp only: append_assoc [symmetric] append_eq_conv_conj [symmetric] drop_append drop_all) simp
  finally have "take (bytes_remain_len s') (bytes_remain s') = ?y" .
  moreover have "sha_h s' = hash_blocks IV (m @ ?y @ ?y) (length (m @ ?y @ ?y) div 64)" using s'(3) unfolding sha_buf_def by (elim conjE)
  ultimately show ?thesis using s'(1,2) by blast
qed

theorem sha256_update_repeats_bytes_witness:
  "\<exists>s' y. sha_update (the (sha_update Sha256_default [1])) (replicate 70 2) = Some s' \<and> y = replicate 63 2 \<and>
    take (bytes_remain_len s') (bytes_remain s') = y"
proof -
  have "sha_fits (length []) (length [1 :: u8])" by (simp add: sha_fits_def)
  then obtain s where s: "sha_update Sha256_default [1] = Some s" "sha_state s [1]"
    using sha.update_absorbs [OF sha.default_absorbed, of "[1]"] by (auto simp: Sha256_ops_def)
  have "0 < length [1 :: u8] mod 64" "64 \<le> length [1 :: u8] mod 64 + length (replicate 70 (2 :: u8))"
    "8 * (length [1 :: u8] + length (replicate 70 (2 :: u8))) < 2 ^ 64" by simp_all
  from sha256_update_repeats_bytes [OF s(2) this] show ?thesis using s(1) by (auto simp: min_def)
qed

text \<open>HMAC over SHA-256 gives \<open>sha256 (okey @ sha256 (ikey @ msg))\<close> for every key shorter than 32 bytes (with the
  key xored byte by byte with the inner and the outer constant), as long as key and message together stay below one
  block. The key is not padded to the block length, unlike RFC 2104.\<close>

theorem hmac_sha256_short:
  assumes "length key < 32" "length key + length msg < 64" "length out = 32"
  shows "\<exists>h h1 h2. hmac_set_key Sha256_ops (Hmac_new Sha256_ops) key = Some h \<and> hmac_update Sha256_ops h msg = Some h1 \<and>
    hmac_digest Sha256_ops h1 out = Some (sha256 (map ((XOR) 0x5c) key @ sha256 (map ((XOR) 0x36) key @ msg)), h2)"
proof (rule sha.hmac_correct)
  show "\<forall>n < length key. sha_fits n 1" "sha_fits (length key) (length msg)" "sha_fits (length key) (DIGEST_LEN Sha256_ops)"
    using assms(1,2) by (auto simp: sha_fits_def Sha256_ops_def SHA256_DIGEST_LEN_def)
  show "length out = DIGEST_LEN Sha256_ops" using assms(3) by (simp add: Sha256_ops_def SHA256_DIGEST_LEN_def)
qed

theorem hmac_sha256_short_witness:
  "\<exists>h h1 h2. hmac_set_key Sha256_ops (Hmac_new Sha256_ops) [1, 2, 3] = Some h \<and> hmac_update Sha256_ops h [4, 5] = Some h1 \<and>
    hmac_digest Sha256_ops h1 (replicate 32 0) =
      Some (sha256 (map ((XOR) 0x5c) [1, 2, 3] @ sha256 (map ((XOR) 0x36) [1, 2, 3] @ [4, 5])), h2)"
  using hmac_sha256_short [of "[1, 2, 3]" "[4, 5]" "replicate 32 0"] by simp

end
