(* ===== verification/Btree_Map.thy ===== *)
theory Btree_Map
  imports Kernel_Prelude
begin

text \<open>
  The ordered maps of the Rust library (\<^verbatim>\<open>BTreeMap\<close>) that the kernel keeps its tables in: lists of pairs, strictly
  ordered by the key, so that iteration in key order is the list itself. \<open>ordered_map\<close> is what the tables rely on; the
  sorted lists interpret it.
\<close>

fun bt_insert :: "'k::linorder \<Rightarrow> 'v \<Rightarrow> ('k \<times> 'v) list \<Rightarrow> ('k \<times> 'v) list" where
  "bt_insert k v [] = [(k, v)]"
| "bt_insert k v ((k', v') # xs) =
     (if k < k' then (k, v) # (k', v') # xs
      else if k = k' then (k, v) # xs
      else (k', v') # bt_insert k v xs)"

definition bt_remove :: "'k \<Rightarrow> ('k \<times> 'v) list \<Rightarrow> ('k \<times> 'v) list" where
  "bt_remove k xs = filter (\<lambda>(k', _). k' \<noteq> k) xs"

definition bt_sorted :: "('k::linorder \<times> 'v) list \<Rightarrow> bool" where
  "bt_sorted xs \<longleftrightarrow> sorted_wrt (<) (map fst xs)"

lemma bt_sorted_simps [simp]: "bt_sorted []" "bt_sorted ((k, v) # xs) \<longleftrightarrow> (\<forall>k' \<in> fst ` set xs. k < k') \<and> bt_sorted xs"
  by (simp_all add: bt_sorted_def)

lemma bt_insert_keys: "fst ` set (bt_insert k v xs) = insert k (fst ` set xs)"
  by (induction k v xs rule: bt_insert.induct) auto

lemma bt_insert_sorted: "bt_sorted xs \<Longrightarrow> bt_sorted (bt_insert k v xs)"
proof (induction k v xs rule: bt_insert.induct)
  case (2 k v k' v' xs)
  then show ?case by (auto simp: bt_insert_keys)
qed simp

lemma map_of_above: "\<forall>k' \<in> fst ` set xs. k < k' \<Longrightarrow> map_of xs (k :: 'k::linorder) = None"
  by (auto simp: map_of_eq_None_iff)

lemma bt_insert_lookup: "bt_sorted xs \<Longrightarrow> map_of (bt_insert k v xs) = (map_of xs)(k \<mapsto> v)"
proof (induction k v xs rule: bt_insert.induct)
  case (2 k v k' v' xs)
  then show ?case using map_of_above by (auto simp: fun_eq_iff)
qed simp

lemma bt_remove_keys: "fst ` set (bt_remove k xs) = fst ` set xs - {k}"
  by (force simp: bt_remove_def)

lemma bt_remove_sorted: "bt_sorted xs \<Longrightarrow> bt_sorted (bt_remove k xs)"
  by (induction xs) (auto simp: bt_remove_def)

lemma bt_remove_lookup: "map_of (bt_remove k xs) = (map_of xs)(k := None)"
  by (induction xs) (auto simp: bt_remove_def fun_eq_iff)

lemma bt_sorted_distinct: "bt_sorted xs \<Longrightarrow> distinct (map fst xs)"
  by (simp add: bt_sorted_def strict_sorted_iff)

text \<open>A key above all keys goes to the end.\<close>

lemma bt_insert_last: "\<forall>k' \<in> fst ` set xs. k' < k \<Longrightarrow> bt_insert k v xs = xs @ [(k, v)]"
  by (induction k v xs rule: bt_insert.induct) auto

section \<open>The interface\<close>

locale ordered_map =
  fixes ok :: "'m \<Rightarrow> bool" and get :: "'m \<Rightarrow> 'k \<Rightarrow> 'v option" and ins :: "'k \<Rightarrow> 'v \<Rightarrow> 'm \<Rightarrow> 'm" and rem :: "'k \<Rightarrow> 'm \<Rightarrow> 'm"
  assumes ins_ok: "ok m \<Longrightarrow> ok (ins k v m)"
    and rem_ok: "ok m \<Longrightarrow> ok (rem k m)"
    and get_ins: "ok m \<Longrightarrow> get (ins k v m) k' = (if k' = k then Some v else get m k')"
    and get_rem: "ok m \<Longrightarrow> get (rem k m) k' = (if k' = k then None else get m k')"
begin

lemma ins_other: "ok m \<Longrightarrow> get m k = None \<Longrightarrow> get m k' = Some v' \<Longrightarrow> get (ins k v m) k' = Some v'"
  by (auto simp: get_ins)

lemma rem_ins: "ok m \<Longrightarrow> get m k = None \<Longrightarrow> get (rem k (ins k v m)) = get m"
  by (auto simp: get_ins get_rem ins_ok fun_eq_iff)

lemma ins_twice: "ok m \<Longrightarrow> get (ins k v (ins k v' m)) = get (ins k v m)"
  by (auto simp: get_ins ins_ok fun_eq_iff)

end

interpretation bt: ordered_map bt_sorted map_of bt_insert bt_remove
  by unfold_locales (simp_all add: bt_insert_sorted bt_remove_sorted bt_insert_lookup bt_remove_lookup)

end
