(* ===== verification/Vfs.thy ===== *)
theory Vfs
  imports Btree_Map
begin

text \<open>
  Paths (\<^verbatim>\<open>src/src/path.rs\<close>) and the virtual file system (\<^verbatim>\<open>src/src/vfs.rs\<close>).

  A path is a string; a prefix is a prefix of the string, not of the components. The trait \<^verbatim>\<open>FileSystem\<close> is a record of
  operations on a file system state \<open>'f\<close> and on the globals \<open>'e\<close> of the kernel that the implementations reach (the log,
  the random generator, the devices). The virtual file system keeps the mount points and the file systems in two maps
  under the same ids. \<open>file_system\<close> is the contract of the trait, under which the operations of the virtual file system
  never panic.
\<close>

section \<open>Paths\<close>

fun split_on :: "char \<Rightarrow> string \<Rightarrow> string list" where
  "split_on c [] = [[]]"
| "split_on c (x # xs) =
     (if x = c then [] # split_on c xs
      else case split_on c xs of [] \<Rightarrow> [[x]] | w # ws \<Rightarrow> (x # w) # ws)"

definition path_iter :: "string \<Rightarrow> string list" where
  "path_iter p = split_on (CHR ''/'') p"

definition path_starts_with :: "string \<Rightarrow> string \<Rightarrow> bool" where
  "path_starts_with p q \<longleftrightarrow> take (length q) p = q"

definition is_absolute :: "string \<Rightarrow> bool" where
  "is_absolute p \<longleftrightarrow> path_starts_with p ''/''"

definition strip_prefix :: "string \<Rightarrow> string \<Rightarrow> unit + string" where
  "strip_prefix p q = (if path_starts_with p q then Inr (drop (length q) p) else Inl ())"

section \<open>Files and file systems\<close>

datatype FsError = NoSuchFile | NotSupported | PermissionDenied | FsOther

datatype VfsError = NotMounted | FsError FsError

datatype FileType = RegularFile | Directory | CharDev | BlockDev | SymbolLink

record File =
  file_fd :: nat
  file_type :: FileType

record VfsFile =
  vf_file :: File
  vf_offset :: nat
  vf_fs_id :: nat

record ('e, 'f) FileSystem =
  fs_create :: "'f \<Rightarrow> string \<Rightarrow> ((FsError + File) \<times> 'f) option"
  fs_open :: "'f \<Rightarrow> string \<Rightarrow> ((FsError + File) \<times> 'f) option"
  fs_write :: "'e \<Rightarrow> 'f \<Rightarrow> File \<Rightarrow> u8 list \<Rightarrow> nat \<Rightarrow> ((FsError + nat) \<times> 'f \<times> 'e) option"
  fs_read :: "'e \<Rightarrow> 'f \<Rightarrow> File \<Rightarrow> u8 list \<Rightarrow> nat \<Rightarrow> ((FsError + nat) \<times> u8 list \<times> 'f \<times> 'e) option"
  fs_remove :: "'f \<Rightarrow> string \<Rightarrow> ((FsError + unit) \<times> 'f) option"
  fs_rename :: "'f \<Rightarrow> string \<Rightarrow> string \<Rightarrow> ((FsError + unit) \<times> 'f) option"
  fs_close :: "'f \<Rightarrow> File \<Rightarrow> ((FsError + unit) \<times> 'f) option"
  fs_list_dir :: "'f \<Rightarrow> ((FsError + string list) \<times> 'f) option"
  fs_mknod :: "'f \<Rightarrow> string \<Rightarrow> FileType \<Rightarrow> nat \<times> nat \<Rightarrow> ((FsError + unit) \<times> 'f) option"

text \<open>The provided method \<^verbatim>\<open>mknod\<close> of the trait.\<close>

definition default_mknod :: "'f \<Rightarrow> string \<Rightarrow> FileType \<Rightarrow> nat \<times> nat \<Rightarrow> ((FsError + unit) \<times> 'f) option" where
  "default_mknod fs path ty dev = Some (Inl NotSupported, fs)"

section \<open>The virtual file system\<close>

record 'f VirtualFileSystem =
  max_id :: nat
  mount_points :: "(nat \<times> string) list"
  mounted_fs :: "(nat \<times> 'f) list"

definition VirtualFileSystem_default :: "'f VirtualFileSystem" where
  "VirtualFileSystem_default = \<lparr>max_id = 0, mount_points = [], mounted_fs = []\<rparr>"

text \<open>The loops over the mount points stop at the first one, in the order of the ids, that is a prefix of the path.\<close>

definition find_mount :: "(nat \<times> string) list \<Rightarrow> string \<Rightarrow> (nat \<times> string) option" where
  "find_mount mps path = find (\<lambda>(fs_id, mpoint). path_starts_with path mpoint) mps"

definition set_fs :: "nat \<Rightarrow> 'f \<Rightarrow> 'f VirtualFileSystem \<Rightarrow> 'f VirtualFileSystem" where
  \<comment> \<open>what a call through \<open>get_mut\<close> leaves in the map\<close>
  "set_fs i fs v = v\<lparr>mounted_fs := bt_insert i fs (mounted_fs v)\<rparr>"

definition vfs_open ::
  "('e, 'f) FileSystem \<Rightarrow> 'f VirtualFileSystem \<Rightarrow> string \<Rightarrow> ((VfsError + VfsFile) \<times> 'f VirtualFileSystem) option" where
  "vfs_open F v path = do {
     rust_assert (is_absolute path);
     (case find_mount (mount_points v) path of
        None \<Rightarrow> Some (Inl NotMounted, v)
      | Some (fs_id, prefix) \<Rightarrow>
          (case map_of (mounted_fs v) fs_id of
             None \<Rightarrow> Some (Inl NotMounted, v)
           | Some fs \<Rightarrow>
               (case strip_prefix path prefix of
                  Inl _ \<Rightarrow> None
                | Inr rest \<Rightarrow> do {
                    (r, fs) \<leftarrow> fs_open F fs rest;
                    Some (case r of
                        Inr fd \<Rightarrow> (Inr \<lparr>vf_file = fd, vf_offset = 0, vf_fs_id = fs_id\<rparr>, set_fs fs_id fs v)
                      | Inl err \<Rightarrow> (Inl (FsError err), set_fs fs_id fs v))
                  })))
   }"

definition vfs_mount :: "'f VirtualFileSystem \<Rightarrow> 'f \<Rightarrow> string \<Rightarrow> 'f VirtualFileSystem option" where
  "vfs_mount v fs mount_point = do {
     rust_assert (is_absolute mount_point);
     n \<leftarrow> usize_add (max_id v) 1;
     Some \<lparr>max_id = n, mount_points = bt_insert (max_id v) mount_point (mount_points v),
       mounted_fs = bt_insert (max_id v) fs (mounted_fs v)\<rparr>
   }"

definition vfs_umount :: "'f VirtualFileSystem \<Rightarrow> string \<Rightarrow> 'f VirtualFileSystem" where
  "vfs_umount v mount_point =
     (case find_mount (mount_points v) mount_point of
        None \<Rightarrow> v
      | Some (fs_id, _) \<Rightarrow> v\<lparr>mounted_fs := bt_remove fs_id (mounted_fs v), mount_points := bt_remove fs_id (mount_points v)\<rparr>)"

definition get_fs_mut :: "'f VirtualFileSystem \<Rightarrow> string \<Rightarrow> (nat \<times> 'f) option" where
  "get_fs_mut v mount_point =
     (case find_mount (mount_points v) mount_point of
        None \<Rightarrow> None
      | Some (fs_id, _) \<Rightarrow> map_option (Pair fs_id) (map_of (mounted_fs v) fs_id))"

definition vfs_read ::
  "('e, 'f) FileSystem \<Rightarrow> 'e \<Rightarrow> 'f VirtualFileSystem \<Rightarrow> VfsFile \<Rightarrow> u8 list \<Rightarrow>
   ((FsError + nat) \<times> u8 list \<times> VfsFile \<times> 'f VirtualFileSystem \<times> 'e) option" where
  "vfs_read F e v fd buf = do {
     fs \<leftarrow> map_of (mounted_fs v) (vf_fs_id fd);
     (r, buf, fs, e) \<leftarrow> fs_read F e fs (vf_file fd) buf (vf_offset fd);
     let v = set_fs (vf_fs_id fd) fs v;
     (case r of
        Inr n \<Rightarrow> do { off \<leftarrow> usize_add (vf_offset fd) n; Some (Inr n, buf, fd\<lparr>vf_offset := off\<rparr>, v, e) }
      | Inl err \<Rightarrow> Some (Inl err, buf, fd, v, e))
   }"

definition vfs_write ::
  "('e, 'f) FileSystem \<Rightarrow> 'e \<Rightarrow> 'f VirtualFileSystem \<Rightarrow> VfsFile \<Rightarrow> u8 list \<Rightarrow>
   ((FsError + nat) \<times> VfsFile \<times> 'f VirtualFileSystem \<times> 'e) option" where
  "vfs_write F e v fd buf = do {
     fs \<leftarrow> map_of (mounted_fs v) (vf_fs_id fd);
     (r, fs, e) \<leftarrow> fs_write F e fs (vf_file fd) buf (vf_offset fd);
     let v = set_fs (vf_fs_id fd) fs v;
     (case r of
        Inr n \<Rightarrow> do { off \<leftarrow> usize_add (vf_offset fd) n; Some (Inr n, fd\<lparr>vf_offset := off\<rparr>, v, e) }
      | Inl err \<Rightarrow> Some (Inl err, fd, v, e))
   }"

definition vfs_close ::
  "('e, 'f) FileSystem \<Rightarrow> 'f VirtualFileSystem \<Rightarrow> VfsFile \<Rightarrow> ((FsError + unit) \<times> 'f VirtualFileSystem) option" where
  "vfs_close F v fd = do {
     fs \<leftarrow> map_of (mounted_fs v) (vf_fs_id fd);
     (r, fs) \<leftarrow> fs_close F fs (vf_file fd);
     Some (r, set_fs (vf_fs_id fd) fs v)
   }"

section \<open>The maps of the virtual file system\<close>

definition vfs_ok :: "('f \<Rightarrow> bool) \<Rightarrow> 'f VirtualFileSystem \<Rightarrow> bool" where
  "vfs_ok ok v \<longleftrightarrow> bt_sorted (mount_points v) \<and> bt_sorted (mounted_fs v) \<and>
     fst ` set (mount_points v) = fst ` set (mounted_fs v) \<and> (\<forall>i \<in> fst ` set (mounted_fs v). i < max_id v) \<and>
     (\<forall>fs \<in> snd ` set (mounted_fs v). ok fs)"

lemma vfs_okD:
  assumes "vfs_ok ok v"
  shows "bt_sorted (mount_points v)" "bt_sorted (mounted_fs v)" "fst ` set (mount_points v) = fst ` set (mounted_fs v)"
    "\<And>i fs. map_of (mounted_fs v) i = Some fs \<Longrightarrow> ok fs"
  using assms by (force simp: vfs_ok_def dest: map_of_SomeD)+

lemma bt_insert_values: "snd ` set (bt_insert k v xs) \<subseteq> insert v (snd ` set xs)"
  by (induction k v xs rule: bt_insert.induct) auto

lemma set_fs_ok:
  assumes "vfs_ok ok v" "i \<in> fst ` set (mounted_fs v)" "ok fs"
  shows "vfs_ok ok (set_fs i fs v)"
proof -
  have "\<forall>fs \<in> snd ` set (bt_insert i fs (mounted_fs v)). ok fs"
  proof
    fix x assume "x \<in> snd ` set (bt_insert i fs (mounted_fs v))"
    then have "x = fs \<or> x \<in> snd ` set (mounted_fs v)" using bt_insert_values [of i fs "mounted_fs v"] by blast
    then show "ok x" using assms(1,3) by (auto simp: vfs_ok_def)
  qed
  then show ?thesis using assms(1,2) by (simp add: vfs_ok_def set_fs_def bt_insert_sorted bt_insert_keys insert_absorb)
qed

lemma set_fs_lookup: "vfs_ok ok v \<Longrightarrow> map_of (mounted_fs (set_fs i fs v)) = (map_of (mounted_fs v))(i \<mapsto> fs)"
  using vfs_okD(2) [of ok v] by (simp add: set_fs_def bt_insert_lookup)

lemma map_of_key: "i \<in> fst ` set xs \<Longrightarrow> \<exists>v. map_of xs i = Some v"
  by (metis map_of_eq_None_iff not_Some_eq)

text \<open>The mount point of a path: the one with the least id among those that are a prefix.\<close>

lemma find_mount_Some:
  assumes "bt_sorted mps" "find_mount mps path = Some (i, mp)"
  shows "(i, mp) \<in> set mps" "path_starts_with path mp" "\<And>j mq. (j, mq) \<in> set mps \<Longrightarrow> path_starts_with path mq \<Longrightarrow> i \<le> j"
proof -
  show "(i, mp) \<in> set mps" "path_starts_with path mp" using assms(2) by (auto simp: find_mount_def find_Some_iff) (metis nth_mem)
  show "i \<le> j" if "(j, mq) \<in> set mps" "path_starts_with path mq" for j mq
    using assms that unfolding find_mount_def
  proof (induction mps)
    case (Cons a mps)
    obtain k mr where a: "a = (k, mr)" by (cases a)
    show ?case
    proof (cases "path_starts_with path mr")
      case True
      then have "i = k" using Cons.prems(2) by (simp add: a)
      then show ?thesis using Cons.prems(1,3) by (auto simp: a)
    next
      case False
      then show ?thesis using Cons by (auto simp: a)
    qed
  qed simp
qed

lemma find_mount_None: "find_mount mps path = None \<longleftrightarrow> (\<forall>(i, mp) \<in> set mps. \<not> path_starts_with path mp)"
  by (auto simp: find_mount_def find_None_iff)

lemma find_mount_fs:
  assumes "vfs_ok ok v" "find_mount (mount_points v) path = Some (i, mp)"
  obtains fs where "map_of (mounted_fs v) i = Some fs" "ok fs"
proof -
  have "i \<in> fst ` set (mount_points v)" using find_mount_Some(1) [OF vfs_okD(1) [OF assms(1)] assms(2)] by force
  then obtain fs where "map_of (mounted_fs v) i = Some fs" using vfs_okD(3) [OF assms(1)] map_of_key by metis
  then show ?thesis using that vfs_okD(4) [OF assms(1)] by blast
qed

section \<open>The contract of a file system\<close>

text \<open>\<open>ok\<close> is the invariant of the file system and \<open>genv\<close> that of the globals; \<open>may_open\<close> are the paths it can be asked
  to open without a panic.\<close>

locale file_system =
  fixes F :: "('e, 'f) FileSystem" and ok :: "'f \<Rightarrow> bool" and genv :: "'e \<Rightarrow> bool" and may_open :: "string \<Rightarrow> bool"
  assumes opens: "ok fs \<Longrightarrow> may_open p \<Longrightarrow> \<exists>r fs'. fs_open F fs p = Some (r, fs') \<and> ok fs'"
    and reads: "ok fs \<Longrightarrow> genv e \<Longrightarrow> \<exists>r buf' fs' e'. fs_read F e fs f buf off = Some (r, buf', fs', e') \<and> ok fs' \<and> genv e' \<and>
      length buf' = length buf \<and> (\<forall>n. r = Inr n \<longrightarrow> n \<le> length buf)"
    and writes: "ok fs \<Longrightarrow> genv e \<Longrightarrow> \<exists>r fs' e'. fs_write F e fs f buf off = Some (r, fs', e') \<and> ok fs' \<and> genv e' \<and>
      (\<forall>n. r = Inr n \<longrightarrow> n \<le> length buf)"
    and closes: "ok fs \<Longrightarrow> \<exists>r fs'. fs_close F fs f = Some (r, fs') \<and> ok fs'"
begin

lemma vfs_open_total:
  assumes "vfs_ok ok v" "is_absolute p" "\<And>i mp. find_mount (mount_points v) p = Some (i, mp) \<Longrightarrow> may_open (drop (length mp) p)"
  shows "\<exists>r v'. vfs_open F v p = Some (r, v') \<and> vfs_ok ok v' \<and> max_id v' = max_id v \<and> mount_points v' = mount_points v"
proof (cases "find_mount (mount_points v) p")
  case None
  then show ?thesis using assms(1,2) by (simp add: vfs_open_def)
next
  case (Some x)
  then obtain i mp where x: "find_mount (mount_points v) p = Some (i, mp)" by (cases x) auto
  obtain fs where fs: "map_of (mounted_fs v) i = Some fs" "ok fs" using find_mount_fs [OF assms(1) x] .
  obtain r fs' where r: "fs_open F fs (drop (length mp) p) = Some (r, fs')" "ok fs'"
    using opens [OF fs(2) assms(3) [OF x]] by blast
  have "i \<in> fst ` set (mounted_fs v)" using map_of_SomeD [OF fs(1)] by force
  then have "vfs_ok ok (set_fs i fs' v)" using set_fs_ok [OF assms(1) _ r(2)] by blast
  moreover have "path_starts_with p mp" using find_mount_Some(2) [OF vfs_okD(1) [OF assms(1)] x] .
  ultimately show ?thesis using assms(2) x fs(1) r(1)
    by (cases r) (auto simp: vfs_open_def strip_prefix_def set_fs_def)
qed

lemma vfs_read_total:
  assumes "vfs_ok ok v" "genv e" "vf_fs_id fd \<in> fst ` set (mounted_fs v)" "vf_offset fd + length buf < 2 ^ 64"
  shows "\<exists>r buf' fd' v' e'. vfs_read F e v fd buf = Some (r, buf', fd', v', e') \<and> vfs_ok ok v' \<and> genv e' \<and>
    length buf' = length buf \<and> vf_file fd' = vf_file fd \<and> vf_fs_id fd' = vf_fs_id fd \<and>
    vf_offset fd' = vf_offset fd + (case r of Inr n \<Rightarrow> n | Inl _ \<Rightarrow> 0)"
proof -
  obtain fs where fs: "map_of (mounted_fs v) (vf_fs_id fd) = Some fs" "ok fs"
    using map_of_key [OF assms(3)] vfs_okD(4) [OF assms(1)] by blast
  obtain r buf' fs' e' where r: "fs_read F e fs (vf_file fd) buf (vf_offset fd) = Some (r, buf', fs', e')" "ok fs'" "genv e'"
    "length buf' = length buf" "\<forall>n. r = Inr n \<longrightarrow> n \<le> length buf"
    using reads [OF fs(2) assms(2)] by blast
  have "vfs_ok ok (set_fs (vf_fs_id fd) fs' v)" using set_fs_ok [OF assms(1,3) r(2)] .
  then show ?thesis using fs(1) r assms(4) by (cases r) (auto simp: vfs_read_def Let_def)
qed

lemma vfs_write_total:
  assumes "vfs_ok ok v" "genv e" "vf_fs_id fd \<in> fst ` set (mounted_fs v)" "vf_offset fd + length buf < 2 ^ 64"
  shows "\<exists>r fd' v' e'. vfs_write F e v fd buf = Some (r, fd', v', e') \<and> vfs_ok ok v' \<and> genv e' \<and>
    vf_file fd' = vf_file fd \<and> vf_fs_id fd' = vf_fs_id fd \<and>
    vf_offset fd' = vf_offset fd + (case r of Inr n \<Rightarrow> n | Inl _ \<Rightarrow> 0)"
proof -
  obtain fs where fs: "map_of (mounted_fs v) (vf_fs_id fd) = Some fs" "ok fs"
    using map_of_key [OF assms(3)] vfs_okD(4) [OF assms(1)] by blast
  obtain r fs' e' where r: "fs_write F e fs (vf_file fd) buf (vf_offset fd) = Some (r, fs', e')" "ok fs'" "genv e'"
    "\<forall>n. r = Inr n \<longrightarrow> n \<le> length buf"
    using writes [OF fs(2) assms(2)] by blast
  have "vfs_ok ok (set_fs (vf_fs_id fd) fs' v)" using set_fs_ok [OF assms(1,3) r(2)] .
  then show ?thesis using fs(1) r assms(4) by (cases r) (auto simp: vfs_write_def Let_def)
qed

lemma vfs_close_total:
  assumes "vfs_ok ok v" "vf_fs_id fd \<in> fst ` set (mounted_fs v)"
  shows "\<exists>r v'. vfs_close F v fd = Some (r, v') \<and> vfs_ok ok v'"
proof -
  obtain fs where fs: "map_of (mounted_fs v) (vf_fs_id fd) = Some fs" "ok fs"
    using map_of_key [OF assms(2)] vfs_okD(4) [OF assms(1)] by blast
  obtain r fs' where r: "fs_close F fs (vf_file fd) = Some (r, fs')" "ok fs'" using closes [OF fs(2)] by blast
  then show ?thesis using fs(1) set_fs_ok [OF assms r(2)] by (simp add: vfs_close_def)
qed

end

lemma vfs_mount_ok:
  assumes "vfs_ok ok v" "is_absolute mp" "ok fs" "max_id v + 1 < 2 ^ 64"
  shows "\<exists>v'. vfs_mount v fs mp = Some v' \<and> vfs_ok ok v' \<and> mount_points v' = mount_points v @ [(max_id v, mp)] \<and>
    mounted_fs v' = mounted_fs v @ [(max_id v, fs)] \<and> max_id v' = max_id v + 1"
proof -
  have keys: "\<forall>i \<in> fst ` set (mounted_fs v). i < max_id v" "\<forall>i \<in> fst ` set (mount_points v). i < max_id v"
    using assms(1) by (auto simp: vfs_ok_def)
  note ins = bt_insert_last [OF keys(2), of mp] bt_insert_last [OF keys(1), of fs]
  have "bt_sorted (mount_points v @ [(max_id v, mp)])" "bt_sorted (mounted_fs v @ [(max_id v, fs)])"
    using bt_insert_sorted [OF vfs_okD(1) [OF assms(1)], of "max_id v" mp]
      bt_insert_sorted [OF vfs_okD(2) [OF assms(1)], of "max_id v" fs] by (simp_all only: ins)
  moreover have "vfs_mount v fs mp = Some \<lparr>max_id = max_id v + 1, mount_points = mount_points v @ [(max_id v, mp)],
      mounted_fs = mounted_fs v @ [(max_id v, fs)]\<rparr>"
    using assms(2,4) ins by (simp add: vfs_mount_def)
  moreover have "fst ` set (mount_points v) = fst ` set (mounted_fs v)" "\<forall>fs \<in> snd ` set (mounted_fs v). ok fs"
    using assms(1) unfolding vfs_ok_def by blast+
  moreover have "\<forall>i \<in> fst ` set (mounted_fs v). i < max_id v + 1" using keys(1) less_SucI by force
  ultimately show ?thesis using assms(3) by (simp add: vfs_ok_def)
qed

lemma vfs_umount_ok: "vfs_ok ok v \<Longrightarrow> vfs_ok ok (vfs_umount v mp)"
  by (auto simp: vfs_umount_def vfs_ok_def bt_remove_sorted bt_remove_keys split: option.splits)
    (auto simp: bt_remove_def)

end
