(* ===== verification/Utf8.thy ===== *)
theory Utf8
  imports Kernel_Prelude
begin

text \<open>
  \<^verbatim>\<open>String::from_utf8_lossy\<close> of the Rust library, which \<^verbatim>\<open>src/src/devfs.rs\<close> and \<^verbatim>\<open>src/src/task.rs\<close> apply to bytes that
  come from user space. A string is the list of its bytes. \<open>utf8_step\<close> reads one character (or one maximal ill-formed
  part of one) from the front; \<open>utf8_lossy\<close> keeps the characters and puts U+FFFD in place of the ill-formed parts.
\<close>

definition string_bytes :: "string \<Rightarrow> u8 list" where
  "string_bytes s = map of_char s"

definition byte_at :: "u8 list \<Rightarrow> nat \<Rightarrow> nat" where
  \<comment> \<open>\<open>safe_get\<close>: 0 past the end\<close>
  "byte_at bs i = (if i < length bs then unat (bs ! i) else 0)"

definition utf8_cont :: "u8 list \<Rightarrow> nat \<Rightarrow> bool" where
  "utf8_cont bs i \<longleftrightarrow> 0x80 \<le> byte_at bs i \<and> byte_at bs i \<le> 0xBF"

definition utf8_second :: "nat \<Rightarrow> nat \<Rightarrow> bool" where
  \<comment> \<open>the second byte of a sequence of three or four: no overlong form, no surrogate, at most U+10FFFF\<close>
  "utf8_second a b \<longleftrightarrow>
     (if a = 0xE0 then 0xA0 \<le> b \<and> b \<le> 0xBF
      else if a = 0xED then 0x80 \<le> b \<and> b \<le> 0x9F
      else if a = 0xF0 then 0x90 \<le> b \<and> b \<le> 0xBF
      else if a = 0xF4 then 0x80 \<le> b \<and> b \<le> 0x8F
      else 0x80 \<le> b \<and> b \<le> 0xBF)"

definition utf8_step :: "u8 list \<Rightarrow> bool \<times> nat" where
  "utf8_step bs =
     (let a = byte_at bs 0 in
      if a < 0x80 then (True, 1)
      else if 0xC2 \<le> a \<and> a \<le> 0xDF then (if utf8_cont bs 1 then (True, 2) else (False, 1))
      else if 0xE0 \<le> a \<and> a \<le> 0xEF then
        (if \<not> utf8_second a (byte_at bs 1) then (False, 1)
         else if \<not> utf8_cont bs 2 then (False, 2) else (True, 3))
      else if 0xF0 \<le> a \<and> a \<le> 0xF4 then
        (if \<not> utf8_second a (byte_at bs 1) then (False, 1)
         else if \<not> utf8_cont bs 2 then (False, 2)
         else if \<not> utf8_cont bs 3 then (False, 3) else (True, 4))
      else (False, 1))"

definition replacement :: "u8 list" where
  "replacement = [0xEF, 0xBF, 0xBD]"

lemma utf8_step_pos: "0 < snd (utf8_step bs)"
  by (simp add: utf8_step_def Let_def)

lemma utf8_step_length: "(valid, n) = utf8_step bs \<Longrightarrow> 0 < n"
  using utf8_step_pos [of bs] by (metis snd_conv)

function utf8_lossy :: "u8 list \<Rightarrow> u8 list" where
  "utf8_lossy bs =
     (if bs = [] then []
      else case utf8_step bs of (valid, n) \<Rightarrow> (if valid then take n bs else replacement) @ utf8_lossy (drop n bs))"
  by pat_completeness auto

termination
  by (relation "measure length") (auto dest: utf8_step_length)

declare utf8_lossy.simps [simp del]

lemma utf8_lossy_Nil [simp]: "utf8_lossy [] = []"
  by (simp add: utf8_lossy.simps)

text \<open>ASCII text is unchanged.\<close>

lemma utf8_lossy_ascii: "\<forall>b \<in> set bs. unat b < 128 \<Longrightarrow> utf8_lossy bs = bs"
proof (induction bs)
  case (Cons b bs)
  then have "utf8_step (b # bs) = (True, 1)" by (simp add: utf8_step_def byte_at_def)
  then show ?case using Cons by (subst utf8_lossy.simps) simp
qed simp

end
