(* ===== verification/Devfs.thy ===== *)
theory Devfs
  imports Vfs Kmsg Rand Utf8 "HOL-Library.List_Lexorder" "HOL-Library.Char_ord"
begin

text \<open>
  The device file system (\<^verbatim>\<open>src/src/devfs.rs\<close>), the device manager (\<^verbatim>\<open>src/src/device.rs\<close>) and the mount of the one at
  boot (\<^verbatim>\<open>vfs_init\<close> of \<^verbatim>\<open>src/src/vfs.rs\<close>).

  \<open>Globals\<close> are the statics of the kernel the device files reach: the log, the random generator and the character
  devices, each of them the bytes that have been put on it. The file system interprets the contract of \<open>Vfs\<close>, and the
  lemmas give what every device reads and writes through the virtual file system.
\<close>

section \<open>Devices\<close>

record Globals =
  g_kmsg :: KernelMessage
  g_rng :: MT19937
  char_devs :: "u8 list list"

definition print_str :: "u8 list \<Rightarrow> u8 list \<Rightarrow> u8 list" where
  "print_str dev s = foldl (\<lambda>out b. out @ [b]) dev s"

definition register_char_dev :: "Globals \<Rightarrow> u8 list \<Rightarrow> nat \<times> Globals" where
  "register_char_dev e dev = (length (char_devs e), e\<lparr>char_devs := char_devs e @ [dev]\<rparr>)"

definition CHAR_DEV_MAJOR :: nat where "CHAR_DEV_MAJOR = 1"

section \<open>The file system\<close>

record DevFS =
  fds :: "(nat \<times> string) list"
  devs :: "(string \<times> (nat \<times> nat)) list"

definition DevFS_default :: DevFS where
  "DevFS_default = \<lparr>fds = [], devs = []\<rparr>"

definition DEVFS_FILES :: "string list" where
  "DEVFS_FILES = [''zero'', ''null'', ''kmsg'', ''random'', ''urandom'']"

definition devfs_create :: "DevFS \<Rightarrow> string \<Rightarrow> ((FsError + File) \<times> DevFS) option" where
  "devfs_create d path = Some (Inl NotSupported, d)"

definition devfs_open :: "DevFS \<Rightarrow> string \<Rightarrow> ((FsError + File) \<times> DevFS) option" where
  "devfs_open d path = do {
     dev \<leftarrow> nth_opt (path_iter path) 1;
     let fd = length (fds d);
     (case find (\<lambda>file_name. file_name = dev) DEVFS_FILES of
        Some file_name \<Rightarrow> Some (Inr \<lparr>file_fd = fd, file_type = CharDev\<rparr>, d\<lparr>fds := bt_insert fd file_name (fds d)\<rparr>)
      | None \<Rightarrow>
          (case map_of (devs d) dev of
             Some _ \<Rightarrow> Some (Inr \<lparr>file_fd = fd, file_type = CharDev\<rparr>, d\<lparr>fds := bt_insert fd dev (fds d)\<rparr>)
           | None \<Rightarrow> Some (Inl NoSuchFile, d)))
   }"

definition copy_into :: "'a list \<Rightarrow> nat \<Rightarrow> 'a list \<Rightarrow> 'a list option" where
  \<comment> \<open>\<open>buf[off..off + src.len()].copy_from_slice(src)\<close>\<close>
  "copy_into buf off src =
     (if off + length src \<le> length buf then Some (take off buf @ src @ drop (off + length src) buf) else None)"

fun kmsg_loop :: "KernelMessageEntry list \<Rightarrow> u8 list \<Rightarrow> nat \<Rightarrow> nat \<Rightarrow> (u8 list \<times> nat) option" where
  "kmsg_loop [] buf buf_off off = Some (buf, buf_off)"
| "kmsg_loop (msg_entry # rest) buf buf_off off =
     (if buf_off = length buf then Some (buf, buf_off)
      else let msg = string_bytes (fmt msg_entry) in
        if length msg \<le> off then kmsg_loop rest buf buf_off (off - length msg)
        else do {
          free \<leftarrow> usize_sub (length buf) buf_off;
          left \<leftarrow> usize_sub (length msg) off;
          let read_size = min free left;
          src \<leftarrow> slice_opt msg off (off + read_size);
          buf \<leftarrow> copy_into buf buf_off src;
          kmsg_loop rest buf (buf_off + read_size) 0
        })"

definition devfs_read ::
  "Globals \<Rightarrow> DevFS \<Rightarrow> File \<Rightarrow> u8 list \<Rightarrow> nat \<Rightarrow> ((FsError + nat) \<times> u8 list \<times> DevFS \<times> Globals) option" where
  "devfs_read e d fd buf off =
     (case map_of (fds d) (file_fd fd) of
        Some file_name \<Rightarrow>
          (if file_name = ''zero'' then Some (Inr (length buf), replicate (length buf) 0, d, e)
           else if file_name = ''kmsg'' then do {
             (buf, buf_off) \<leftarrow> kmsg_loop (get_messages (g_kmsg e)) buf 0 off;
             Some (Inr buf_off, buf, d, e)
           }
           else if file_name = ''random'' \<or> file_name = ''urandom'' then do {
             (buf, rng) \<leftarrow> gen_bytes random_uint32 (g_rng e) buf;
             Some (Inr (length buf), buf, d, e\<lparr>g_rng := rng\<rparr>)
           }
           else Some (Inl PermissionDenied, buf, d, e))
      | None \<Rightarrow> Some (Inl NoSuchFile, buf, d, e))"

definition devfs_write ::
  "Globals \<Rightarrow> DevFS \<Rightarrow> File \<Rightarrow> u8 list \<Rightarrow> nat \<Rightarrow> ((FsError + nat) \<times> DevFS \<times> Globals) option" where
  "devfs_write e d fd buf off =
     (case map_of (fds d) (file_fd fd) of
        Some file_name \<Rightarrow>
          (if file_name = ''null'' then Some (Inr (length buf), d, e)
           else case map_of (devs d) file_name of
             Some (major, minor) \<Rightarrow> do {
               dev \<leftarrow> nth_opt (char_devs e) minor;
               Some (Inr (length buf), d, e\<lparr>char_devs := (char_devs e)[minor := print_str dev (utf8_lossy buf)]\<rparr>)
             }
           | None \<Rightarrow> Some (Inl PermissionDenied, d, e))
      | None \<Rightarrow> Some (Inl NoSuchFile, d, e))"

definition devfs_remove :: "DevFS \<Rightarrow> string \<Rightarrow> ((FsError + unit) \<times> DevFS) option" where
  "devfs_remove d path = Some (Inl NotSupported, d)"

definition devfs_rename :: "DevFS \<Rightarrow> string \<Rightarrow> string \<Rightarrow> ((FsError + unit) \<times> DevFS) option" where
  "devfs_rename d src dst = Some (Inl NotSupported, d)"

definition devfs_close :: "DevFS \<Rightarrow> File \<Rightarrow> ((FsError + unit) \<times> DevFS) option" where
  "devfs_close d fd = Some (Inr (), d\<lparr>fds := bt_remove (file_fd fd) (fds d)\<rparr>)"

definition devfs_list_dir :: "DevFS \<Rightarrow> ((FsError + string list) \<times> DevFS) option" where
  "devfs_list_dir d = Some (Inr DEVFS_FILES, d)"

definition devfs_mknod :: "DevFS \<Rightarrow> string \<Rightarrow> FileType \<Rightarrow> nat \<times> nat \<Rightarrow> ((FsError + unit) \<times> DevFS) option" where
  "devfs_mknod d path ty dev_id = do {
     dev \<leftarrow> nth_opt (path_iter path) 0;
     Some (Inr (), d\<lparr>devs := bt_insert dev dev_id (devs d)\<rparr>)
   }"

definition add_device :: "DevFS \<Rightarrow> string \<Rightarrow> nat \<times> nat \<Rightarrow> DevFS" where
  "add_device d name dev_id =
     (if name \<notin> set DEVFS_FILES then d else d\<lparr>devs := bt_insert name dev_id (devs d)\<rparr>)"

definition DevFS_ops :: "(Globals, DevFS) FileSystem" where
  "DevFS_ops = \<lparr>fs_create = devfs_create, fs_open = devfs_open, fs_write = devfs_write, fs_read = devfs_read,
     fs_remove = devfs_remove, fs_rename = devfs_rename, fs_close = devfs_close, fs_list_dir = devfs_list_dir,
     fs_mknod = devfs_mknod\<rparr>"

definition vfs_init :: "DevFS VirtualFileSystem option" where
  "vfs_init = vfs_mount VirtualFileSystem_default DevFS_default ''/dev''"

section \<open>Paths under a mount point\<close>

lemma split_on_ne: "split_on c s \<noteq> []"
  by (induction s) (auto split: list.splits)

lemma split_on_none: "c \<notin> set s \<Longrightarrow> split_on c s = [s]"
  by (induction s) auto

lemma split_on_join: "c \<notin> set a \<Longrightarrow> split_on c (a @ c # b) = a # split_on c b"
  by (induction a) auto

lemma split_on_length: "length (split_on c s) = Suc (length (filter ((=) c) s))"
proof (induction s)
  case (Cons x s)
  then show ?case using split_on_ne [of c s] by (cases "split_on c s") auto
qed simp

lemma path_iter_length: "1 < length (path_iter p) \<longleftrightarrow> CHR ''/'' \<in> set p"
  by (auto simp: path_iter_def split_on_length filter_empty_conv)

lemma path_iter_abs: "CHR ''/'' \<notin> set a \<Longrightarrow> path_iter (CHR ''/'' # a) = [[], a]"
  by (simp add: path_iter_def split_on_none)

section \<open>The log file\<close>

definition log_text :: "KernelMessageEntry list \<Rightarrow> u8 list" where
  "log_text es = concat (map (\<lambda>m. string_bytes (fmt m)) es)"

lemma kmsg_loop_spec:
  assumes "buf_off \<le> length buf" "out = take (length buf - buf_off) (drop off (log_text es))"
  shows "kmsg_loop es buf buf_off off = Some (take buf_off buf @ out @ drop (buf_off + length out) buf, buf_off + length out)"
  using assms
proof (induction es arbitrary: buf buf_off off out)
  case Nil
  then show ?case by (simp add: log_text_def)
next
  case (Cons m es)
  define msg where "msg = string_bytes (fmt m)"
  have out: "log_text (m # es) = msg @ log_text es" by (simp add: log_text_def msg_def)
  consider "buf_off = length buf" | "buf_off < length buf" "length msg \<le> off" | "buf_off < length buf" "off < length msg"
    using Cons.prems(1) by linarith
  then show ?case
  proof cases
    case 1
    then show ?thesis using Cons.prems by simp
  next
    case 2
    then have "out = take (length buf - buf_off) (drop (off - length msg) (log_text es))"
      using Cons.prems(2) by (simp add: out)
    from Cons.IH [OF Cons.prems(1) this] 2 show ?thesis by (simp add: msg_def [symmetric] Let_def)
  next
    case 3
    define n where "n = min (length buf - buf_off) (length msg - off)"
    define src where "src = take n (drop off msg)"
    define buf' where "buf' = take buf_off buf @ src @ drop (buf_off + n) buf"
    have n: "length src = n" "buf_off + n \<le> length buf" "off + n \<le> length msg" using 3 by (auto simp: n_def src_def)
    have buf': "length buf' = length buf" "take (buf_off + n) buf' = take buf_off buf @ src"
      "drop (buf_off + n + k) buf' = drop (buf_off + n + k) buf" for k
      using n 3 by (auto simp: buf'_def add.commute add.left_commute)
    define t2 where "t2 = take (length buf - (buf_off + n)) (log_text es)"
    have whole: "out = src @ t2"
    proof (cases "length buf - buf_off \<le> length msg - off")
      case True
      then show ?thesis using Cons.prems(2) 3 by (simp add: out src_def t2_def n_def)
    next
      case False
      then have "n = length msg - off" by (simp add: n_def)
      then show ?thesis using Cons.prems(2) 3 False by (simp add: out src_def t2_def)
    qed
    have "kmsg_loop (m # es) buf buf_off off = kmsg_loop es buf' (buf_off + n) 0"
      using 3 n by (simp add: msg_def [symmetric] Let_def slice_opt_def copy_into_def n_def [symmetric] src_def [symmetric] buf'_def)
    also have "\<dots> = Some (take (buf_off + n) buf' @ t2 @ drop (buf_off + n + length t2) buf', buf_off + n + length t2)"
      using Cons.IH [of "buf_off + n" buf' t2 0] n(2) buf'(1) by (simp add: t2_def)
    finally show ?thesis using buf' n(1) by (simp add: whole add.assoc)
  qed
qed

section \<open>The contract of the device files\<close>

definition devfs_ok :: "nat \<Rightarrow> DevFS \<Rightarrow> bool" where
  "devfs_ok n d \<longleftrightarrow> bt_sorted (fds d) \<and> (\<forall>dev minor major. map_of (devs d) dev = Some (major, minor) \<longrightarrow> minor < n)"

definition globals_ok :: "nat \<Rightarrow> Globals \<Rightarrow> bool" where
  "globals_ok n e \<longleftrightarrow> n \<le> length (char_devs e) \<and> (\<exists>sd j. mt_ok sd j (g_rng e))"

lemma DevFS_ops_sel [simp]: "fs_open DevFS_ops = devfs_open" "fs_read DevFS_ops = devfs_read" "fs_write DevFS_ops = devfs_write"
  "fs_close DevFS_ops = devfs_close" "fs_mknod DevFS_ops = devfs_mknod"
  by (simp_all add: DevFS_ops_def)

lemma find_eq: "find (\<lambda>x. x = a) xs = (if a \<in> set xs then Some a else None)"
  by (induction xs) auto

lemma devfs_open_name:
  assumes "nth_opt (path_iter p) 1 = Some dev"
  shows "devfs_open d p =
    (if dev \<in> set DEVFS_FILES \<or> map_of (devs d) dev \<noteq> None
     then Some (Inr \<lparr>file_fd = length (fds d), file_type = CharDev\<rparr>, d\<lparr>fds := bt_insert (length (fds d)) dev (fds d)\<rparr>)
     else Some (Inl NoSuchFile, d))"
  using assms by (auto simp: devfs_open_def find_eq Let_def split: option.splits)

lemma devfs_opens: "devfs_ok n d \<Longrightarrow> CHR ''/'' \<in> set p \<Longrightarrow> \<exists>r d'. devfs_open d p = Some (r, d') \<and> devfs_ok n d'"
proof -
  assume ok: "devfs_ok n d" and "CHR ''/'' \<in> set p"
  then have "nth_opt (path_iter p) 1 = Some (path_iter p ! 1)" using path_iter_length [of p] by simp
  from devfs_open_name [OF this] show ?thesis using ok by (auto simp: devfs_ok_def bt_insert_sorted)
qed

lemma devfs_reads:
  assumes "devfs_ok n d" "globals_ok n e"
  shows "\<exists>r buf' d' e'. devfs_read e d f buf off = Some (r, buf', d', e') \<and> devfs_ok n d' \<and> globals_ok n e' \<and>
    length buf' = length buf \<and> (\<forall>k. r = Inr k \<longrightarrow> k \<le> length buf)"
proof -
  obtain bs g' where g: "gen_bytes random_uint32 (g_rng e) buf = Some (bs, g')" "length bs = length buf" "\<exists>sd j. mt_ok sd j g'"
    using mt.gen_bytes_length assms(2) unfolding globals_ok_def by blast
  define out where "out = take (length buf) (drop off (log_text (get_messages (g_kmsg e))))"
  have k: "kmsg_loop (get_messages (g_kmsg e)) buf 0 off = Some (out @ drop (length out) buf, length out)"
    using kmsg_loop_spec [of 0 buf out off "get_messages (g_kmsg e)"] by (simp add: out_def)
  have "length out \<le> length buf" by (simp add: out_def)
  then show ?thesis using assms g k by (auto simp: devfs_read_def globals_ok_def split: option.splits)
qed

lemma devfs_writes:
  assumes "devfs_ok n d" "globals_ok n e"
  shows "\<exists>r d' e'. devfs_write e d f buf off = Some (r, d', e') \<and> devfs_ok n d' \<and> globals_ok n e' \<and>
    (\<forall>k. r = Inr k \<longrightarrow> k \<le> length buf)"
proof -
  have "minor < length (char_devs e)" if "map_of (devs d) dev = Some (major, minor)" for dev major minor
    using assms that less_le_trans unfolding devfs_ok_def globals_ok_def by blast
  then show ?thesis using assms by (auto simp: devfs_write_def globals_ok_def split: option.splits)
qed

lemma devfs_closes: "devfs_ok n d \<Longrightarrow> \<exists>r d'. devfs_close d f = Some (r, d') \<and> devfs_ok n d'"
  by (auto simp: devfs_close_def devfs_ok_def bt_remove_sorted)

interpretation dev: file_system DevFS_ops "devfs_ok n" "globals_ok n" "\<lambda>p. CHR ''/'' \<in> set p" for n
  by unfold_locales (simp_all add: devfs_opens devfs_reads devfs_writes devfs_closes)

section \<open>The boot state\<close>

definition boot_vfs :: "DevFS \<Rightarrow> DevFS VirtualFileSystem" where
  "boot_vfs d = \<lparr>max_id = 1, mount_points = [(0, ''/dev'')], mounted_fs = [(0, d)]\<rparr>"

lemma vfs_init_boot: "vfs_init = Some (boot_vfs DevFS_default)"
  by (simp add: vfs_init_def vfs_mount_def VirtualFileSystem_default_def boot_vfs_def is_absolute_def path_starts_with_def)

lemma boot_vfs_ok: "devfs_ok n d \<Longrightarrow> vfs_ok (devfs_ok n) (boot_vfs d)"
  by (simp add: vfs_ok_def boot_vfs_def)

lemma boot_set_fs: "set_fs 0 d' (boot_vfs d) = boot_vfs d'"
  by (simp add: set_fs_def boot_vfs_def)

text \<open>C19: Opening a path on the virtual file system as it is mounted at boot, on every path. A relative path panics; a path
  that does not begin with \<^verbatim>\<open>/dev\<close> is not mounted; \<^verbatim>\<open>/dev\<close> itself, and a path that begins with \<^verbatim>\<open>/dev\<close> and has no later
  slash, panics; and every other one is looked up by the component after that slash: a built-in or registered device
  opens with offset 0, any other name is an error that changes nothing.\<close>

theorem boot_vfs_open:
  shows "vfs_open DevFS_ops (boot_vfs d) p =
    (if \<not> is_absolute p then None
     else if \<not> path_starts_with p ''/dev'' then Some (Inl NotMounted, boot_vfs d)
     else if CHR ''/'' \<notin> set (drop 4 p) then None
     else let dev = path_iter (drop 4 p) ! 1 in
       if map_of (devs d) dev = None \<and> dev \<notin> set DEVFS_FILES then Some (Inl (FsError NoSuchFile), boot_vfs d)
       else Some (Inr \<lparr>vf_file = \<lparr>file_fd = length (fds d), file_type = CharDev\<rparr>, vf_offset = 0, vf_fs_id = 0\<rparr>,
         boot_vfs (d\<lparr>fds := bt_insert (length (fds d)) dev (fds d)\<rparr>)))"
proof -
  let ?q = "drop 4 p"
  consider "\<not> is_absolute p" | "is_absolute p" "\<not> path_starts_with p ''/dev''" | "is_absolute p" "path_starts_with p ''/dev''"
    by blast
  then show ?thesis
  proof cases
    case 3
    have find: "find_mount (mount_points (boot_vfs d)) p = Some (0, ''/dev'')" "map_of (mounted_fs (boot_vfs d)) 0 = Some d"
      "strip_prefix p ''/dev'' = Inr ?q"
      using 3(2) by (simp_all add: find_mount_def boot_vfs_def strip_prefix_def numeral_eq_Suc)
    show ?thesis
    proof (cases "CHR ''/'' \<in> set ?q")
      case True
      then have "nth_opt (path_iter ?q) 1 = Some (path_iter ?q ! 1)" using path_iter_length [of ?q] by simp
      from devfs_open_name [OF this, of d] show ?thesis using 3 True find
        by (simp add: vfs_open_def boot_set_fs Let_def)
    next
      case False
      then have "nth_opt (path_iter ?q) 1 = None" using path_iter_length [of ?q] by (simp add: nth_opt_def)
      then show ?thesis using 3 False find by (simp add: vfs_open_def devfs_open_def)
    qed
  qed (simp_all add: vfs_open_def rust_assert_def find_mount_def boot_vfs_def)
qed

section \<open>Reading the log\<close>

text \<open>Reads of a file in turn, each into a fresh buffer of its length; what a read delivers is the part of its buffer it
  reports.\<close>

fun vfs_reads ::
  "('e, 'f) FileSystem \<Rightarrow> 'e \<Rightarrow> 'f VirtualFileSystem \<Rightarrow> VfsFile \<Rightarrow> nat list \<Rightarrow>
   (u8 list list \<times> VfsFile \<times> 'f VirtualFileSystem \<times> 'e) option" where
  "vfs_reads F e v fd [] = Some ([], fd, v, e)"
| "vfs_reads F e v fd (n # ns) = do {
     (r, buf, fd, v, e) \<leftarrow> vfs_read F e v fd (replicate n 0);
     (case r of
        Inl _ \<Rightarrow> None
      | Inr k \<Rightarrow> do { (outs, fd, v, e) \<leftarrow> vfs_reads F e v fd ns; Some (take k buf # outs, fd, v, e) })
   }"

lemma vfs_read_kmsg:
  fixes e :: Globals
  defines "log \<equiv> log_text (get_messages (g_kmsg e))"
  assumes "bt_sorted (mounted_fs v)" "map_of (mounted_fs v) (vf_fs_id fd) = Some d"
    "map_of (fds d) (file_fd (vf_file fd)) = Some ''kmsg''" "vf_offset fd + length buf < 2 ^ 64"
  shows "\<exists>v'. vfs_read DevFS_ops e v fd buf =
      Some (Inr (length (take (length buf) (drop (vf_offset fd) log))),
        take (length buf) (drop (vf_offset fd) log) @ drop (length (take (length buf) (drop (vf_offset fd) log))) buf,
        fd\<lparr>vf_offset := vf_offset fd + length (take (length buf) (drop (vf_offset fd) log))\<rparr>, v', e) \<and>
    bt_sorted (mounted_fs v') \<and> map_of (mounted_fs v') = map_of (mounted_fs v)"
proof -
  define out where "out = take (length buf) (drop (vf_offset fd) log)"
  have k: "kmsg_loop (get_messages (g_kmsg e)) buf 0 (vf_offset fd) = Some (out @ drop (length out) buf, length out)"
    using kmsg_loop_spec [of 0 buf out "vf_offset fd" "get_messages (g_kmsg e)"] by (simp add: out_def log_def)
  have "length out \<le> length buf" by (simp add: out_def)
  then have "vf_offset fd + length out < 2 ^ 64" using assms(5) by linarith
  then have "vfs_read DevFS_ops e v fd buf =
      Some (Inr (length out), out @ drop (length out) buf, fd\<lparr>vf_offset := vf_offset fd + length out\<rparr>, set_fs (vf_fs_id fd) d v, e)"
    using assms(3,4) k by (simp add: vfs_read_def devfs_read_def Let_def)
  moreover have "map_of (mounted_fs (set_fs (vf_fs_id fd) d v)) = map_of (mounted_fs v)"
    using assms(2,3) by (simp add: set_fs_def bt_insert_lookup fun_upd_idem)
  ultimately show ?thesis using assms(2) by (simp add: out_def [symmetric]) (simp add: set_fs_def bt_insert_sorted)
qed

text \<open>C20: Reading an open \<^verbatim>\<open>/dev/kmsg\<close> through the virtual file system, in pieces of any sizes, never panics and delivers
  the text of the log without a gap or a repetition: the pieces put together are the text from the offset of the file on,
  as far as the buffers reach, and the offset afterwards is where the next read goes on.\<close>

theorem kmsg_reads_stream:
  fixes e :: Globals
  assumes "bt_sorted (mounted_fs v)" "map_of (mounted_fs v) (vf_fs_id fd) = Some d"
    "map_of (fds d) (file_fd (vf_file fd)) = Some ''kmsg''" "vf_offset fd + sum_list ns < 2 ^ 64"
  shows "\<exists>outs v'. vfs_reads DevFS_ops e v fd ns = Some (outs, fd\<lparr>vf_offset := vf_offset fd + length (concat outs)\<rparr>, v', e) \<and>
    concat outs = take (sum_list ns) (drop (vf_offset fd) (log_text (get_messages (g_kmsg e)))) \<and>
    map_of (mounted_fs v') = map_of (mounted_fs v)"
  using assms
proof (induction ns arbitrary: v fd)
  case (Cons n ns)
  define log where "log = log_text (get_messages (g_kmsg e))"
  define out where "out = take n (drop (vf_offset fd) log)"
  let ?fd = "fd\<lparr>vf_offset := vf_offset fd + length out\<rparr>"
  have small: "vf_offset fd + length (replicate n (0 :: u8)) < 2 ^ 64" "length out \<le> n"
    using Cons.prems(4) by (simp_all add: out_def)
  obtain v1 where v1: "vfs_read DevFS_ops e v fd (replicate n 0) = Some (Inr (length out), out @ drop (length out) (replicate n 0), ?fd, v1, e)"
    "bt_sorted (mounted_fs v1)" "map_of (mounted_fs v1) = map_of (mounted_fs v)"
    using vfs_read_kmsg [OF Cons.prems(1-3) small(1), of e] by (auto simp: out_def log_def)
  obtain outs v' where IH: "vfs_reads DevFS_ops e v1 ?fd ns = Some (outs, ?fd\<lparr>vf_offset := vf_offset ?fd + length (concat outs)\<rparr>, v', e)"
    "concat outs = take (sum_list ns) (drop (vf_offset ?fd) log)" "map_of (mounted_fs v') = map_of (mounted_fs v)"
    using Cons.IH [of v1 ?fd] v1 Cons.prems small(2) by (auto simp: log_def)
  have "vfs_reads DevFS_ops e v fd (n # ns) = Some (out # outs, fd\<lparr>vf_offset := vf_offset fd + length (concat (out # outs))\<rparr>, v', e)"
    using v1(1) IH(1) by (simp add: add.assoc)
  moreover have "concat (out # outs) = take (sum_list (n # ns)) (drop (vf_offset fd) log)"
  proof (cases "n \<le> length (drop (vf_offset fd) log)")
    case True
    then have "length out = n" by (simp add: out_def)
    then show ?thesis using IH(2) by (simp add: out_def take_add add.commute)
  next
    case False
    then have "out = drop (vf_offset fd) log" "concat outs = []" using IH(2) by (simp_all add: out_def)
    then show ?thesis using False by simp
  qed
  ultimately show ?case using IH(3) unfolding log_def by blast
qed simp

definition demo_globals :: Globals where
  "demo_globals = \<lparr>g_kmsg = \<lparr>msgs = [\<lparr>level = Debug, time = 1000000, message = ''hello'', module = None\<rparr>], max_log = 4,
     output_handler = None\<rparr>, g_rng = \<lparr>state_array = [], state_index = 0\<rparr>, char_devs = []\<rparr>"

lemma show_nat_demo: "show_nat 0 = ''0''" "show_nat 1000 = ''1000''"
  "replicate 4 (CHR '' '') = ''    ''" "replicate 2 (CHR ''0'') = ''00''"
  by code_simp+

lemma demo_log: "log_text (get_messages (g_kmsg demo_globals)) = string_bytes ''[    0.001000] hello''"
proof -
  have "fmt \<lparr>level = Debug, time = 1000000, message = ''hello'', module = None\<rparr> = ''[    0.001000] hello''"
    using show_nat_demo by (simp add: fmt_def pad_def)
  then show ?thesis by (simp add: demo_globals_def log_text_def get_messages_def)
qed

theorem kmsg_reads_stream_witness:
  "\<exists>outs fd' v'. vfs_reads DevFS_ops demo_globals (boot_vfs \<lparr>fds = [(0, ''kmsg'')], devs = []\<rparr>)
       \<lparr>vf_file = \<lparr>file_fd = 0, file_type = CharDev\<rparr>, vf_offset = 0, vf_fs_id = 0\<rparr> [7, 40] = Some (outs, fd', v', demo_globals) \<and>
     concat outs = string_bytes ''[    0.001000] hello''"
proof -
  have "\<exists>outs v'. vfs_reads DevFS_ops demo_globals (boot_vfs \<lparr>fds = [(0, ''kmsg'')], devs = []\<rparr>)
       \<lparr>vf_file = \<lparr>file_fd = 0, file_type = CharDev\<rparr>, vf_offset = 0, vf_fs_id = 0\<rparr> [7, 40] =
         Some (outs, \<lparr>vf_file = \<lparr>file_fd = 0, file_type = CharDev\<rparr>, vf_offset = 0, vf_fs_id = 0\<rparr>\<lparr>vf_offset := length (concat outs)\<rparr>, v', demo_globals) \<and>
     concat outs = take 47 (string_bytes ''[    0.001000] hello'')"
    using kmsg_reads_stream [of "boot_vfs \<lparr>fds = [(0, ''kmsg'')], devs = []\<rparr>"
      "\<lparr>vf_file = \<lparr>file_fd = 0, file_type = CharDev\<rparr>, vf_offset = 0, vf_fs_id = 0\<rparr>" "\<lparr>fds = [(0, ''kmsg'')], devs = []\<rparr>" "[7, 40]"
      demo_globals, unfolded demo_log] by (auto simp: boot_vfs_def)
  moreover have "take 47 (string_bytes ''[    0.001000] hello'') = string_bytes ''[    0.001000] hello''"
    by (simp add: string_bytes_def)
  ultimately show ?thesis by metis
qed

section \<open>Descriptors\<close>

text \<open>\<^verbatim>\<open>open\<close> numbers a file by the number of open ones. Until a file is closed these are 0, 1, 2, and so on.\<close>

definition contiguous :: "DevFS \<Rightarrow> bool" where
  "contiguous d \<longleftrightarrow> map fst (fds d) = [0..<length (fds d)]"

lemma contiguous_sorted: "contiguous d \<Longrightarrow> bt_sorted (fds d)"
  by (simp add: contiguous_def bt_sorted_def)

lemma contiguous_keys: "contiguous d \<Longrightarrow> fst ` set (fds d) = {0..<length (fds d)}"
  unfolding contiguous_def by (metis set_map atLeast_upt atLeast0LessThan)

text \<open>As long as nothing has been closed, opening a device numbers it with a fresh descriptor and leaves every open one
  as it was. But once any file other than the last has been closed, the next device opened gets the descriptor of the
  last file, which is still open, and takes its place.\<close>

theorem devfs_descriptors:
  assumes "contiguous d" "CHR ''/'' \<notin> set dev" "dev \<in> set DEVFS_FILES \<or> map_of (devs d) dev \<noteq> None"
  shows "(\<exists>f d'. devfs_open d (CHR ''/'' # dev) = Some (Inr f, d') \<and> contiguous d' \<and> map_of (fds d) (file_fd f) = None \<and>
      map_of (fds d') = (map_of (fds d))(file_fd f \<mapsto> dev)) \<and>
    (\<forall>i k t. i < k \<and> length (fds d) = Suc k \<longrightarrow>
      (\<exists>d1 f d2. devfs_close d \<lparr>file_fd = i, file_type = t\<rparr> = Some (Inr (), d1) \<and>
        devfs_open d1 (CHR ''/'' # dev) = Some (Inr f, d2) \<and> file_fd f = k \<and> map_of (fds d1) k \<noteq> None \<and> map_of (fds d2) k = Some dev))"
proof (intro conjI allI impI)
  have name: "nth_opt (path_iter (CHR ''/'' # dev)) 1 = Some dev" using path_iter_abs [OF assms(2)] by simp
  note sorted = contiguous_sorted [OF assms(1)] and keys = contiguous_keys [OF assms(1)]
  let ?n = "length (fds d)"
  have app: "bt_insert ?n dev (fds d) = fds d @ [(?n, dev)]" using keys by (intro bt_insert_last) auto
  have "contiguous (d\<lparr>fds := bt_insert ?n dev (fds d)\<rparr>)" using assms(1) by (simp add: contiguous_def app)
  moreover have "map_of (fds d) ?n = None" using keys by (simp add: map_of_eq_None_iff)
  ultimately show "\<exists>f d'. devfs_open d (CHR ''/'' # dev) = Some (Inr f, d') \<and> contiguous d' \<and> map_of (fds d) (file_fd f) = None \<and>
      map_of (fds d') = (map_of (fds d))(file_fd f \<mapsto> dev)"
    using devfs_open_name [OF name, of d] assms(3) bt_insert_lookup [OF sorted] by simp
  fix i k t assume ik: "i < k \<and> ?n = Suc k"
  define d1 where "d1 = d\<lparr>fds := bt_remove i (fds d)\<rparr>"
  have d1: "bt_sorted (fds d1)" "fst ` set (fds d1) = {0..<Suc k} - {i}"
    using sorted keys ik by (simp_all add: d1_def bt_remove_sorted bt_remove_keys)
  have "length (fds d1) = card (fst ` set (fds d1))"
    using bt_sorted_distinct [OF d1(1)] distinct_card [of "map fst (fds d1)"] by simp
  then have len: "length (fds d1) = k" using ik by (simp add: d1(2))
  have "map_of (fds d1) k \<noteq> None" using d1(2) ik by (simp add: map_of_eq_None_iff)
  then show "\<exists>d1 f d2. devfs_close d \<lparr>file_fd = i, file_type = t\<rparr> = Some (Inr (), d1) \<and>
        devfs_open d1 (CHR ''/'' # dev) = Some (Inr f, d2) \<and> file_fd f = k \<and> map_of (fds d1) k \<noteq> None \<and> map_of (fds d2) k = Some dev"
    using devfs_open_name [OF name, of d1] assms(3) len bt_insert_lookup [OF d1(1)]
    by (simp add: devfs_close_def d1_def [symmetric]) (simp add: d1_def)
qed

theorem devfs_descriptors_witness:
  "\<exists>d1 f d2. devfs_close \<lparr>fds = [(0, ''zero''), (1, ''kmsg'')], devs = []\<rparr> \<lparr>file_fd = 0, file_type = CharDev\<rparr> = Some (Inr (), d1) \<and>
     devfs_open d1 ''/null'' = Some (Inr f, d2) \<and> file_fd f = 1 \<and> map_of (fds d2) 1 = Some ''null''"
  using devfs_descriptors [of "\<lparr>fds = [(0, ''zero''), (1, ''kmsg'')], devs = []\<rparr>" "''null''"]
  by (force simp: contiguous_def DEVFS_FILES_def upt_rec)

end
