(* ===== verification/Machine.thy ===== *)
theory Machine
  imports Kernel_Paging
begin

text \<open>
  The machine the tasks run on: the parts of \<^verbatim>\<open>src/src/page.rs\<close>, \<^verbatim>\<open>src/src/page/mapping.rs\<close>, \<^verbatim>\<open>src/src/time.rs\<close> and of the
  architectures that the scheduler and the system calls use.

  \<open>Machine\<close> puts the state outside of the scheduler together: the bytes of memory under their kernel addresses, the page
  tables, the buddy allocator, the static \<^verbatim>\<open>KERNEL_PT\<close> and the timer register. A page is used for tables or for data, never
  for both at once, because both come from the allocator; so the two are kept apart. The timer register is an input:
  \<open>timer_at n\<close> is what the \<open>n\<close>-th reading of it gives. The entry format \<open>M\<close> is a parameter; both architectures instantiate it.
\<close>

record Machine =
  ram :: "nat \<Rightarrow> u8"
  pts :: pt_mem
  buddy :: BuddyAllocator
  kernel_pt :: nat
  timer_at :: "nat \<Rightarrow> nat"
  reads :: nat
  next_arc :: nat

section \<open>The global allocator\<close>

definition kalloc_pages :: "Machine \<Rightarrow> nat \<Rightarrow> (nat \<times> Machine) option" where
  "kalloc_pages m pages_count = do {
     (r, b) \<leftarrow> buddy_alloc_pages (buddy m) pages_count;
     page \<leftarrow> (case r of Inl _ \<Rightarrow> None | Inr page \<Rightarrow> Some page);
     Some (page, m\<lparr>buddy := b\<rparr>)
   }"

definition kfree_pages :: "Machine \<Rightarrow> nat \<Rightarrow> nat \<Rightarrow> Machine option" where
  "kfree_pages m pages_start pages_count = do {
     b \<leftarrow> buddy_free_pages (buddy m) pages_start pages_count;
     Some (m\<lparr>buddy := b\<rparr>)
   }"

section \<open>Page tables over it\<close>

definition PageMapper_new :: "Machine \<Rightarrow> (table \<times> Machine) option" where
  "PageMapper_new m = do {
     (t, p, b) \<leftarrow> Table_new buddy_alloc_pages (pts m) (buddy m);
     Some (t, m\<lparr>pts := p, buddy := b\<rparr>)
   }"

definition PageMapper_from_root :: "nat \<Rightarrow> table" where
  "PageMapper_from_root n = Table_from_page n"

definition page_map :: "Mapper \<Rightarrow> Machine \<Rightarrow> table \<Rightarrow> nat \<Rightarrow> nat \<Rightarrow> nat \<Rightarrow> PageACL list \<Rightarrow> Machine option" where
  "page_map M m root vpn ppn n mode = do {
     (p, b) \<leftarrow> map_with_allocator M buddy_alloc_pages root vpn ppn n mode (pts m) (buddy m);
     Some (m\<lparr>pts := p, buddy := b\<rparr>)
   }"

definition RO :: "PageACL list" where "RO = [Read]"
definition RW :: "PageACL list" where "RW = [Read, Write]"
definition RX :: "PageACL list" where "RX = [Read, Execute]"
definition URO :: "PageACL list" where "URO = [User, Read]"
definition URW :: "PageACL list" where "URW = [User, Read, Write]"
definition URX :: "PageACL list" where "URX = [User, Read, Execute]"

definition map_rodata :: "Mapper \<Rightarrow> Machine \<Rightarrow> table \<Rightarrow> nat \<Rightarrow> nat \<Rightarrow> nat \<Rightarrow> Machine option" where
  "map_rodata M m root vpn ppn n = page_map M m root vpn ppn n RO"

definition map_data :: "Mapper \<Rightarrow> Machine \<Rightarrow> table \<Rightarrow> nat \<Rightarrow> nat \<Rightarrow> nat \<Rightarrow> Machine option" where
  "map_data M m root vpn ppn n = page_map M m root vpn ppn n RW"

definition map_text :: "Mapper \<Rightarrow> Machine \<Rightarrow> table \<Rightarrow> nat \<Rightarrow> nat \<Rightarrow> nat \<Rightarrow> Machine option" where
  "map_text M m root vpn ppn n = page_map M m root vpn ppn n RX"

definition map_text_u :: "Mapper \<Rightarrow> Machine \<Rightarrow> table \<Rightarrow> nat \<Rightarrow> nat \<Rightarrow> nat \<Rightarrow> Machine option" where
  "map_text_u M m root vpn ppn n = page_map M m root vpn ppn n URX"

definition map_rodata_u :: "Mapper \<Rightarrow> Machine \<Rightarrow> table \<Rightarrow> nat \<Rightarrow> nat \<Rightarrow> nat \<Rightarrow> Machine option" where
  "map_rodata_u M m root vpn ppn n = page_map M m root vpn ppn n URO"

definition map_data_u :: "Mapper \<Rightarrow> Machine \<Rightarrow> table \<Rightarrow> nat \<Rightarrow> nat \<Rightarrow> nat \<Rightarrow> Machine option" where
  "map_data_u M m root vpn ppn n = page_map M m root vpn ppn n URW"

definition page_destroy :: "Mapper \<Rightarrow> Machine \<Rightarrow> table \<Rightarrow> Machine option" where
  "page_destroy M m root = do {
     b \<leftarrow> destroy_with_allocator M buddy_free_pages root (pts m) (buddy m);
     Some (m\<lparr>buddy := b\<rparr>)
   }"

section \<open>The kernel's own mappings\<close>

text \<open>The addresses of the sections, from the linker script.\<close>

record Linker =
  RODATA_START :: nat
  RODATA_END :: nat
  DATA_START :: nat
  DATA_END :: nat
  BSS_START :: nat
  BSS_END :: nat
  KERNEL_START :: nat
  KERNEL_END :: nat
  HEAP_START :: nat

definition map_range_with_alloc ::
  "Mapper \<Rightarrow> 's alloc_op \<Rightarrow> nat \<Rightarrow> nat \<Rightarrow> table \<Rightarrow> PageACL list \<Rightarrow> pt_mem \<times> 's \<Rightarrow> (pt_mem \<times> 's) option" where
  "map_range_with_alloc M alloc start stop root mode ps = do {
     pa \<leftarrow> phys_from_virt ADDR_OFFSET start;
     n \<leftarrow> usize_sub (drop_bit PAGE_BITS stop) (drop_bit PAGE_BITS start);
     map_with_allocator M alloc root (drop_bit PAGE_BITS start) (drop_bit PAGE_BITS pa) n mode (fst ps) (snd ps)
   }"

definition map_kernel_region_with_allocator ::
  "Linker \<Rightarrow> Mapper \<Rightarrow> 's alloc_op \<Rightarrow> table \<Rightarrow> pt_mem \<times> 's \<Rightarrow> (pt_mem \<times> 's) option" where
  "map_kernel_region_with_allocator lds M alloc root ps = do {
     ps \<leftarrow> map_range_with_alloc M alloc (RODATA_START lds) (RODATA_END lds) root RO ps;
     ps \<leftarrow> map_range_with_alloc M alloc (DATA_START lds) (DATA_END lds) root RW ps;
     ps \<leftarrow> map_range_with_alloc M alloc (BSS_START lds) (BSS_END lds) root RW ps;
     map_range_with_alloc M alloc (KERNEL_START lds) (KERNEL_END lds) root RX ps
   }"

definition map_kernel_region :: "Linker \<Rightarrow> Mapper \<Rightarrow> Machine \<Rightarrow> table \<Rightarrow> Machine option" where
  "map_kernel_region lds M m root = do {
     (p, b) \<leftarrow> map_kernel_region_with_allocator lds M buddy_alloc_pages root (pts m, buddy m);
     Some (m\<lparr>pts := p, buddy := b\<rparr>)
   }"

definition MEM_SIZE :: nat where "MEM_SIZE = 128 * 1024 * 1024"

text \<open>\<^verbatim>\<open>kernel_pt_init\<close>, over the static allocator: the root of the kernel's page table, as a physical page.\<close>

definition kernel_pt_init ::
  "Linker \<Rightarrow> Mapper \<Rightarrow> pt_mem \<Rightarrow> StaticPageAllocator \<Rightarrow> (nat \<times> pt_mem \<times> StaticPageAllocator) option" where
  "kernel_pt_init lds M p s = do {
     (root, p, s) \<leftarrow> Table_new static_alloc_pages p s;
     (p, s) \<leftarrow> map_kernel_region_with_allocator lds M static_alloc_pages root (p, s);
     pa \<leftarrow> phys_from_virt ADDR_OFFSET (HEAP_START lds);
     (p, s) \<leftarrow> map_with_allocator M static_alloc_pages root (drop_bit PAGE_BITS (HEAP_START lds)) (drop_bit PAGE_BITS pa)
       (drop_bit PAGE_BITS MEM_SIZE) [Read, Write] p s;
     k \<leftarrow> Table_page_number root;
     Some (k, p, s)
   }"

section \<open>The clock\<close>

definition riscv_get_sys_time :: "Machine \<Rightarrow> (nat \<times> Machine) option" where
  "riscv_get_sys_time m = do {
     t \<leftarrow> usize_mul (timer_at m (reads m)) 100;
     Some (t, m\<lparr>reads := reads m + 1\<rparr>)
   }"

definition arm64_get_sys_time :: "nat \<Rightarrow> Machine \<Rightarrow> (nat \<times> Machine) option" where
  "arm64_get_sys_time freq m = do {
     t \<leftarrow> usize_mul (timer_at m (reads m)) 1000000000;
     rust_assert (freq \<noteq> 0);
     Some (t div freq, m\<lparr>reads := reads m + 1\<rparr>)
   }"

type_synonym clock = "Machine \<Rightarrow> (nat \<times> Machine) option"

end
