(* ===== verification/Elf.thy ===== *)
theory Elf
  imports Byte_Order
begin

text \<open>
  The ELF reader (\<^verbatim>\<open>src/lib/elf/src/lib.rs\<close> and \<^verbatim>\<open>src/lib/elf/src/program.rs\<close>).

  The reader indexes and slices the file without looking at its length first, so a short file is a panic (\<open>None\<close>); a file
  it does not support is an \<open>ElfError\<close>. \<open>elf_image\<close> writes an ELF file the way the format is laid out, in both classes and
  byte orders; the lemmas read such files back.
\<close>

section \<open>The reader\<close>

datatype ElfError = InvalidHeader | InvalidAbi nat | InvalidType nat | InvalidArchitecture nat

datatype ElfAbi = SystemV | NetBSD | Linux | Solaris | FreeBSD | OpenBSD

datatype ElfType = ET_None | ET_Rel | ET_Exec | ET_Dyn

datatype ElfMachine = NoSpec | X86 | Arm | X86_64 | Arm64 | Riscv

datatype PType = PT_Null | PT_Load | PT_Dynamic | PT_Interp | PT_Note

datatype PFlags = P_Exec | P_Write | P_Read

record Program =
  p_type :: PType
  p_flags :: "PFlags list"
  p_offset :: nat
  v_addr :: nat
  p_addr :: nat
  p_filesz :: nat
  p_memsz :: nat

record Elf =
  e_abi :: ElfAbi
  e_machine :: ElfMachine
  e_type :: ElfType
  e_entry :: nat
  p_headers :: "Program list"

definition ELF_HEADER :: "u8 list" where "ELF_HEADER = [0x7f, 0x45, 0x4c, 0x46]"

definition ELF_CLASS_32 :: u8 where "ELF_CLASS_32 = 1"

definition ELF_CLASS_64 :: u8 where "ELF_CLASS_64 = 2"

definition PH_SIZE_32 :: nat where "PH_SIZE_32 = 32"

definition PH_SIZE_64 :: nat where "PH_SIZE_64 = 56"

definition FLAGS_X :: nat where "FLAGS_X = 0x01"

definition FLAGS_W :: nat where "FLAGS_W = 0x02"

definition FLAGS_R :: nat where "FLAGS_R = 0x04"

definition elf_int :: "nat \<Rightarrow> u8 list \<Rightarrow> nat \<Rightarrow> u8 \<Rightarrow> nat option" where
  \<comment> \<open>the macro \<open>int!\<close>; the first argument is the size of the type in bytes\<close>
  "elf_int k bytes off endian = do {
     bs \<leftarrow> slice_opt bytes off (off + k);
     Some (if endian = 1 then le_nat bs else be_nat bs)
   }"

definition class_int :: "u8 \<Rightarrow> u8 list \<Rightarrow> u8 \<Rightarrow> nat \<Rightarrow> nat \<Rightarrow> nat option" where
  \<comment> \<open>\<open>if class == ELF_CLASS_32 { int!(u32, ..) as usize } else { int!(u64, ..) as usize }\<close>\<close>
  "class_int cls bytes endian off32 off64 =
     (if cls = ELF_CLASS_32 then elf_int 4 bytes off32 endian else elf_int 8 bytes off64 endian)"

definition ptype_of :: "nat \<Rightarrow> PType" where
  "ptype_of n = (if n = 0 then PT_Null else if n = 1 then PT_Load else if n = 2 then PT_Dynamic
     else if n = 3 then PT_Interp else if n = 4 then PT_Note else PT_Null)"

definition pflags_of :: "nat \<Rightarrow> PFlags list" where
  "pflags_of flags_bits = (if 0 < flags_bits AND FLAGS_X then [P_Exec] else []) @
     (if 0 < flags_bits AND FLAGS_W then [P_Write] else []) @ (if 0 < flags_bits AND FLAGS_R then [P_Read] else [])"

definition program_parse :: "u8 list \<Rightarrow> u8 \<Rightarrow> u8 \<Rightarrow> Program option" where
  "program_parse bytes cls endian = do {
     ty \<leftarrow> elf_int 4 bytes 0 endian;
     flags_bits \<leftarrow> (if cls = ELF_CLASS_64 then elf_int 8 bytes 4 endian else elf_int 8 bytes 24 endian);
     offs \<leftarrow> class_int cls bytes endian 4 8;
     va \<leftarrow> class_int cls bytes endian 8 16;
     pa \<leftarrow> class_int cls bytes endian 12 24;
     filesz \<leftarrow> class_int cls bytes endian 16 32;
     memsz \<leftarrow> class_int cls bytes endian 20 40;
     Some \<lparr>p_type = ptype_of ty, p_flags = pflags_of flags_bits, p_offset = offs, v_addr = va, p_addr = pa,
       p_filesz = filesz, p_memsz = memsz\<rparr>
   }"

definition abi_of :: "u8 \<Rightarrow> ElfError + ElfAbi" where
  "abi_of b = (if b = 0x00 then Inr SystemV else if b = 0x02 then Inr NetBSD else if b = 0x03 then Inr Linux
     else if b = 0x06 then Inr Solaris else if b = 0x09 then Inr FreeBSD else if b = 0x0c then Inr OpenBSD
     else Inl (InvalidAbi (unat b)))"

definition etype_of :: "nat \<Rightarrow> ElfError + ElfType" where
  "etype_of n = (if n = 0x00 then Inr ET_None else if n = 0x01 then Inr ET_Rel else if n = 0x02 then Inr ET_Exec
     else if n = 0x03 then Inr ET_Dyn else Inl (InvalidType n))"

definition machine_of :: "nat \<Rightarrow> ElfError + ElfMachine" where
  "machine_of n = (if n = 0x00 then Inr NoSpec else if n = 0x03 then Inr X86 else if n = 0x28 then Inr Arm
     else if n = 0x3e then Inr X86_64 else if n = 0xb7 then Inr Arm64 else if n = 0xf3 then Inr Riscv
     else Inl (InvalidArchitecture n))"

fun parse_headers :: "u8 list \<Rightarrow> u8 \<Rightarrow> u8 \<Rightarrow> nat \<Rightarrow> nat list \<Rightarrow> Program list option" where
  "parse_headers bytes cls endian e_phoff [] = Some []"
| "parse_headers bytes cls endian e_phoff (sec # secs) = do {
     let ph_size = (if cls = ELF_CLASS_32 then PH_SIZE_32 else PH_SIZE_64);
     sh_start \<leftarrow> usize_add e_phoff (sec * ph_size);
     sh_end \<leftarrow> usize_add e_phoff ((sec + 1) * ph_size);
     bs \<leftarrow> slice_opt bytes sh_start sh_end;
     section \<leftarrow> program_parse bs cls endian;
     sections \<leftarrow> parse_headers bytes cls endian e_phoff secs;
     Some (section # sections)
   }"

definition elf_parse :: "u8 list \<Rightarrow> (ElfError + Elf) option" where
  "elf_parse bytes =
     (if take (length ELF_HEADER) bytes \<noteq> ELF_HEADER then Some (Inl InvalidHeader)
      else do {
        cls \<leftarrow> nth_opt bytes 4;
        endian \<leftarrow> nth_opt bytes 5;
        b7 \<leftarrow> nth_opt bytes 7;
        (case abi_of b7 of Inl err \<Rightarrow> Some (Inl err) | Inr abi \<Rightarrow> do {
           t \<leftarrow> elf_int 2 bytes 16 endian;
           (case etype_of t of Inl err \<Rightarrow> Some (Inl err) | Inr etype \<Rightarrow> do {
              mach \<leftarrow> elf_int 2 bytes 18 endian;
              (case machine_of mach of Inl err \<Rightarrow> Some (Inl err) | Inr machine \<Rightarrow> do {
                 entry \<leftarrow> class_int cls bytes endian 24 24;
                 e_phoff \<leftarrow> class_int cls bytes endian 28 32;
                 e_phnum \<leftarrow> (if cls = ELF_CLASS_32 then elf_int 2 bytes 44 endian else elf_int 2 bytes 56 endian);
                 sections \<leftarrow> parse_headers bytes cls endian e_phoff [0..<e_phnum];
                 Some (Inr \<lparr>e_abi = abi, e_machine = machine, e_type = etype, e_entry = entry, p_headers = sections\<rparr>)
               })
            })
         })
      })"

section \<open>Written integers\<close>

fun le_enc :: "nat \<Rightarrow> nat \<Rightarrow> u8 list" where
  "le_enc 0 n = []"
| "le_enc (Suc k) n = of_nat (n mod 256) # le_enc k (n div 256)"

definition int_enc :: "u8 \<Rightarrow> nat \<Rightarrow> nat \<Rightarrow> u8 list" where
  "int_enc endian k n = (if endian = 1 then le_enc k n else rev (le_enc k n))"

lemma length_le_enc [simp]: "length (le_enc k n) = k"
  by (induction k arbitrary: n) simp_all

lemma length_int_enc [simp]: "length (int_enc endian k n) = k"
  by (simp add: int_enc_def)

lemma le_nat_le_enc: "le_nat (le_enc k n) = n mod 256 ^ k"
proof (induction k arbitrary: n)
  case (Suc k)
  have "unat (of_nat (n mod 256) :: u8) = n mod 256" by (simp add: unat_of_nat)
  then show ?case using Suc by (simp add: mod_mult2_eq)
qed simp

definition int_dec :: "u8 \<Rightarrow> u8 list \<Rightarrow> nat" where
  "int_dec endian bs = (if endian = 1 then le_nat bs else be_nat bs)"

lemma int_dec_enc: "n < 256 ^ k \<Longrightarrow> int_dec endian (int_enc endian k n) = n"
  using le_nat_le_enc [of k n] by (simp add: int_dec_def int_enc_def le_nat_def)

lemma elf_int_dec: "elf_int k bytes off endian = map_option (int_dec endian) (slice_opt bytes off (off + k))"
  by (cases "slice_opt bytes off (off + k)") (simp_all add: elf_int_def int_dec_def)

text \<open>A chunk of a concatenation, by its position.\<close>

lemma slice_chunk:
  assumes "i < length cs"
  shows "slice_opt (concat cs @ rest) (sum_list (map length (take i cs))) (sum_list (map length (take i cs)) + length (cs ! i)) = Some (cs ! i)"
proof -
  have "concat cs @ rest = concat (take i cs) @ cs ! i @ concat (drop (Suc i) cs) @ rest"
    using id_take_nth_drop [OF assms] by (metis append.assoc concat.simps(2) concat_append)
  moreover have "length (concat (take i cs)) = sum_list (map length (take i cs))" by (simp add: length_concat)
  ultimately show ?thesis by (simp add: slice_opt_def)
qed

section \<open>The flags\<close>

lemma and_power_bit: "0 < (n AND 2 ^ k :: nat) \<longleftrightarrow> odd (n div 2 ^ k)"
  using and_exp_eq_0_iff_not_bit [of n k] by (simp add: bit_iff_odd flip: neq0_conv)

lemma pflags_of_odd: "pflags_of n = (if odd n then [P_Exec] else []) @ (if odd (n div 2) then [P_Write] else []) @
    (if odd (n div 4) then [P_Read] else [])"
  using and_power_bit [of n 0] and_power_bit [of n 1] and_power_bit [of n 2]
  by (simp add: pflags_of_def FLAGS_X_def FLAGS_W_def FLAGS_R_def)

lemma pflags_of_low: "pflags_of (f + 2 ^ 32 * x) = pflags_of f"
proof -
  have "f + 2 ^ 32 * x = f + (2 ^ 31 * x) * 2" "f + 2 ^ 32 * x = f + (2 ^ 30 * x) * 4" by simp_all
  then have "(f + 2 ^ 32 * x) div 2 = 2 ^ 31 * x + f div 2" "(f + 2 ^ 32 * x) div 4 = 2 ^ 30 * x + f div 4"
    by (metis div_mult_self1 zero_neq_numeral)+
  moreover have "odd (f + 2 ^ 32 * x) = odd f" "odd (2 ^ 31 * x + f div 2) = odd (f div 2)" "odd (2 ^ 30 * x + f div 4) = odd (f div 4)"
    by simp_all
  ultimately show ?thesis by (simp only: pflags_of_odd)
qed

section \<open>Written files\<close>

definition ptype_num :: "PType \<Rightarrow> nat" where
  "ptype_num t = (case t of PT_Null \<Rightarrow> 0 | PT_Load \<Rightarrow> 1 | PT_Dynamic \<Rightarrow> 2 | PT_Interp \<Rightarrow> 3 | PT_Note \<Rightarrow> 4)"

definition pflags_num :: "PFlags list \<Rightarrow> nat" where
  "pflags_num fs = (if P_Exec \<in> set fs then 1 else 0) + (if P_Write \<in> set fs then 2 else 0) + (if P_Read \<in> set fs then 4 else 0)"

definition abi_num :: "ElfAbi \<Rightarrow> u8" where
  "abi_num a = (case a of SystemV \<Rightarrow> 0x00 | NetBSD \<Rightarrow> 0x02 | Linux \<Rightarrow> 0x03 | Solaris \<Rightarrow> 0x06 | FreeBSD \<Rightarrow> 0x09 | OpenBSD \<Rightarrow> 0x0c)"

definition etype_num :: "ElfType \<Rightarrow> nat" where
  "etype_num t = (case t of ET_None \<Rightarrow> 0 | ET_Rel \<Rightarrow> 1 | ET_Exec \<Rightarrow> 2 | ET_Dyn \<Rightarrow> 3)"

definition machine_num :: "ElfMachine \<Rightarrow> nat" where
  "machine_num m = (case m of NoSpec \<Rightarrow> 0x00 | X86 \<Rightarrow> 0x03 | Arm \<Rightarrow> 0x28 | X86_64 \<Rightarrow> 0x3e | Arm64 \<Rightarrow> 0xb7 | Riscv \<Rightarrow> 0xf3)"

definition ph_chunks :: "u8 \<Rightarrow> u8 \<Rightarrow> nat \<Rightarrow> Program \<Rightarrow> u8 list list" where
  "ph_chunks cls en align p = (let I = int_enc en in
     if cls = ELF_CLASS_32
     then [I 4 (ptype_num (p_type p)), I 4 (p_offset p), I 4 (v_addr p), I 4 (p_addr p), I 4 (p_filesz p), I 4 (p_memsz p),
       I 4 (pflags_num (p_flags p)), I 4 align]
     else [I 4 (ptype_num (p_type p)), I 4 (pflags_num (p_flags p)), I 8 (p_offset p), I 8 (v_addr p), I 8 (p_addr p),
       I 8 (p_filesz p), I 8 (p_memsz p), I 8 align])"

definition elf_chunks :: "u8 \<Rightarrow> u8 \<Rightarrow> nat \<Rightarrow> Elf \<Rightarrow> u8 list list" where
  "elf_chunks cls en phoff e = (let I = int_enc en; w = (if cls = ELF_CLASS_32 then 4 else 8) in
     [ELF_HEADER @ [cls, en, 1, abi_num (e_abi e)] @ replicate 8 0,
      I 2 (etype_num (e_type e)), I 2 (machine_num (e_machine e)), I 4 1, I w (e_entry e), I w phoff, I w 0, I 4 0, I 2 0, I 2 0,
      I 2 (length (p_headers e)), I 6 0])"

text \<open>An ELF file with a gap between the header and the program headers and anything behind them.\<close>

definition elf_image :: "u8 \<Rightarrow> u8 \<Rightarrow> nat \<Rightarrow> Elf \<Rightarrow> u8 list \<Rightarrow> u8 list \<Rightarrow> u8 list" where
  "elf_image cls en align e gap rest =
     concat (elf_chunks cls en ((if cls = ELF_CLASS_32 then 52 else 64) + length gap) e) @ gap @
     concat (map (\<lambda>p. concat (ph_chunks cls en align p)) (p_headers e)) @ rest"

definition program_fits :: "u8 \<Rightarrow> Program \<Rightarrow> bool" where
  "program_fits cls p \<longleftrightarrow> (let m = 256 ^ (if cls = ELF_CLASS_32 then 4 else 8) in
     p_offset p < m \<and> v_addr p < m \<and> p_addr p < m \<and> p_filesz p < m \<and> p_memsz p < m)"

definition program_ok :: "u8 \<Rightarrow> Program \<Rightarrow> bool" where
  "program_ok cls p \<longleftrightarrow> program_fits cls p \<and> pflags_of (pflags_num (p_flags p)) = p_flags p"

definition elf_ok :: "u8 \<Rightarrow> Elf \<Rightarrow> u8 list \<Rightarrow> bool" where
  "elf_ok cls e gap \<longleftrightarrow> e_entry e < 256 ^ (if cls = ELF_CLASS_32 then 4 else 8) \<and> length (p_headers e) < 2 ^ 16 \<and>
     length gap + 2 ^ 23 < 2 ^ 32 \<and> (\<forall>p \<in> set (p_headers e). program_ok cls p)"

text \<open>The word the reader takes the flags from: in a big-endian file its low half is not the flags.\<close>

definition flags_read :: "u8 \<Rightarrow> u8 \<Rightarrow> nat \<Rightarrow> Program \<Rightarrow> nat" where
  "flags_read cls en align p =
     (if en = 1 then pflags_num (p_flags p) else if cls = ELF_CLASS_32 then align else p_offset p div 2 ^ 32)"

lemma ptype_of_num [simp]: "ptype_of (ptype_num t) = t" "ptype_num t < 256 ^ 4"
  by (cases t; simp add: ptype_of_def ptype_num_def)+

lemma abi_of_num [simp]: "abi_of (abi_num a) = Inr a"
  by (cases a) (simp_all add: abi_of_def abi_num_def)

lemma etype_of_num [simp]: "etype_of (etype_num t) = Inr t" "etype_num t < 256 ^ 2"
  by (cases t; simp add: etype_of_def etype_num_def)+

lemma machine_of_num [simp]: "machine_of (machine_num m) = Inr m" "machine_num m < 256 ^ 2"
  by (cases m; simp add: machine_of_def machine_num_def)+

lemma elf_int_chunk:
  assumes "bytes = concat cs @ rest" "i < length cs" "off = sum_list (map length (take i cs))" "k = length (cs ! i)"
  shows "elf_int k bytes off endian = Some (int_dec endian (cs ! i))"
  using slice_chunk [OF assms(2), of rest] assms(1,3,4) by (simp add: elf_int_dec)

lemma le_nat_append: "le_nat (a @ b) = le_nat a + 256 ^ length a * le_nat b"
  by (induction a) (simp_all add: algebra_simps)

lemma be_nat_high:
  assumes "length bs = 8"
  shows "be_nat (take 4 bs) = be_nat bs div 2 ^ 32"
proof -
  have "be_nat bs = be_nat (take 4 bs) * 256 ^ 4 + be_nat (drop 4 bs)"
    using be_nat_append [of "take 4 bs" "drop 4 bs"] assms by simp
  moreover have "be_nat (drop 4 bs) < 256 ^ 4" using be_nat_less [of "drop 4 bs"] assms by simp
  ultimately show ?thesis by simp
qed

text \<open>The eight bytes the reader takes the flags from.\<close>

lemma flags_word:
  assumes "f < 256 ^ 4" "length next = 4"
  shows "pflags_of (int_dec en (int_enc en 4 f @ next)) = pflags_of (if en = 1 then f else be_nat next)"
proof (cases "en = 1")
  case True
  then have "int_dec en (int_enc en 4 f @ next) = f + 2 ^ 32 * le_nat next"
    using assms le_nat_le_enc [of 4 f] by (simp add: int_dec_def int_enc_def le_nat_append)
  then show ?thesis using True pflags_of_low by simp
next
  case False
  then have "int_dec en (int_enc en 4 f @ next) = be_nat next + 2 ^ 32 * f"
    using assms int_dec_enc [of f 4 en] by (simp add: int_dec_def be_nat_append)
  then show ?thesis using False pflags_of_low by simp
qed

lemma pflags_num_less: "pflags_num fs < 256 ^ 4"
  by (simp add: pflags_num_def)

lemma take_drop_append: "take k xs @ drop k xs @ ys = xs @ ys"
  by (metis append_assoc append_take_drop_id)

lemma elf_field:
  assumes "i < length cs" "off = sum_list (map length (take i cs))" "cs ! i = int_enc en k n" "n < 256 ^ k"
  shows "elf_int k (concat cs @ rest) off en = Some n"
  using elf_int_chunk [OF refl assms(1,2), of k rest en] assms(3) int_dec_enc [OF assms(4), of en] by simp

lemmas elf_field0 = elf_field [where rest = "[]", unfolded append_Nil2]

lemma program_flags_64:
  assumes "cls \<noteq> ELF_CLASS_32" "p_offset p < 256 ^ 8"
  shows "\<exists>w. elf_int 8 (concat (ph_chunks cls en align p)) 4 en = Some w \<and> pflags_of w = pflags_of (flags_read cls en align p)"
proof -
  let ?I = "int_enc en" and ?o = "int_enc en 8 (p_offset p)"
  let ?cs = "[?I 4 (ptype_num (p_type p)), ?I 4 (pflags_num (p_flags p)) @ take 4 ?o, drop 4 ?o, ?I 8 (v_addr p), ?I 8 (p_addr p),
    ?I 8 (p_filesz p), ?I 8 (p_memsz p), ?I 8 align]"
  have c: "concat (ph_chunks cls en align p) = concat ?cs @ []" using assms(1) by (simp add: ph_chunks_def Let_def take_drop_append)
  have "elf_int 8 (concat (ph_chunks cls en align p)) 4 en = Some (int_dec en (?cs ! 1))"
    by (rule elf_int_chunk [OF c]) simp_all
  then have e: "elf_int 8 (concat (ph_chunks cls en align p)) 4 en = Some (int_dec en (?I 4 (pflags_num (p_flags p)) @ take 4 ?o))"
    by simp
  have "be_nat (take 4 ?o) = p_offset p div 2 ^ 32" if "en \<noteq> 1"
    using be_nat_high [of ?o] int_dec_enc [OF assms(2), of en] that by (simp add: int_dec_def)
  with e flags_word [OF pflags_num_less, of "take 4 ?o" en "p_flags p"] assms(1) show ?thesis by (simp add: flags_read_def)
qed

lemma program_flags_32:
  assumes "cls = ELF_CLASS_32" "align < 256 ^ 4"
  shows "\<exists>w. elf_int 8 (concat (ph_chunks cls en align p)) 24 en = Some w \<and> pflags_of w = pflags_of (flags_read cls en align p)"
proof -
  let ?I = "int_enc en"
  let ?cs = "[?I 4 (ptype_num (p_type p)), ?I 4 (p_offset p), ?I 4 (v_addr p), ?I 4 (p_addr p), ?I 4 (p_filesz p), ?I 4 (p_memsz p),
    ?I 4 (pflags_num (p_flags p)) @ ?I 4 align]"
  have c: "concat (ph_chunks cls en align p) = concat ?cs @ []" using assms(1) by (simp add: ph_chunks_def Let_def take_drop_append)
  have "elf_int 8 (concat (ph_chunks cls en align p)) 24 en = Some (int_dec en (?cs ! 6))"
    by (rule elf_int_chunk [OF c]) simp_all
  then have e: "elf_int 8 (concat (ph_chunks cls en align p)) 24 en = Some (int_dec en (?I 4 (pflags_num (p_flags p)) @ ?I 4 align))"
    by simp
  have "be_nat (?I 4 align) = align" if "en \<noteq> 1"
    using int_dec_enc [OF assms(2), of en] that by (simp add: int_dec_def)
  with e flags_word [OF pflags_num_less, of "?I 4 align" en "p_flags p"] assms(1) show ?thesis by (simp add: flags_read_def)
qed

lemma program_parse_chunks:
  assumes "cls = ELF_CLASS_32 \<or> cls = ELF_CLASS_64" "program_fits cls p" "align < 256 ^ 4"
  shows "program_parse (concat (ph_chunks cls en align p)) cls en = Some (p\<lparr>p_flags := pflags_of (flags_read cls en align p)\<rparr>)"
proof (cases "cls = ELF_CLASS_32")
  case True
  define cs where "cs = ph_chunks cls en align p"
  have c: "cls \<noteq> ELF_CLASS_64" using True by (simp add: ELF_CLASS_32_def ELF_CLASS_64_def)
  obtain w where w: "elf_int 8 (concat cs) 24 en = Some w" "pflags_of w = pflags_of (flags_read cls en align p)"
    using program_flags_32 [OF True assms(3)] unfolding cs_def by blast
  have cs: "cs = [int_enc en 4 (ptype_num (p_type p)), int_enc en 4 (p_offset p), int_enc en 4 (v_addr p), int_enc en 4 (p_addr p),
      int_enc en 4 (p_filesz p), int_enc en 4 (p_memsz p), int_enc en 4 (pflags_num (p_flags p)), int_enc en 4 align]"
    using True by (simp add: cs_def ph_chunks_def Let_def)
  have m: "p_offset p < 256 ^ 4" "v_addr p < 256 ^ 4" "p_addr p < 256 ^ 4" "p_filesz p < 256 ^ 4" "p_memsz p < 256 ^ 4"
    using assms(2) True by (simp_all add: program_fits_def Let_def)
  have f0: "elf_int 4 (concat cs) 0 en = Some (ptype_num (p_type p))" using ptype_of_num(2) [of "p_type p"] by (intro elf_field0 [where i = 0]) (simp_all add: cs)
  have f1: "elf_int 4 (concat cs) 4 en = Some (p_offset p)" using m by (intro elf_field0 [where i = 1]) (simp_all add: cs)
  have f2: "elf_int 4 (concat cs) 8 en = Some (v_addr p)" using m by (intro elf_field0 [where i = 2]) (simp_all add: cs)
  have f3: "elf_int 4 (concat cs) 12 en = Some (p_addr p)" using m by (intro elf_field0 [where i = 3]) (simp_all add: cs)
  have f4: "elf_int 4 (concat cs) 16 en = Some (p_filesz p)" using m by (intro elf_field0 [where i = 4]) (simp_all add: cs)
  have f5: "elf_int 4 (concat cs) 20 en = Some (p_memsz p)" using m by (intro elf_field0 [where i = 5]) (simp_all add: cs)
  show ?thesis using True c w f0 f1 f2 f3 f4 f5 unfolding cs_def by (simp add: program_parse_def class_int_def)
next
  case False
  define cs where "cs = ph_chunks cls en align p"
  have c: "cls = ELF_CLASS_64" using assms(1) False by simp
  have m: "p_offset p < 256 ^ 8" "v_addr p < 256 ^ 8" "p_addr p < 256 ^ 8" "p_filesz p < 256 ^ 8" "p_memsz p < 256 ^ 8"
    using assms(2) False by (simp_all add: program_fits_def Let_def)
  obtain w where w: "elf_int 8 (concat cs) 4 en = Some w" "pflags_of w = pflags_of (flags_read cls en align p)"
    using program_flags_64 [OF False m(1)] unfolding cs_def by blast
  have cs: "cs = [int_enc en 4 (ptype_num (p_type p)), int_enc en 4 (pflags_num (p_flags p)), int_enc en 8 (p_offset p), int_enc en 8 (v_addr p),
      int_enc en 8 (p_addr p), int_enc en 8 (p_filesz p), int_enc en 8 (p_memsz p), int_enc en 8 align]"
    using False by (simp add: cs_def ph_chunks_def Let_def)
  have f0: "elf_int 4 (concat cs) 0 en = Some (ptype_num (p_type p))" using ptype_of_num(2) [of "p_type p"] by (intro elf_field0 [where i = 0]) (simp_all add: cs)
  have f1: "elf_int 8 (concat cs) 8 en = Some (p_offset p)" using m by (intro elf_field0 [where i = 2]) (simp_all add: cs)
  have f2: "elf_int 8 (concat cs) 16 en = Some (v_addr p)" using m by (intro elf_field0 [where i = 3]) (simp_all add: cs)
  have f3: "elf_int 8 (concat cs) 24 en = Some (p_addr p)" using m by (intro elf_field0 [where i = 4]) (simp_all add: cs)
  have f4: "elf_int 8 (concat cs) 32 en = Some (p_filesz p)" using m by (intro elf_field0 [where i = 5]) (simp_all add: cs)
  have f5: "elf_int 8 (concat cs) 40 en = Some (p_memsz p)" using m by (intro elf_field0 [where i = 6]) (simp_all add: cs)
  show ?thesis using False c w f0 f1 f2 f3 f4 f5 unfolding cs_def by (simp add: program_parse_def class_int_def)
qed

lemma ph_chunks_length: "length (concat (ph_chunks cls en align p)) = (if cls = ELF_CLASS_32 then PH_SIZE_32 else PH_SIZE_64)"
  by (simp add: ph_chunks_def PH_SIZE_32_def PH_SIZE_64_def Let_def)

lemma parse_headers_chunks:
  assumes "bytes = pre @ concat (map f ps) @ rest" "\<forall>p \<in> set ps. length (f p) = (if cls = ELF_CLASS_32 then PH_SIZE_32 else PH_SIZE_64)"
    "\<forall>p \<in> set ps. program_parse (f p) cls en = Some (g p)"
    "length pre + length ps * (if cls = ELF_CLASS_32 then PH_SIZE_32 else PH_SIZE_64) < 2 ^ 64" "i \<le> length ps"
  shows "parse_headers bytes cls en (length pre) [i..<length ps] = Some (map g (drop i ps))"
  using assms(5)
proof (induction "length ps - i" arbitrary: i)
  case (Suc k)
  define s where "s = (if cls = ELF_CLASS_32 then PH_SIZE_32 else PH_SIZE_64)"
  note assms = assms [folded s_def]
  let ?cs = "pre # map f ps"
  from Suc have i: "i < length ps" by simp
  then have upt: "[i..<length ps] = i # [Suc i..<length ps]" "drop i ps = ps ! i # drop (Suc i) ps"
    by (simp_all add: upt_conv_Cons Cons_nth_drop_Suc)
  have "\<forall>p \<in> set (take i ps). length (f p) = s" using assms(2) by (meson in_set_takeD)
  then have "map (\<lambda>p. length (f p)) (take i ps) = map (\<lambda>_. s) (take i ps)" by (intro map_cong) auto
  then have "map length (map f (take i ps)) = replicate i s" using i by (simp add: comp_def map_replicate_const)
  then have "sum_list (map length (map f (take i ps))) = i * s" by (simp only: sum_list_replicate of_nat_id)
  then have "sum_list (map length (take (Suc i) ?cs)) = length pre + i * s" by (simp add: take_map)
  moreover have "length (?cs ! Suc i) = s" using assms(2) i by simp
  moreover have "bytes = concat ?cs @ rest" using assms(1) by simp
  ultimately have slice: "slice_opt bytes (length pre + i * s) (length pre + (i + 1) * s) = Some (f (ps ! i))"
    using slice_chunk [of "Suc i" ?cs rest] i by (simp add: algebra_simps)
  have "(i + 1) * s \<le> length ps * s" using i by (intro mult_right_mono) auto
  then have "length pre + (i + 1) * s < 2 ^ 64" "length pre + i * s < 2 ^ 64" using assms(4) by auto
  moreover have "parse_headers bytes cls en (length pre) [Suc i..<length ps] = Some (map g (drop (Suc i) ps))"
    using Suc.hyps(1) [of "Suc i"] Suc.hyps(2) i by simp
  moreover have "program_parse (f (ps ! i)) cls en = Some (g (ps ! i))" using assms(3) i by simp
  ultimately show ?case using slice unfolding upt by (simp only: parse_headers.simps s_def [symmetric] Let_def usize_add_fits bind.bind_lunit list.map)
qed simp

section \<open>Reading written files\<close>

lemma elf_chunks_length: "length (concat (elf_chunks cls en phoff e)) = (if cls = ELF_CLASS_32 then 52 else 64)"
  by (simp add: elf_chunks_def ELF_HEADER_def Let_def)

lemma elf_ident:
  assumes "bytes = concat (elf_chunks cls en phoff e) @ rest"
  shows "take (length ELF_HEADER) bytes = ELF_HEADER" "nth_opt bytes 4 = Some cls" "nth_opt bytes 5 = Some en"
    "nth_opt bytes 7 = Some (abi_num (e_abi e))"
  using assms by (simp_all add: elf_chunks_def ELF_HEADER_def Let_def nth_opt_def)

lemma elf_header_fields:
  assumes "bytes = concat (elf_chunks cls en phoff e) @ rest" "e_entry e < 256 ^ w" "phoff < 256 ^ w" "length (p_headers e) < 256 ^ 2"
    "w = (if cls = ELF_CLASS_32 then 4 else 8)"
  shows "elf_int 2 bytes 16 en = Some (etype_num (e_type e))" "elf_int 2 bytes 18 en = Some (machine_num (e_machine e))"
    "class_int cls bytes en 24 24 = Some (e_entry e)" "class_int cls bytes en 28 32 = Some phoff"
    "(if cls = ELF_CLASS_32 then elf_int 2 bytes 44 en else elf_int 2 bytes 56 en) = Some (length (p_headers e))"
proof -
  define cs where "cs = elf_chunks cls en phoff e"
  let ?w = "if cls = ELF_CLASS_32 then 4 else 8"
  have cs: "cs = [ELF_HEADER @ [cls, en, 1, abi_num (e_abi e)] @ replicate 8 0, int_enc en 2 (etype_num (e_type e)),
      int_enc en 2 (machine_num (e_machine e)), int_enc en 4 1, int_enc en w (e_entry e), int_enc en w phoff, int_enc en w 0, int_enc en 4 0,
      int_enc en 2 0, int_enc en 2 0, int_enc en 2 (length (p_headers e)), int_enc en 6 0]"
    by (simp add: cs_def elf_chunks_def assms(5) Let_def)
  have b: "bytes = concat cs @ rest" using assms(1) by (simp add: cs_def)
  show "elf_int 2 bytes 16 en = Some (etype_num (e_type e))" unfolding b using etype_of_num(2) [of "e_type e"]
    by (intro elf_field [where i = 1]) (simp_all add: cs ELF_HEADER_def)
  show "elf_int 2 bytes 18 en = Some (machine_num (e_machine e))" unfolding b using machine_of_num(2) [of "e_machine e"]
    by (intro elf_field [where i = 2]) (simp_all add: cs ELF_HEADER_def)
  have "elf_int w bytes 24 en = Some (e_entry e)" unfolding b using assms(2)
    by (intro elf_field [where i = 4]) (simp_all add: cs ELF_HEADER_def)
  then show "class_int cls bytes en 24 24 = Some (e_entry e)" by (simp add: class_int_def assms(5) split: if_splits)
  have "elf_int w bytes (24 + w) en = Some phoff" unfolding b using assms(3)
    by (intro elf_field [where i = 5]) (simp_all add: cs ELF_HEADER_def)
  then show "class_int cls bytes en 28 32 = Some phoff" by (simp add: class_int_def assms(5) split: if_splits)
  have "elf_int 2 bytes (32 + 3 * w) en = Some (length (p_headers e))" unfolding b using assms(4)
    by (intro elf_field [where i = 10]) (simp_all add: cs ELF_HEADER_def)
  then show "(if cls = ELF_CLASS_32 then elf_int 2 bytes 44 en else elf_int 2 bytes 56 en) = Some (length (p_headers e))"
    by (simp add: assms(5) split: if_splits)
qed

lemma elf_parse_image:
  assumes "cls = ELF_CLASS_32 \<or> cls = ELF_CLASS_64" "elf_ok cls e gap" "align < 256 ^ 4"
  shows "elf_parse (elf_image cls en align e gap rest) =
    Some (Inr (e\<lparr>p_headers := map (\<lambda>p. p\<lparr>p_flags := pflags_of (flags_read cls en align p)\<rparr>) (p_headers e)\<rparr>))"
proof -
  define phoff where "phoff = (if cls = ELF_CLASS_32 then 52 else 64) + length gap"
  define f where "f p = concat (ph_chunks cls en align p)" for p
  define bytes where "bytes = elf_image cls en align e gap rest"
  let ?w = "if cls = ELF_CLASS_32 then 4 else 8" and ?hd = "concat (elf_chunks cls en phoff e)"
  have b: "bytes = ?hd @ gap @ concat (map f (p_headers e)) @ rest" "bytes = (?hd @ gap) @ concat (map f (p_headers e)) @ rest"
    by (simp_all add: bytes_def elf_image_def phoff_def f_def [abs_def])
  have len: "length (?hd @ gap) = phoff" using elf_chunks_length [of cls en phoff e] by (simp add: phoff_def)
  have small: "phoff < 256 ^ 4" "length (p_headers e) < 256 ^ 2" "e_entry e < 256 ^ ?w"
    using assms(2) by (simp_all add: elf_ok_def phoff_def)
  moreover have "(256 :: nat) ^ 4 \<le> 256 ^ ?w" by simp
  ultimately have "phoff < 256 ^ ?w" by linarith
  note fields = elf_header_fields [OF b(1) small(3) this small(2) refl] and ident = elf_ident [OF b(1)]
  have "length (?hd @ gap) + length (p_headers e) * (if cls = ELF_CLASS_32 then PH_SIZE_32 else PH_SIZE_64) < 2 ^ 64"
    unfolding len using small(1,2) by (auto simp: PH_SIZE_32_def PH_SIZE_64_def)
  moreover have "\<forall>p \<in> set (p_headers e). program_parse (f p) cls en = Some (p\<lparr>p_flags := pflags_of (flags_read cls en align p)\<rparr>)"
    using program_parse_chunks [OF assms(1) _ assms(3)] assms(2) by (auto simp: f_def elf_ok_def program_ok_def)
  ultimately have "parse_headers bytes cls en phoff [0..<length (p_headers e)] =
      Some (map (\<lambda>p. p\<lparr>p_flags := pflags_of (flags_read cls en align p)\<rparr>) (p_headers e))"
    using parse_headers_chunks [OF b(2), of cls en _ 0] ph_chunks_length [of cls en align] unfolding len by (simp add: f_def)
  then show ?thesis unfolding bytes_def [symmetric] elf_parse_def using ident fields by simp
qed

text \<open>C21: Reading a little-endian ELF file, 32-bit or 64-bit, gives back exactly what it was written from: the kind of file and
  machine, the entry point and every program header with its flags, wherever in the file the program headers are and
  whatever lies between and behind them.\<close>

theorem elf_roundtrip:
  assumes "cls = ELF_CLASS_32 \<or> cls = ELF_CLASS_64" "elf_ok cls e gap" "align < 256 ^ 4"
  shows "elf_parse (elf_image cls 1 align e gap rest) = Some (Inr e)"
proof -
  have "map (\<lambda>p. p\<lparr>p_flags := pflags_of (flags_read cls 1 align p)\<rparr>) (p_headers e) = p_headers e"
    using assms(2) by (intro map_idI) (auto simp: elf_ok_def program_ok_def flags_read_def)
  then show ?thesis using elf_parse_image [OF assms, of 1 rest] by simp
qed

definition demo_elf :: Elf where
  "demo_elf = \<lparr>e_abi = Linux, e_machine = Riscv, e_type = ET_Exec, e_entry = 0x10000,
     p_headers = [\<lparr>p_type = PT_Load, p_flags = [P_Exec, P_Read], p_offset = 0x1000, v_addr = 0x10000, p_addr = 0x10000, p_filesz = 64, p_memsz = 128\<rparr>]\<rparr>"

lemma demo_elf_ok: "elf_ok ELF_CLASS_64 demo_elf []"
  by (simp add: elf_ok_def demo_elf_def program_ok_def program_fits_def ELF_CLASS_64_def ELF_CLASS_32_def pflags_num_def pflags_of_odd)

theorem elf_roundtrip_witness: "elf_parse (elf_image ELF_CLASS_64 1 4096 demo_elf [] [1, 2, 3]) = Some (Inr demo_elf)"
  using elf_roundtrip [OF _ demo_elf_ok, of 4096 "[1, 2, 3]"] by simp

text \<open>In a 64-bit big-endian ELF file whose segments start in the first 4 GiB, every program header is read with
  no flags at all, whatever flags it was written with, and everything else is read as it was written: the reader takes the
  flags from a 64-bit word whose low half is the upper half of the file offset.\<close>

theorem elf_big_endian_flags_lost:
  assumes "elf_ok ELF_CLASS_64 e gap" "align < 256 ^ 4" "en \<noteq> 1" "\<forall>p \<in> set (p_headers e). p_offset p < 2 ^ 32"
  shows "elf_parse (elf_image ELF_CLASS_64 en align e gap rest) =
    Some (Inr (e\<lparr>p_headers := map (\<lambda>p. p\<lparr>p_flags := []\<rparr>) (p_headers e)\<rparr>))"
proof -
  have "pflags_of (flags_read ELF_CLASS_64 en align p) = []" if "p \<in> set (p_headers e)" for p
    using assms(3,4) that by (simp add: flags_read_def ELF_CLASS_32_def ELF_CLASS_64_def pflags_of_odd)
  then have "map (\<lambda>p. p\<lparr>p_flags := pflags_of (flags_read ELF_CLASS_64 en align p)\<rparr>) (p_headers e) = map (\<lambda>p. p\<lparr>p_flags := []\<rparr>) (p_headers e)"
    by (intro map_cong) auto
  then show ?thesis using elf_parse_image [OF _ assms(1,2), of en rest] by simp
qed

theorem elf_big_endian_flags_lost_witness:
  "\<exists>e. elf_parse (elf_image ELF_CLASS_64 2 4096 demo_elf [] []) = Some (Inr e) \<and> map p_flags (p_headers demo_elf) = [[P_Exec, P_Read]] \<and>
     map p_flags (p_headers e) = [[]]"
  using elf_big_endian_flags_lost [OF demo_elf_ok, of 4096 2 "[]"] by (simp add: demo_elf_def)

section \<open>Refused files\<close>

text \<open>What is not an ELF file is refused without looking further; an ELF magic alone is not enough not to panic.\<close>

lemma elf_parse_no_magic: "take (length ELF_HEADER) bytes \<noteq> ELF_HEADER \<Longrightarrow> elf_parse bytes = Some (Inl InvalidHeader)"
  by (simp add: elf_parse_def)

lemma elf_parse_truncated: "length bytes < 8 \<Longrightarrow> take (length ELF_HEADER) bytes = ELF_HEADER \<Longrightarrow> elf_parse bytes = None"
  by (auto simp: elf_parse_def nth_opt_def)

end
