(* ===== verification/Task.thy ===== *)
theory Task
  imports Machine Elf Vfs Utf8 "HOL-Library.Product_Lexorder"
begin

text \<open>
  Tasks, their descriptors and the copies between the kernel and a task (\<^verbatim>\<open>src/src/task.rs\<close>).

  The ordered maps and sets are sorted lists. An \<^verbatim>\<open>Arc\<close> of the list of page allocations has an identity, and its strong count
  is the number of its occurrences in the tasks there are. What the code selects by \<^verbatim>\<open>target_arch\<close> (the page mapper, the
  clock, the registers) is the record \<open>Arch\<close>, with an instance for RISC-V and one for ARM.
\<close>

section \<open>Architectures\<close>

record 'c Arch =
  arch_mapper :: Mapper
  get_sys_time :: clock
  Context_default :: 'c
  init_context :: "nat \<Rightarrow> nat \<Rightarrow> 'c"

record riscv_context =
  rv_x :: "u64 list"
  rv_epc :: u64

record arm64_context =
  arm_x :: "u64 list"
  arm_sp :: u64
  elr_el1 :: u64
  pstate :: u64

definition riscv_context_default :: riscv_context where
  "riscv_context_default = \<lparr>rv_x = replicate 31 0, rv_epc = 0\<rparr>"

definition riscv_init_context :: "nat \<Rightarrow> nat \<Rightarrow> riscv_context" where
  "riscv_init_context entry stack_top =
     riscv_context_default\<lparr>rv_epc := of_nat entry, rv_x := (rv_x riscv_context_default)[2 := of_nat stack_top]\<rparr>"

definition arm64_context_default :: arm64_context where
  "arm64_context_default = \<lparr>arm_x = replicate 31 0, arm_sp = 0, elr_el1 = 0, pstate = 0\<rparr>"

definition arm64_init_context :: "nat \<Rightarrow> nat \<Rightarrow> arm64_context" where
  "arm64_init_context entry stack_top = arm64_context_default\<lparr>elr_el1 := of_nat entry, arm_sp := of_nat stack_top\<rparr>"

definition riscv64_arch :: "riscv_context Arch" where
  "riscv64_arch = \<lparr>arch_mapper = Sv39Mapper, get_sys_time = riscv_get_sys_time, Context_default = riscv_context_default,
     init_context = riscv_init_context\<rparr>"

definition arm64_arch :: "nat \<Rightarrow> arm64_context Arch" where
  "arm64_arch freq = \<lparr>arch_mapper = Arm64Mapper, get_sys_time = arm64_get_sys_time freq, Context_default = arm64_context_default,
     init_context = arm64_init_context\<rparr>"

section \<open>Descriptor tables\<close>

record FdTable =
  max_fd :: nat
  fd_files :: "(nat \<times> VfsFile) list"

definition FdTable_default :: FdTable where
  "FdTable_default = \<lparr>max_fd = 0, fd_files = []\<rparr>"

definition FdTable_add :: "FdTable \<Rightarrow> VfsFile \<Rightarrow> (nat \<times> FdTable) option" where
  "FdTable_add t file = do {
     n \<leftarrow> usize_add (max_fd t) 1;
     Some (max_fd t, \<lparr>max_fd = n, fd_files = bt_insert (max_fd t) file (fd_files t)\<rparr>)
   }"

definition FdTable_get :: "FdTable \<Rightarrow> nat \<Rightarrow> VfsFile option" where
  "FdTable_get t fd = map_of (fd_files t) fd"

definition FdTable_set :: "FdTable \<Rightarrow> nat \<Rightarrow> VfsFile \<Rightarrow> FdTable" where
  \<comment> \<open>what a change through \<open>get_mut\<close> leaves in the table\<close>
  "FdTable_set t fd file = t\<lparr>fd_files := bt_insert fd file (fd_files t)\<rparr>"

definition FdTable_remove :: "FdTable \<Rightarrow> nat \<Rightarrow> FdTable" where
  "FdTable_remove t fd = t\<lparr>fd_files := bt_remove fd (fd_files t)\<rparr>"

section \<open>Tasks\<close>

definition KERNEL_PID :: nat where "KERNEL_PID = 0"
definition NICE_DEFAULT :: int where "NICE_DEFAULT = 0"
definition NICE_MAX :: int where "NICE_MAX = 19"
definition NICE_MIN :: int where "NICE_MIN = -20"
definition USER_STACK_PAGES :: nat where "USER_STACK_PAGES = 16"

record PageAllocInfo =
  pa_arc :: nat
  pa_vpage :: nat
  pa_ppage :: nat
  pa_pages :: nat
  pa_flags :: "PFlags list"

record 'c Task =
  uid :: nat
  pid :: nat
  ppid :: nat
  task_page :: table
  nice :: int
  task_ctx :: 'c
  page_allocs :: "PageAllocInfo list"
  next_schedule :: "nat option"
  task_fds :: FdTable

definition renice :: "'c Task \<Rightarrow> int \<Rightarrow> 'c Task" where
  "renice t n = (if NICE_MIN \<le> n \<and> n \<le> NICE_MAX then t\<lparr>nice := n\<rparr> else t)"

definition is_kernel :: "'c Task \<Rightarrow> bool" where
  "is_kernel t \<longleftrightarrow> pid t = KERNEL_PID"

subsection \<open>Copies between the kernel and a task\<close>

text \<open>The \<^verbatim>\<open>for\<close> loop: the first allocation whose pages contain the page of the address.\<close>

fun find_alloc :: "PageAllocInfo list \<Rightarrow> nat \<Rightarrow> PageAllocInfo option option" where
  "find_alloc [] vpn = Some None"
| "find_alloc (a # as) vpn = do {
     stop \<leftarrow> usize_add (pa_vpage a) (pa_pages a);
     if pa_vpage a \<le> vpn \<and> vpn < stop then Some (Some a) else find_alloc as vpn
   }"

text \<open>The inner \<^verbatim>\<open>while\<close> loops, from an offset of the allocation up to its end: what was copied and what is left of the buffer.\<close>

fun read_run :: "(nat \<Rightarrow> u8) \<Rightarrow> nat \<Rightarrow> nat \<Rightarrow> nat \<Rightarrow> u8 list \<Rightarrow> u8 list \<times> u8 list" where
  "read_run mem start stop off [] = ([], [])"
| "read_run mem start stop off (b # bs) =
     (if off < stop then (case read_run mem start stop (off + 1) bs of (c, r) \<Rightarrow> (mem (start + off) # c, r)) else ([], b # bs))"

fun write_run :: "(nat \<Rightarrow> u8) \<Rightarrow> nat \<Rightarrow> nat \<Rightarrow> nat \<Rightarrow> u8 list \<Rightarrow> (nat \<Rightarrow> u8) \<times> u8 list" where
  "write_run mem start stop off [] = (mem, [])"
| "write_run mem start stop off (b # bs) =
     (if off < stop then write_run (mem(start + off := b)) start stop (off + 1) bs else (mem, b # bs))"

definition alloc_start :: "PageAllocInfo \<Rightarrow> nat option" where
  "alloc_start a = do { v \<leftarrow> virt_from_phys PAGE_OFFSET (pa_ppage a); usize_mul v PAGE_SIZE }"

text \<open>\<^verbatim>\<open>copy_from_user\<close>: the buffer after it is what was copied, then what is left.\<close>

partial_function (option) copy_from_user_loop ::
  "(nat \<Rightarrow> u8) \<Rightarrow> PageAllocInfo list \<Rightarrow> nat \<Rightarrow> u8 list \<Rightarrow> (u8 list \<times> u8 list) option" where
  "copy_from_user_loop mem as user_addr kernel_buf =
     (if kernel_buf = [] then Some ([], [])
      else do {
        found \<leftarrow> find_alloc as (drop_bit PAGE_BITS user_addr);
        (case found of
           None \<Rightarrow> Some ([], kernel_buf)
         | Some a \<Rightarrow> do {
             off \<leftarrow> usize_sub user_addr (usize_shl (pa_vpage a) PAGE_BITS);
             start \<leftarrow> alloc_start a;
             let (c, rest) = read_run mem start (usize_shl (pa_pages a) PAGE_BITS) off kernel_buf;
             if rest = [] then Some (c, [])
             else do {
               (c', rest) \<leftarrow> copy_from_user_loop mem as (usize_shl (pa_vpage a + pa_pages a) PAGE_BITS) rest;
               Some (c @ c', rest)
             }
           })
      })"

definition copy_from_user :: "Machine \<Rightarrow> 'c Task \<Rightarrow> nat \<Rightarrow> u8 list \<Rightarrow> (nat \<times> u8 list) option" where
  "copy_from_user m t user_addr kernel_buf = do {
     (c, rest) \<leftarrow> copy_from_user_loop (ram m) (page_allocs t) user_addr kernel_buf;
     n \<leftarrow> usize_sub (length kernel_buf) (length rest);
     Some (n, c @ rest)
   }"

partial_function (option) copy_to_user_loop ::
  "(nat \<Rightarrow> u8) \<Rightarrow> PageAllocInfo list \<Rightarrow> nat \<Rightarrow> u8 list \<Rightarrow> ((nat \<Rightarrow> u8) \<times> u8 list) option" where
  "copy_to_user_loop mem as user_addr kernel_buf =
     (if kernel_buf = [] then Some (mem, [])
      else do {
        found \<leftarrow> find_alloc as (drop_bit PAGE_BITS user_addr);
        (case found of
           None \<Rightarrow> Some (mem, kernel_buf)
         | Some a \<Rightarrow> do {
             off \<leftarrow> usize_sub user_addr (usize_shl (pa_vpage a) PAGE_BITS);
             start \<leftarrow> alloc_start a;
             let (mem, rest) = write_run mem start (usize_shl (pa_pages a) PAGE_BITS) off kernel_buf;
             if rest = [] then Some (mem, [])
             else copy_to_user_loop mem as (usize_shl (pa_vpage a + pa_pages a) PAGE_BITS) rest
           })
      })"

definition copy_to_user :: "Machine \<Rightarrow> 'c Task \<Rightarrow> nat \<Rightarrow> u8 list \<Rightarrow> (nat \<times> Machine) option" where
  "copy_to_user m t user_addr kernel_buf = do {
     (mem, rest) \<leftarrow> copy_to_user_loop (ram m) (page_allocs t) user_addr kernel_buf;
     n \<leftarrow> usize_sub (length kernel_buf) (length rest);
     Some (n, m\<lparr>ram := mem\<rparr>)
   }"

definition STRING_BUF_SIZE :: nat where "STRING_BUF_SIZE = 16"

partial_function (option) copy_user_string_loop :: "Machine \<Rightarrow> 'c Task \<Rightarrow> nat \<Rightarrow> u8 list \<Rightarrow> u8 list option" where
  "copy_user_string_loop m t user_addr string_vec = do {
     (n, buf) \<leftarrow> copy_from_user m t user_addr (replicate STRING_BUF_SIZE 0);
     let chunk = take n buf;
     if 0 \<in> set chunk then Some (string_vec @ takeWhile (\<lambda>b. b \<noteq> 0) chunk)
     else if n < STRING_BUF_SIZE then Some (string_vec @ chunk)
     else copy_user_string_loop m t user_addr (string_vec @ chunk)
   }"

definition copy_user_string :: "Machine \<Rightarrow> 'c Task \<Rightarrow> nat \<Rightarrow> u8 list option" where
  "copy_user_string m t user_addr = do { s \<leftarrow> copy_user_string_loop m t user_addr []; Some (utf8_lossy s) }"

section \<open>The address space of a task\<close>

text \<open>The kernel address of a byte of a task, and how many bytes from an address on have one.\<close>

definition holds_page :: "nat \<Rightarrow> PageAllocInfo \<Rightarrow> bool" where
  "holds_page vpn x \<longleftrightarrow> pa_vpage x \<le> vpn \<and> vpn < pa_vpage x + pa_pages x"

definition byte_in :: "PageAllocInfo \<Rightarrow> nat \<Rightarrow> nat" where
  "byte_in x a = (pa_ppage x + PAGE_OFFSET) * PAGE_SIZE + (a - pa_vpage x * PAGE_SIZE)"

definition user_ptr :: "PageAllocInfo list \<Rightarrow> nat \<Rightarrow> nat option" where
  "user_ptr as a = map_option (\<lambda>x. byte_in x a) (find (holds_page (a div PAGE_SIZE)) as)"

fun mapped_len :: "PageAllocInfo list \<Rightarrow> nat \<Rightarrow> nat \<Rightarrow> nat" where
  "mapped_len as a 0 = 0"
| "mapped_len as a (Suc n) = (if user_ptr as a = None then 0 else Suc (mapped_len as (Suc a) n))"

text \<open>Allocations that do not overlap and whose addresses fit the machine word.\<close>

definition apart :: "PageAllocInfo \<Rightarrow> PageAllocInfo \<Rightarrow> bool" where
  "apart x y \<longleftrightarrow> pa_vpage x + pa_pages x \<le> pa_vpage y \<or> pa_vpage y + pa_pages y \<le> pa_vpage x"

definition allocs_ok :: "PageAllocInfo list \<Rightarrow> bool" where
  "allocs_ok as \<longleftrightarrow> sorted_wrt apart as \<and>
     (\<forall>x \<in> set as. pa_vpage x + pa_pages x < 2 ^ 52 \<and> pa_ppage x + PAGE_OFFSET + pa_pages x \<le> 2 ^ 52)"

lemma page_div: "drop_bit PAGE_BITS a = a div PAGE_SIZE" "usize_shl n PAGE_BITS = n * PAGE_SIZE mod 2 ^ 64" "PAGE_SIZE = 4096"
  by (simp_all add: drop_bit_eq_div usize_shl_def PAGE_SIZE_def PAGE_BITS_def)

lemma find_alloc_find:
  assumes "\<forall>x \<in> set as. pa_vpage x + pa_pages x < 2 ^ 52"
  shows "find_alloc as vpn = Some (find (holds_page vpn) as)"
  using assms by (induction as) (auto simp: usize_add_def holds_page_def)

lemma find_apart:
  assumes "sorted_wrt apart as" "x \<in> set as" "holds_page vpn x"
  shows "find (holds_page vpn) as = Some x"
  using assms
proof (induction as)
  case (Cons y as)
  show ?case
  proof (cases "x = y")
    case False
    then have "apart y x" "x \<in> set as" using Cons.prems by auto
    then have "\<not> holds_page vpn y" using Cons.prems(3) by (auto simp: apart_def holds_page_def)
    then show ?thesis using Cons \<open>x \<in> set as\<close> by simp
  qed (use Cons.prems(3) in simp)
qed simp

lemma user_ptr_in:
  assumes "sorted_wrt apart as" "x \<in> set as" "pa_vpage x * PAGE_SIZE \<le> a" "a < (pa_vpage x + pa_pages x) * PAGE_SIZE"
  shows "user_ptr as a = Some (byte_in x a)"
proof -
  have "holds_page (a div PAGE_SIZE) x"
    using assms(3,4) unfolding holds_page_def by (simp add: less_mult_imp_div_less div_le_mono [of _ a PAGE_SIZE] less_eq_div_iff_mult_less_eq page_div(3))
  then show ?thesis using find_apart [OF assms(1,2)] by (simp add: user_ptr_def)
qed

lemma mapped_len_le: "mapped_len as a n \<le> n"
  by (induction as a n rule: mapped_len.induct) auto

lemma mapped_len_add:
  assumes "\<And>i. i < k \<Longrightarrow> user_ptr as (a + i) \<noteq> None"
  shows "mapped_len as a (k + n) = k + mapped_len as (a + k) n"
  using assms
proof (induction k arbitrary: a)
  case (Suc k)
  have "user_ptr as a \<noteq> None" using Suc.prems [of 0] by simp
  moreover have "mapped_len as (Suc a) (k + n) = k + mapped_len as (Suc a + k) n"
    using Suc.prems [of "Suc _"] by (intro Suc.IH) simp
  ultimately show ?case by simp
qed simp

lemma mapped_len_mapped: "i < mapped_len as a n \<Longrightarrow> user_ptr as (a + i) \<noteq> None"
proof (induction n arbitrary: a i)
  case (Suc n)
  then show ?case using Suc.IH [of "i - 1" "Suc a"] by (cases i) (auto split: if_splits)
qed simp

lemma mapped_len_stop: "mapped_len as a n < n \<Longrightarrow> user_ptr as (a + mapped_len as a n) = None"
proof (induction n arbitrary: a)
  case (Suc n)
  then show ?case using Suc.IH [of "Suc a"] by (auto split: if_splits)
qed simp

lemma read_run_map:
  "read_run mem start stop off bs =
    (map (\<lambda>i. mem (start + (off + i))) [0..<min (length bs) (stop - off)], drop (min (length bs) (stop - off)) bs)"
proof (induction mem start stop off bs rule: read_run.induct)
  case (2 mem start stop off b bs)
  show ?case
  proof (cases "off < stop")
    case True
    then have n: "min (length (b # bs)) (stop - off) = Suc (min (length bs) (stop - (off + 1)))" by simp
    show ?thesis unfolding n using 2 [OF True] True by (simp add: map_upt_Suc del: upt_Suc)
  qed simp
qed simp

text \<open>One round of the loops: the allocation that is found and what the address becomes.\<close>

lemma copy_round:
  assumes "allocs_ok as" "a < 2 ^ 64" "find (holds_page (a div PAGE_SIZE)) as = Some x"
  shows "find_alloc as (drop_bit PAGE_BITS a) = Some (Some x)" "usize_shl (pa_vpage x) PAGE_BITS = pa_vpage x * PAGE_SIZE"
    "usize_shl (pa_pages x) PAGE_BITS = pa_pages x * PAGE_SIZE" "pa_vpage x * PAGE_SIZE \<le> a" "a < (pa_vpage x + pa_pages x) * PAGE_SIZE"
    "alloc_start x = Some ((pa_ppage x + PAGE_OFFSET) * PAGE_SIZE)"
    "usize_shl (pa_vpage x + pa_pages x) PAGE_BITS = (pa_vpage x + pa_pages x) * PAGE_SIZE"
    "(pa_vpage x + pa_pages x) * PAGE_SIZE < 2 ^ 64" "x \<in> set as"
proof -
  have x: "x \<in> set as" "holds_page (a div PAGE_SIZE) x" using assms(3) by (auto simp: find_Some_iff)
  show "x \<in> set as" by (fact x(1))
  have b: "pa_vpage x + pa_pages x < 2 ^ 52" "pa_ppage x + PAGE_OFFSET + pa_pages x \<le> 2 ^ 52" "0 < pa_pages x"
    using assms(1) x by (auto simp: allocs_ok_def holds_page_def)
  show "find_alloc as (drop_bit PAGE_BITS a) = Some (Some x)"
    using find_alloc_find assms(1,3) by (simp add: allocs_ok_def page_div(1))
  show "usize_shl (pa_vpage x) PAGE_BITS = pa_vpage x * PAGE_SIZE" "usize_shl (pa_pages x) PAGE_BITS = pa_pages x * PAGE_SIZE"
    "usize_shl (pa_vpage x + pa_pages x) PAGE_BITS = (pa_vpage x + pa_pages x) * PAGE_SIZE" "(pa_vpage x + pa_pages x) * PAGE_SIZE < 2 ^ 64"
    using b(1) by (simp_all add: page_div(2,3))
  show "pa_vpage x * PAGE_SIZE \<le> a" "a < (pa_vpage x + pa_pages x) * PAGE_SIZE"
    using x(2) unfolding holds_page_def page_div(3)
    by (simp_all add: less_eq_div_iff_mult_less_eq div_less_iff_less_mult)
  show "alloc_start x = Some ((pa_ppage x + PAGE_OFFSET) * PAGE_SIZE)"
    using b(2,3) by (simp add: alloc_start_def virt_from_phys_def usize_add_def usize_mul_def page_div(3))
qed

lemma round_ptr:
  assumes "allocs_ok as" "a < 2 ^ 64" "find (holds_page (a div PAGE_SIZE)) as = Some x" "a + i < (pa_vpage x + pa_pages x) * PAGE_SIZE"
  shows "user_ptr as (a + i) = Some (byte_in x a + i)"
  using user_ptr_in [of as x "a + i"] assms(1,4) copy_round(4,9) [OF assms(1-3)] by (simp add: allocs_ok_def byte_in_def)

lemma copy_from_user_loop_spec:
  assumes "allocs_ok as" "a < 2 ^ 64"
  shows "copy_from_user_loop mem as a bs =
    Some (map (\<lambda>i. mem (the (user_ptr as (a + i)))) [0..<mapped_len as a (length bs)], drop (mapped_len as a (length bs)) bs)"
  using assms(2)
proof (induction "length bs" arbitrary: a bs rule: less_induct)
  case less
  show ?case
  proof (cases "bs = [] \<or> find (holds_page (a div PAGE_SIZE)) as = None")
    case True
    moreover have "find_alloc as (drop_bit PAGE_BITS a) = Some (find (holds_page (a div PAGE_SIZE)) as)"
      using find_alloc_find assms(1) by (simp add: allocs_ok_def page_div(1))
    moreover have "mapped_len as a (length bs) = 0"
      using True by (cases bs) (auto simp: user_ptr_def)
    ultimately show ?thesis by (subst copy_from_user_loop.simps) auto
  next
    case False
    then obtain x where x: "find (holds_page (a div PAGE_SIZE)) as = Some x" "bs \<noteq> []" by auto
    note r = copy_round [OF assms(1) less.prems x(1)]
    define e where "e = (pa_vpage x + pa_pages x) * PAGE_SIZE"
    define n where "n = min (length bs) (e - a)"
    have off: "pa_pages x * PAGE_SIZE - (a - pa_vpage x * PAGE_SIZE) = e - a"
      using r(4) by (simp add: e_def algebra_simps)
    have ptr: "user_ptr as (a + i) = Some (byte_in x a + i)" if "i < n" for i
      using that by (intro round_ptr [OF assms(1) less.prems x(1)]) (auto simp: n_def e_def)
    have "0 < n" using r(5) x(2) by (simp add: n_def e_def)
    define c where "c = map (\<lambda>i. mem (the (user_ptr as (a + i)))) [0..<n]"
    have run: "read_run mem ((pa_ppage x + PAGE_OFFSET) * PAGE_SIZE) (pa_pages x * PAGE_SIZE) (a - pa_vpage x * PAGE_SIZE) bs = (c, drop n bs)"
      unfolding read_run_map off n_def [symmetric] c_def using ptr by (simp add: byte_in_def add.assoc)
    have len: "mapped_len as a (length bs) = n + mapped_len as (a + n) (length bs - n)"
      using mapped_len_add [of n as a "length bs - n"] ptr by (simp add: n_def)
    show ?thesis
    proof (cases "drop n bs = []")
      case True
      then have "n = length bs" by (simp add: n_def)
      then show ?thesis using len x(2) r run True by (subst copy_from_user_loop.simps) (simp add: c_def)
    next
      case False
      then have n: "a + n = e" "length (drop n bs) < length bs" using r(5) \<open>0 < n\<close> by (auto simp: n_def e_def)
      have "e < 2 ^ 64" using r(8) by (simp add: e_def)
      then have IH: "copy_from_user_loop mem as e (drop n bs) =
          Some (map (\<lambda>i. mem (the (user_ptr as (e + i)))) [0..<mapped_len as e (length bs - n)], drop (n + mapped_len as e (length bs - n)) bs)"
        using less.hyps [OF n(2)] by (simp add: add.commute)
      have "copy_from_user_loop mem as a bs = Some (c @ map (\<lambda>i. mem (the (user_ptr as (e + i)))) [0..<mapped_len as e (length bs - n)],
          drop (n + mapped_len as e (length bs - n)) bs)"
        using x(2) r run False IH by (subst copy_from_user_loop.simps) (simp add: e_def)
      also have "c @ map (\<lambda>i. mem (the (user_ptr as (e + i)))) [0..<k] = map (\<lambda>i. mem (the (user_ptr as (a + i)))) [0..<n + k]" for k
        by (rule nth_equalityI) (auto simp: c_def nth_append n(1) [symmetric] add.assoc)
      finally show ?thesis unfolding len n(1) .
    qed
  qed
qed

section \<open>Writing to a task\<close>

fun user_store :: "(nat \<Rightarrow> u8) \<Rightarrow> PageAllocInfo list \<Rightarrow> nat \<Rightarrow> u8 list \<Rightarrow> nat \<Rightarrow> u8" where
  "user_store mem as a [] = mem"
| "user_store mem as a (b # bs) =
     (case user_ptr as a of None \<Rightarrow> mem | Some p \<Rightarrow> user_store (mem(p := b)) as (Suc a) bs)"

lemma user_store_append:
  assumes "\<And>i. i < length bs \<Longrightarrow> user_ptr as (a + i) \<noteq> None"
  shows "user_store mem as a (bs @ cs) = user_store (user_store mem as a bs) as (a + length bs) cs"
  using assms
proof (induction bs arbitrary: mem a)
  case (Cons b bs)
  obtain p where p: "user_ptr as a = Some p" using Cons.prems [of 0] by auto
  moreover have "user_store (mem(p := b)) as (Suc a) (bs @ cs) = user_store (user_store (mem(p := b)) as (Suc a) bs) as (Suc a + length bs) cs"
    using Cons.prems [of "Suc _"] by (intro Cons.IH) simp
  ultimately show ?case by simp
qed simp

lemma write_run_store:
  assumes "\<And>i. i < min (length bs) (stop - off) \<Longrightarrow> user_ptr as (a + i) = Some (start + off + i)"
  shows "write_run mem start stop off bs =
    (user_store mem as a (take (min (length bs) (stop - off)) bs), drop (min (length bs) (stop - off)) bs)"
  using assms
proof (induction mem start stop off bs arbitrary: a rule: write_run.induct)
  case (2 mem start stop off b bs)
  show ?case
  proof (cases "off < stop")
    case True
    then have n: "min (length (b # bs)) (stop - off) = Suc (min (length bs) (stop - (off + 1)))" by simp
    have p: "user_ptr as a = Some (start + off)" using 2(2) [of 0] unfolding n by simp
    have "write_run (mem(start + off := b)) start stop (off + 1) bs =
        (user_store (mem(start + off := b)) as (Suc a) (take (min (length bs) (stop - (off + 1))) bs), drop (min (length bs) (stop - (off + 1))) bs)"
      using 2(2) [of "Suc _"] unfolding n by (intro 2(1) [OF True]) simp
    then show ?thesis unfolding n using True p by simp
  qed simp
qed simp

lemma copy_to_user_loop_spec:
  assumes "allocs_ok as" "a < 2 ^ 64"
  shows "copy_to_user_loop mem as a bs = Some (user_store mem as a bs, drop (mapped_len as a (length bs)) bs)"
  using assms(2)
proof (induction "length bs" arbitrary: mem a bs rule: less_induct)
  case less
  show ?case
  proof (cases "bs = [] \<or> find (holds_page (a div PAGE_SIZE)) as = None")
    case True
    moreover have "find_alloc as (drop_bit PAGE_BITS a) = Some (find (holds_page (a div PAGE_SIZE)) as)"
      using find_alloc_find assms(1) by (simp add: allocs_ok_def page_div(1))
    moreover have "mapped_len as a (length bs) = 0" "user_store mem as a bs = mem"
      using True by (cases bs; auto simp: user_ptr_def)+
    ultimately show ?thesis by (subst copy_to_user_loop.simps) auto
  next
    case False
    then obtain x where x: "find (holds_page (a div PAGE_SIZE)) as = Some x" "bs \<noteq> []" by auto
    note r = copy_round [OF assms(1) less.prems x(1)]
    define n where "n = min (length bs) (pa_pages x * PAGE_SIZE - (a - pa_vpage x * PAGE_SIZE))"
    define e where "e = (pa_vpage x + pa_pages x) * PAGE_SIZE"
    have off: "pa_pages x * PAGE_SIZE - (a - pa_vpage x * PAGE_SIZE) = e - a"
      using r(4) by (simp add: e_def algebra_simps)
    note ptr = round_ptr [OF assms(1) less.prems x(1)]
    define mem' where "mem' = user_store mem as a (take n bs)"
    have run: "write_run mem ((pa_ppage x + PAGE_OFFSET) * PAGE_SIZE) (pa_pages x * PAGE_SIZE) (a - pa_vpage x * PAGE_SIZE) bs = (mem', drop n bs)"
      unfolding mem'_def n_def using ptr less_diff_conv2 by (intro write_run_store) (auto simp: off e_def byte_in_def)
    have mapped: "user_ptr as (a + i) \<noteq> None" if "i < n" for i using ptr that by (auto simp: n_def off e_def)
    have len: "mapped_len as a (length bs) = n + mapped_len as (a + n) (length bs - n)"
      using mapped_len_add [of n as a "length bs - n"] mapped by (simp add: n_def)
    have store: "user_store mem as a bs = user_store mem' as (a + n) (drop n bs)"
      using user_store_append [of "take n bs" as a mem "drop n bs"] mapped by (simp add: mem'_def n_def)
    show ?thesis
    proof (cases "drop n bs = []")
      case True
      then have "n = length bs" by (simp add: n_def)
      then show ?thesis using len store x(2) r run True by (subst copy_to_user_loop.simps) simp
    next
      case False
      then have n: "a + n = e" "length (drop n bs) < length bs" using r(5) x(2) by (auto simp: n_def off e_def)
      have "e < 2 ^ 64" using r(8) by (simp add: e_def)
      then have IH: "copy_to_user_loop mem' as e (drop n bs) = Some (user_store mem' as e (drop n bs), drop (n + mapped_len as e (length bs - n)) bs)"
        using less.hyps [OF n(2)] by (simp add: add.commute)
      show ?thesis unfolding store len n(1) using x(2) r run False IH by (subst copy_to_user_loop.simps) (simp add: e_def)
    qed
  qed
qed

text \<open>The bytes of a task have kernel addresses of their own when its allocations do not share pages of memory.\<close>

definition phys_apart :: "PageAllocInfo \<Rightarrow> PageAllocInfo \<Rightarrow> bool" where
  "phys_apart x y \<longleftrightarrow> pa_ppage x + pa_pages x \<le> pa_ppage y \<or> pa_ppage y + pa_pages y \<le> pa_ppage x"

lemma sorted_wrt_in:
  assumes "sorted_wrt R xs" "x \<in> set xs" "y \<in> set xs" "x \<noteq> y"
  shows "R x y \<or> R y x"
  using assms by (induction xs) auto

lemma user_ptr_page:
  assumes "user_ptr as a = Some p"
  obtains x where "x \<in> set as" "holds_page (a div PAGE_SIZE) x" "p div PAGE_SIZE = pa_ppage x + PAGE_OFFSET + (a div PAGE_SIZE - pa_vpage x)"
    "p mod PAGE_SIZE = a mod PAGE_SIZE"
proof -
  obtain x where x: "find (holds_page (a div PAGE_SIZE)) as = Some x" "p = byte_in x a" using assms by (auto simp: user_ptr_def)
  then have m: "x \<in> set as" "holds_page (a div PAGE_SIZE) x" by (auto simp: find_Some_iff)
  define v where "v = a div PAGE_SIZE - pa_vpage x"
  have "a = (pa_vpage x + v) * PAGE_SIZE + a mod PAGE_SIZE" using m(2) by (simp add: v_def holds_page_def)
  then have "a - pa_vpage x * PAGE_SIZE = v * PAGE_SIZE + a mod PAGE_SIZE" by (simp add: algebra_simps)
  then have "p = (pa_ppage x + PAGE_OFFSET + v) * PAGE_SIZE + a mod PAGE_SIZE" by (simp add: x(2) byte_in_def algebra_simps)
  moreover have "a mod PAGE_SIZE < PAGE_SIZE" by (simp add: page_div(3))
  ultimately show ?thesis using that m v_def by simp
qed

lemma user_ptr_inj:
  assumes "sorted_wrt apart as" "sorted_wrt phys_apart as" "user_ptr as a = Some p" "user_ptr as b = Some p"
  shows "a = b"
proof -
  obtain x where x: "x \<in> set as" "holds_page (a div PAGE_SIZE) x" "p div PAGE_SIZE = pa_ppage x + PAGE_OFFSET + (a div PAGE_SIZE - pa_vpage x)"
    "p mod PAGE_SIZE = a mod PAGE_SIZE" using user_ptr_page [OF assms(3)] .
  obtain y where y: "y \<in> set as" "holds_page (b div PAGE_SIZE) y" "p div PAGE_SIZE = pa_ppage y + PAGE_OFFSET + (b div PAGE_SIZE - pa_vpage y)"
    "p mod PAGE_SIZE = b mod PAGE_SIZE" using user_ptr_page [OF assms(4)] .
  have "x = y"
  proof (rule ccontr)
    assume "x \<noteq> y"
    then have "phys_apart x y \<or> phys_apart y x" using sorted_wrt_in [OF assms(2) x(1) y(1)] by blast
    then show False using x(2,3) y(2,3) by (auto simp: phys_apart_def holds_page_def)
  qed
  then have "a div PAGE_SIZE = b div PAGE_SIZE" using x(2,3) y(2,3) by (auto simp: holds_page_def)
  then show "a = b" using x(4) y(4) by (metis div_mult_mod_eq)
qed

lemma user_store_other: "(\<And>i. i < length bs \<Longrightarrow> user_ptr as (a + i) \<noteq> Some p) \<Longrightarrow> user_store mem as a bs p = mem p"
proof (induction bs arbitrary: mem a)
  case (Cons b bs)
  show ?case
  proof (cases "user_ptr as a")
    case (Some q)
    have "p \<noteq> q" using Cons.prems [of 0] Some by auto
    moreover have "user_store (mem(q := b)) as (Suc a) bs p = (mem(q := b)) p"
      using Cons.prems [of "Suc _"] by (intro Cons.IH) simp
    ultimately show ?thesis using Some by simp
  qed simp
qed simp

lemma user_store_at:
  assumes inj: "\<And>a b p. user_ptr as a = Some p \<Longrightarrow> user_ptr as b = Some p \<Longrightarrow> a = b"
  shows "i < mapped_len as a (length bs) \<Longrightarrow> user_ptr as (a + i) = Some p \<Longrightarrow> user_store mem as a bs p = bs ! i"
proof (induction bs arbitrary: mem a i)
  case (Cons b bs)
  then obtain q where q: "user_ptr as a = Some q" by (auto split: if_splits)
  show ?case
  proof (cases i)
    case 0
    have "user_store (mem(q := b)) as (Suc a) bs q = (mem(q := b)) q"
      using inj [OF q] by (intro user_store_other) fastforce
    then show ?thesis using 0 q Cons.prems(2) by simp
  next
    case (Suc j)
    then show ?thesis using Cons.IH [of j "Suc a"] Cons.prems q by simp
  qed
qed simp

section \<open>The copies\<close>

text \<open>C25: \<^verbatim>\<open>copy_from_user\<close> of a task whose allocations do not overlap returns, whatever address it is given: it copies the
  longest run of bytes from the address on that the task has, across its allocations, leaves the rest of the buffer as
  it is, and returns the length of the run.\<close>

theorem copy_from_user_correct:
  assumes "allocs_ok (page_allocs t)" "a < 2 ^ 64"
  shows "copy_from_user m t a buf =
    Some (mapped_len (page_allocs t) a (length buf),
      map (\<lambda>i. ram m (the (user_ptr (page_allocs t) (a + i)))) [0..<mapped_len (page_allocs t) a (length buf)] @
      drop (mapped_len (page_allocs t) a (length buf)) buf) \<and>
    (\<forall>i < mapped_len (page_allocs t) a (length buf). user_ptr (page_allocs t) (a + i) \<noteq> None) \<and>
    (mapped_len (page_allocs t) a (length buf) < length buf \<longrightarrow>
      user_ptr (page_allocs t) (a + mapped_len (page_allocs t) a (length buf)) = None)"
  using copy_from_user_loop_spec [OF assms, of "ram m" buf] mapped_len_le [of "page_allocs t" a "length buf"]
    mapped_len_mapped [of _ "page_allocs t" a "length buf"] mapped_len_stop [of "page_allocs t" a "length buf"]
  by (auto simp: copy_from_user_def usize_sub_def)

definition demo_machine :: "u8 \<Rightarrow> Machine" where
  "demo_machine b = \<lparr>ram = (\<lambda>_. b), pts = (\<lambda>_ _. 0), buddy = BuddyAllocator_default, kernel_pt = 0, timer_at = (\<lambda>n. n), reads = 0, next_arc = 0\<rparr>"

definition demo_task :: "unit Task" where
  "demo_task = \<lparr>uid = 0, pid = 1, ppid = 0, task_page = 0, nice = 0, task_ctx = (),
     page_allocs = [\<lparr>pa_arc = 0, pa_vpage = 16, pa_ppage = 300, pa_pages = 1, pa_flags = [P_Read, P_Write]\<rparr>,
       \<lparr>pa_arc = 1, pa_vpage = 17, pa_ppage = 200, pa_pages = 1, pa_flags = [P_Read, P_Write]\<rparr>],
     next_schedule = None, task_fds = FdTable_default\<rparr>"

lemma demo_task_ok: "allocs_ok (page_allocs demo_task)" "sorted_wrt phys_apart (page_allocs demo_task)"
  by (simp_all add: demo_task_def allocs_ok_def apart_def phys_apart_def PAGE_OFFSET_eq)

text \<open>Bytes at the border of the two allocations, and past the end of the second one.\<close>

lemma demo_task_ptr: "user_ptr (page_allocs demo_task) 69631 = Some ((300 + PAGE_OFFSET) * 4096 + 4095)"
  "user_ptr (page_allocs demo_task) 69632 = Some ((200 + PAGE_OFFSET) * 4096)" "user_ptr (page_allocs demo_task) 73728 = None"
  by (simp_all add: user_ptr_def demo_task_def holds_page_def byte_in_def page_div(3))

lemma demo_task_len: "mapped_len (page_allocs demo_task) 69631 2 = 2"
  using demo_task_ptr by (simp add: numeral_2_eq_2)

theorem copy_from_user_correct_witness:
  "copy_from_user (demo_machine 7) demo_task 69631 [0, 0] = Some (2, [7, 7])"
  using copy_from_user_correct [OF demo_task_ok(1), of 69631 "demo_machine 7" "[0, 0]"] demo_task_len demo_task_ptr
  by (simp add: upt_rec demo_machine_def)

text \<open>\<^verbatim>\<open>copy_to_user\<close> to a task whose allocations overlap neither in its address space nor in memory: it changes no byte of
  memory that is not one of the bytes of the task it was asked to write, it returns the number of bytes written, and
  \<^verbatim>\<open>copy_from_user\<close> from the same address then gives the written bytes back.\<close>

theorem copy_to_user_roundtrip:
  assumes "allocs_ok (page_allocs t)" "sorted_wrt phys_apart (page_allocs t)" "a < 2 ^ 64"
  shows "\<exists>k m'. copy_to_user m t a bs = Some (k, m') \<and> k = mapped_len (page_allocs t) a (length bs) \<and>
    (\<forall>buf. length buf = length bs \<longrightarrow> copy_from_user m' t a buf = Some (k, take k bs @ drop k buf)) \<and>
    (\<forall>p. (\<forall>i < k. user_ptr (page_allocs t) (a + i) \<noteq> Some p) \<longrightarrow> ram m' p = ram m p)"
proof (intro exI conjI allI impI)
  let ?as = "page_allocs t" and ?k = "mapped_len (page_allocs t) a (length bs)"
  let ?m' = "m\<lparr>ram := user_store (ram m) (page_allocs t) a bs\<rparr>"
  have inj: "x = y" if "user_ptr ?as x = Some p" "user_ptr ?as y = Some p" for x y p
    using user_ptr_inj [OF _ assms(2) that] assms(1) by (simp add: allocs_ok_def)
  show "copy_to_user m t a bs = Some (?k, ?m')"
    using copy_to_user_loop_spec [OF assms(1,3), of "ram m" bs] mapped_len_le [of ?as a "length bs"]
    by (simp add: copy_to_user_def usize_sub_def)
  have "map (\<lambda>i. ram ?m' (the (user_ptr ?as (a + i)))) [0..<?k] = take ?k bs"
  proof (rule nth_equalityI)
    fix i assume i: "i < length (map (\<lambda>i. ram ?m' (the (user_ptr ?as (a + i)))) [0..<?k])"
    then obtain p where "user_ptr ?as (a + i) = Some p" using mapped_len_mapped [of i ?as a "length bs"] by auto
    then show "map (\<lambda>i. ram ?m' (the (user_ptr ?as (a + i)))) [0..<?k] ! i = take ?k bs ! i"
      using user_store_at [OF inj, where bs = bs and i = i and a = a] i by simp
  qed (use mapped_len_le [of ?as a "length bs"] in simp)
  then show "copy_from_user ?m' t a buf = Some (?k, take ?k bs @ drop ?k buf)" if "length buf = length bs" for buf
    using copy_from_user_loop_spec [OF assms(1,3), of "ram ?m'" buf] that mapped_len_le [of ?as a "length bs"]
    by (simp add: copy_from_user_def usize_sub_def)
  have cut: "user_store (ram m) ?as a bs = user_store (ram m) ?as a (take ?k bs)"
  proof (cases "?k < length bs")
    case True
    then have d: "drop ?k bs = bs ! ?k # drop (Suc ?k) bs" "user_ptr ?as (a + ?k) = None"
      using mapped_len_stop [of ?as a "length bs"] by (simp_all add: Cons_nth_drop_Suc)
    have len: "length (take ?k bs) = ?k" using True by simp
    have "user_store (ram m) ?as a (take ?k bs @ drop ?k bs) = user_store (user_store (ram m) ?as a (take ?k bs)) ?as (a + length (take ?k bs)) (drop ?k bs)"
      by (rule user_store_append) (use mapped_len_mapped [of _ ?as a "length bs"] in auto)
    also have "\<dots> = user_store (ram m) ?as a (take ?k bs)" unfolding len d(1) using d(2) by simp
    finally show ?thesis by simp
  qed simp
  show "ram ?m' p = ram m p" if "\<forall>i < ?k. user_ptr ?as (a + i) \<noteq> Some p" for p
    using that user_store_other [of "take ?k bs" ?as a p "ram m"] unfolding cut [symmetric] by simp
qed simp

theorem copy_to_user_roundtrip_witness:
  "\<exists>m'. copy_to_user (demo_machine 7) demo_task 69631 [1, 2] = Some (2, m') \<and> copy_from_user m' demo_task 69631 [0, 0] = Some (2, [1, 2])"
proof -
  have "\<exists>k m'. copy_to_user (demo_machine 7) demo_task 69631 [1, 2] = Some (k, m') \<and> k = mapped_len (page_allocs demo_task) 69631 (length [1, 2 :: u8]) \<and>
      copy_from_user m' demo_task 69631 [0, 0] = Some (k, take k [1, 2] @ drop k [0, 0])"
    using copy_to_user_roundtrip [OF demo_task_ok, of 69631 "demo_machine 7" "[1, 2]"] by (fastforce simp del: mapped_len.simps)
  moreover have "mapped_len (page_allocs demo_task) 69631 (length [1, 2 :: u8]) = 2" using demo_task_len by (simp add: numeral_2_eq_2)
  ultimately have "\<exists>m'. copy_to_user (demo_machine 7) demo_task 69631 [1, 2] = Some (2, m') \<and>
      copy_from_user m' demo_task 69631 [0, 0] = Some (2, take 2 [1, 2] @ drop 2 [0, 0])" by metis
  then show ?thesis by simp
qed

section \<open>Strings\<close>

definition user_bytes :: "Machine \<Rightarrow> 'c Task \<Rightarrow> nat \<Rightarrow> nat \<Rightarrow> u8 list" where
  "user_bytes m t a n = map (\<lambda>i. ram m (the (user_ptr (page_allocs t) (a + i)))) [0..<mapped_len (page_allocs t) a n]"

lemma copy_from_user_bytes:
  assumes "allocs_ok (page_allocs t)" "a < 2 ^ 64"
  shows "\<exists>n buf. copy_from_user m t a (replicate k 0) = Some (n, buf) \<and> take n buf = user_bytes m t a k \<and>
    n = length (user_bytes m t a k)"
  using copy_from_user_loop_spec [OF assms, of "ram m" "replicate k 0"] mapped_len_le [of "page_allocs t" a k]
  by (simp add: copy_from_user_def usize_sub_def user_bytes_def)

text \<open>A loop that goes round without a change of what decides it never returns.\<close>

lemma copy_user_string_loop_stuck:
  assumes "allocs_ok (page_allocs t)" "a < 2 ^ 64" "length (user_bytes m t a 16) = 16" "0 \<notin> set (user_bytes m t a 16)"
  shows "copy_user_string_loop m t a s = None"
proof -
  obtain n buf where c: "copy_from_user m t a (replicate STRING_BUF_SIZE 0) = Some (n, buf)" "take n buf = user_bytes m t a 16" "n = 16"
    using copy_from_user_bytes [OF assms(1,2), of m 16] assms(3) by (auto simp: STRING_BUF_SIZE_def)
  have "copy_user_string_loop m' t' a' s' = Some r \<Longrightarrow> \<not> (m' = m \<and> t' = t \<and> a' = a)" for m' t' a' s' r
  proof (induction m' t' a' s' r rule: copy_user_string_loop.raw_induct [rotated, consumes 1, case_names round])
    case (round loop m' t' a' s' r)
    show ?case
    proof
      assume "m' = m \<and> t' = t \<and> a' = a"
      then have "loop m t a (s' @ user_bytes m t a 16) = Some r"
        using round(2) c assms(4) by (simp add: STRING_BUF_SIZE_def)
      with round(1) show False by blast
    qed
  qed
  then show ?thesis by (metis not_None_eq)
qed

lemma copy_user_string_spec:
  assumes "allocs_ok (page_allocs t)" "a < 2 ^ 64"
  shows "copy_user_string m t a =
    (if length (user_bytes m t a 16) = 16 \<and> 0 \<notin> set (user_bytes m t a 16) then None
     else Some (utf8_lossy (takeWhile (\<lambda>b. b \<noteq> 0) (user_bytes m t a 16))))"
proof (cases "length (user_bytes m t a 16) = 16 \<and> 0 \<notin> set (user_bytes m t a 16)")
  case True
  then show ?thesis using copy_user_string_loop_stuck [OF assms] by (simp add: copy_user_string_def)
next
  case False
  obtain n buf where c: "copy_from_user m t a (replicate STRING_BUF_SIZE 0) = Some (n, buf)" "take n buf = user_bytes m t a 16"
    "n = length (user_bytes m t a 16)"
    using copy_from_user_bytes [OF assms, of m 16] by (auto simp: STRING_BUF_SIZE_def)
  have "length (user_bytes m t a 16) \<le> 16" using mapped_len_le by (simp add: user_bytes_def)
  moreover have "bs = takeWhile (\<lambda>b. b \<noteq> 0) bs" if "0 \<notin> set bs" for bs :: "u8 list"
    using that by (intro sym [OF takeWhile_eq_all_conv [THEN iffD2]]) auto
  ultimately have "copy_user_string_loop m t a [] = Some (takeWhile (\<lambda>b. b \<noteq> 0) (user_bytes m t a 16))"
    using c False by (subst copy_user_string_loop.simps) (auto simp: STRING_BUF_SIZE_def Let_def)
  then show ?thesis using False by (auto simp: copy_user_string_def)
qed

text \<open>C26: \<^verbatim>\<open>copy_user_string\<close> of a task whose allocations do not overlap. When a zero byte or the end of what the task has
  comes within the first 16 bytes, the string is the bytes before it, read as UTF-8; when the first 16 bytes are all
  there and none of them is zero, \<^verbatim>\<open>copy_user_string\<close> never returns: it reads the same 16 bytes again and again.\<close>

theorem copy_user_string_correct:
  assumes "allocs_ok (page_allocs t)" "a < 2 ^ 64"
  shows "copy_user_string m t a =
    (if length (user_bytes m t a 16) = 16 \<and> 0 \<notin> set (user_bytes m t a 16) then None
     else Some (utf8_lossy (takeWhile (\<lambda>b. b \<noteq> 0) (user_bytes m t a 16))))"
  by (fact copy_user_string_spec [OF assms])

lemma demo_user_bytes: "user_bytes (demo_machine b) demo_task 65536 16 = replicate 16 b"
proof -
  have "(65536 + i) div 4096 = 16" if "i < 16" for i :: nat using that by (intro div_nat_eqI) simp_all
  then have "user_ptr (page_allocs demo_task) (65536 + i) \<noteq> None" if "i < 16" for i
    using that by (simp add: user_ptr_def demo_task_def holds_page_def page_div(3))
  then have "mapped_len (page_allocs demo_task) 65536 16 = 16"
    using mapped_len_add [of 16 "page_allocs demo_task" 65536 0] by simp
  then show ?thesis by (simp add: user_bytes_def demo_machine_def map_replicate_const)
qed

theorem copy_user_string_correct_witness:
  "copy_user_string (demo_machine 0) demo_task 65536 = Some [] \<and> copy_user_string (demo_machine 65) demo_task 65536 = None"
  using copy_user_string_correct [OF demo_task_ok(1), of 65536 "demo_machine 0"]
    copy_user_string_correct [OF demo_task_ok(1), of 65536 "demo_machine 65"]
  by (simp add: demo_user_bytes)

section \<open>Descriptors\<close>

text \<open>The descriptors of a task are numbered upwards and never used twice.\<close>

definition fds_ok :: "FdTable \<Rightarrow> bool" where
  "fds_ok t \<longleftrightarrow> bt_sorted (fd_files t) \<and> (\<forall>fd \<in> fst ` set (fd_files t). fd < max_fd t)"

lemma fds_ok_default: "fds_ok FdTable_default"
  by (simp add: fds_ok_def FdTable_default_def)

lemma FdTable_add_ok:
  assumes "fds_ok t" "max_fd t + 1 < 2 ^ 64"
  shows "\<exists>t'. FdTable_add t f = Some (max_fd t, t') \<and> fds_ok t' \<and> FdTable_get t (max_fd t) = None \<and>
    (\<forall>fd. FdTable_get t' fd = (if fd = max_fd t then Some f else FdTable_get t fd))"
proof -
  have "map_of (fd_files t) (max_fd t) = None" using assms(1) by (auto simp: fds_ok_def map_of_eq_None_iff)
  moreover have "fds_ok \<lparr>max_fd = max_fd t + 1, fd_files = bt_insert (max_fd t) f (fd_files t)\<rparr>"
    using assms(1) by (auto simp: fds_ok_def bt_insert_sorted bt_insert_keys less_SucI)
  ultimately show ?thesis using assms by (simp add: FdTable_add_def FdTable_get_def bt_insert_lookup fds_ok_def)
qed

lemma FdTable_set_ok: "fds_ok t \<Longrightarrow> FdTable_get t fd \<noteq> None \<Longrightarrow> fds_ok (FdTable_set t fd f)"
  by (auto simp: fds_ok_def FdTable_set_def FdTable_get_def bt_insert_sorted bt_insert_keys dest!: map_of_SomeD)

lemma FdTable_remove_ok: "fds_ok t \<Longrightarrow> fds_ok (FdTable_remove t fd) \<and> FdTable_get (FdTable_remove t fd) fd = None"
  by (auto simp: fds_ok_def FdTable_remove_def FdTable_get_def bt_remove_sorted bt_remove_keys bt_remove_lookup)

end
