(* ===== verification/Scheduler.thy ===== *)
theory Scheduler
  imports Task
begin

text \<open>
  The scheduler (\<^verbatim>\<open>src/src/task.rs\<close>): loading a program, forking, killing and choosing the next task.

  \<open>vruntime\<close> is the ordered set of pairs of virtual run time and pid, as a sorted list. \<open>schedule\<close> is a loop that goes round
  while the task it takes still sleeps, so it is a partial function; the lemmas show when it returns and what it chooses.
\<close>

section \<open>Ordered sets\<close>

fun bs_insert :: "'a::linorder \<Rightarrow> 'a list \<Rightarrow> 'a list" where
  "bs_insert x [] = [x]"
| "bs_insert x (y # ys) = (if x < y then x # y # ys else if x = y then y # ys else y # bs_insert x ys)"

definition bs_sorted :: "'a::linorder list \<Rightarrow> bool" where
  "bs_sorted xs \<longleftrightarrow> sorted_wrt (<) xs"

lemma bs_insert_set [simp]: "set (bs_insert x xs) = insert x (set xs)"
  by (induction x xs rule: bs_insert.induct) auto

lemma bs_insert_ne [simp]: "bs_insert x xs \<noteq> []"
  by (cases xs) auto

lemma bs_insert_sorted: "bs_sorted xs \<Longrightarrow> bs_sorted (bs_insert x xs)"
  by (induction x xs rule: bs_insert.induct) (auto simp: bs_sorted_def)

section \<open>The scheduler\<close>

record 'c Scheduler =
  tasks :: "(nat \<times> 'c Task) list"
  vruntime :: "(nat \<times> nat) list"
  current_pid :: nat
  max_pid :: nat
  trap_stack :: nat

definition current_task :: "'c Scheduler \<Rightarrow> 'c Task option" where
  "current_task s = map_of (tasks s) (current_pid s)"

definition set_task :: "'c Scheduler \<Rightarrow> nat \<Rightarrow> 'c Task \<Rightarrow> 'c Scheduler" where
  \<comment> \<open>what a change through \<open>get_mut\<close>, or an insert, leaves in the map\<close>
  "set_task s p t = s\<lparr>tasks := bt_insert p t (tasks s)\<rparr>"

definition isize_as_usize :: "int \<Rightarrow> nat" where
  "isize_as_usize i = nat (i mod 2 ^ 64)"

partial_function (option) schedule :: "clock \<Rightarrow> 'c Scheduler \<Rightarrow> Machine \<Rightarrow> ('c Scheduler \<times> Machine) option" where
  "schedule get_time s m =
     (case vruntime s of
        [] \<Rightarrow> None
      | (vr, p) # rest \<Rightarrow> do {
          task \<leftarrow> map_of (tasks s) p;
          vr \<leftarrow> usize_add vr (isize_as_usize (nice task + NICE_MAX));
          let s = s\<lparr>vruntime := bs_insert (vr, p) rest, current_pid := p\<rparr>;
          (case next_schedule task of
             None \<Rightarrow> Some (s, m)
           | Some next \<Rightarrow> do {
               (now, m) \<leftarrow> get_time m;
               if next \<le> now then Some (set_task s p (task\<lparr>next_schedule := None\<rparr>), m)
               else schedule get_time s m
             })
        })"

section \<open>Starting and ending tasks\<close>

definition write_ram :: "(nat \<Rightarrow> u8) \<Rightarrow> nat \<Rightarrow> u8 list \<Rightarrow> nat \<Rightarrow> u8" where
  "write_ram mem dst bs = (\<lambda>a. if dst \<le> a \<and> a < dst + length bs then bs ! (a - dst) else mem a)"

definition new_alloc :: "Machine \<Rightarrow> nat \<Rightarrow> nat \<Rightarrow> nat \<Rightarrow> PFlags list \<Rightarrow> PageAllocInfo \<times> Machine" where
  \<comment> \<open>\<open>Arc::new\<close>\<close>
  "new_alloc m v p n fl = (\<lparr>pa_arc = next_arc m, pa_vpage = v, pa_ppage = p, pa_pages = n, pa_flags = fl\<rparr>, m\<lparr>next_arc := next_arc m + 1\<rparr>)"

text \<open>Pages for a mapping of \<open>n\<close> pages, from the global allocator, as a physical page.\<close>

definition alloc_phys :: "Machine \<Rightarrow> nat \<Rightarrow> (nat \<times> Machine) option" where
  "alloc_phys m n = do {
     k \<leftarrow> ceil_to_power_2 n;
     (v, m) \<leftarrow> kalloc_pages m k;
     p \<leftarrow> phys_from_virt PAGE_OFFSET v;
     Some (p, m)
   }"

text \<open>One program header of \<^verbatim>\<open>create_from_elf\<close>. What \<^verbatim>\<open>core::ptr::copy\<close> would read behind the end of the file is no value.\<close>

definition load_segment ::
  "Mapper \<Rightarrow> u8 list \<Rightarrow> table \<Rightarrow> Program \<Rightarrow> PageAllocInfo list \<Rightarrow> Machine \<Rightarrow> (PageAllocInfo list \<times> Machine) option" where
  "load_segment M elf_bytes root prog as m =
     (if p_type prog \<noteq> PT_Load then Some (as, m)
      else do {
        let v_page = drop_bit PAGE_BITS (v_addr prog);
        let v_pages = div_ceil (p_memsz prog) PAGE_SIZE;
        (p_page, m) \<leftarrow> alloc_phys m v_pages;
        let (a, m) = new_alloc m v_page p_page v_pages (p_flags prog);
        m \<leftarrow> (if P_Exec \<in> set (p_flags prog) then map_text_u M m root v_page p_page v_pages
              else if P_Write \<in> set (p_flags prog) then map_data_u M m root v_page p_page v_pages
              else map_rodata_u M m root v_page p_page v_pages);
        let p_off = v_addr prog AND (PAGE_SIZE - 1);
        rust_assert (p_offset prog \<le> length elf_bytes);
        src \<leftarrow> slice_opt (drop (p_offset prog) elf_bytes) 0 (p_filesz prog);
        v \<leftarrow> virt_from_phys PAGE_OFFSET p_page;
        start \<leftarrow> usize_mul v PAGE_SIZE;
        dst \<leftarrow> usize_add start p_off;
        Some (as @ [a], m\<lparr>ram := write_ram (ram m) dst src\<rparr>)
      })"

fun load_segments ::
  "Mapper \<Rightarrow> u8 list \<Rightarrow> table \<Rightarrow> Program list \<Rightarrow> PageAllocInfo list \<Rightarrow> Machine \<Rightarrow> (PageAllocInfo list \<times> Machine) option" where
  "load_segments M elf_bytes root [] as m = Some (as, m)"
| "load_segments M elf_bytes root (prog # progs) as m = do {
     (as, m) \<leftarrow> load_segment M elf_bytes root prog as m;
     load_segments M elf_bytes root progs as m
   }"

text \<open>A page table with what every task has mapped.\<close>

definition task_page_table :: "Linker \<Rightarrow> Mapper \<Rightarrow> 'c Scheduler \<Rightarrow> Machine \<Rightarrow> table \<Rightarrow> Machine option" where
  "task_page_table lds M s m root = do {
     m \<leftarrow> map_kernel_region lds M m root;
     p \<leftarrow> phys_from_virt PAGE_OFFSET (trap_stack s);
     map_data M m root (trap_stack s) p 16
   }"

text \<open>The end of \<^verbatim>\<open>create_from_elf\<close> and \<^verbatim>\<open>fork\<close>: the child of the current task is entered with the least virtual run time.\<close>

definition add_child :: "'c Scheduler \<Rightarrow> table \<Rightarrow> 'c \<Rightarrow> PageAllocInfo list \<Rightarrow> (nat \<times> 'c Scheduler) option" where
  "add_child s root ctx as = do {
     p \<leftarrow> usize_add (max_pid s) 1;
     let s = s\<lparr>max_pid := p\<rparr>;
     cur \<leftarrow> current_task s;
     let s = set_task s p \<lparr>uid = uid cur, pid = p, ppid = pid cur, task_page = root, nice = nice cur, task_ctx = ctx,
       page_allocs = as, next_schedule = None, task_fds = FdTable_default\<rparr>;
     (case vruntime s of
        [] \<Rightarrow> None
      | (min_vruntime, _) # _ \<Rightarrow> Some (p, s\<lparr>vruntime := bs_insert (min_vruntime, p) (vruntime s)\<rparr>))
   }"

definition create_from_elf ::
  "Linker \<Rightarrow> 'c Arch \<Rightarrow> 'c Scheduler \<Rightarrow> Machine \<Rightarrow> u8 list \<Rightarrow> ((ElfError + nat) \<times> 'c Scheduler \<times> Machine) option" where
  "create_from_elf lds A s m elf_bytes = do {
     r \<leftarrow> elf_parse elf_bytes;
     (case r of
        Inl err \<Rightarrow> Some (Inl err, s, m)
      | Inr elf \<Rightarrow> do {
          let M = arch_mapper A;
          (root, m) \<leftarrow> PageMapper_new m;
          (stack, m) \<leftarrow> kalloc_pages m USER_STACK_PAGES;
          m \<leftarrow> task_page_table lds M s m root;
          p \<leftarrow> phys_from_virt PAGE_OFFSET stack;
          m \<leftarrow> map_data_u M m root stack p USER_STACK_PAGES;
          let (a, m) = new_alloc m stack p USER_STACK_PAGES [P_Read, P_Write];
          (as, m) \<leftarrow> load_segments M elf_bytes root (p_headers elf) [a] m;
          stack_top \<leftarrow> usize_add stack USER_STACK_PAGES;
          (child, s) \<leftarrow> add_child s root (init_context A (e_entry elf) (usize_shl stack_top PAGE_BITS)) as;
          Some (Inr child, s, m)
        })
   }"

text \<open>The page a leaf entry leads the hardware to: 44 bits of an SV39 entry, 36 of a VMSAv8-64 descriptor.\<close>

definition leaf_page :: "Mapper \<Rightarrow> u64 \<Rightarrow> nat" where
  "leaf_page M e = Entry_page_number M e mod 2 ^ (if LEVEL M = 3 then 44 else 36)"

text \<open>What a read of an address gives while the page table of the kernel is in use, as it is in the system calls: an address
  that is not mapped there is a fault in the kernel, which no handler ends.\<close>

definition kernel_translate :: "Mapper \<Rightarrow> Machine \<Rightarrow> nat \<Rightarrow> nat option" where
  "kernel_translate M m a = do {
     root \<leftarrow> virt_from_phys PAGE_OFFSET (kernel_pt m);
     e \<leftarrow> lookup M (pts m) (PageMapper_from_root root) (a div PAGE_SIZE);
     Some ((leaf_page M e + PAGE_OFFSET) * PAGE_SIZE + a mod PAGE_SIZE)
   }"

fun read_virtual :: "Mapper \<Rightarrow> Machine \<Rightarrow> nat \<Rightarrow> nat \<Rightarrow> u8 list option" where
  "read_virtual M m a 0 = Some []"
| "read_virtual M m a (Suc n) = do {
     p \<leftarrow> kernel_translate M m a;
     bs \<leftarrow> read_virtual M m (a + 1) n;
     Some (ram m p # bs)
   }"

text \<open>One allocation of the parent in \<^verbatim>\<open>fork\<close>.\<close>

definition fork_alloc ::
  "Mapper \<Rightarrow> table \<Rightarrow> PageAllocInfo \<Rightarrow> PageAllocInfo list \<Rightarrow> Machine \<Rightarrow> (PageAllocInfo list \<times> Machine) option" where
  "fork_alloc M root a as m =
     (if P_Exec \<in> set (pa_flags a) then do {
        m \<leftarrow> map_text_u M m root (pa_vpage a) (pa_ppage a) (pa_pages a);
        Some (as @ [a], m)
      }
      else if P_Write \<in> set (pa_flags a) then do {
        (p_page, m) \<leftarrow> alloc_phys m (pa_pages a);
        let (a', m) = new_alloc m (pa_vpage a) p_page (pa_pages a) (pa_flags a);
        m \<leftarrow> map_data_u M m root (pa_vpage a) p_page (pa_pages a);
        v \<leftarrow> virt_from_phys PAGE_OFFSET p_page;
        src \<leftarrow> read_virtual M m (usize_shl (pa_vpage a) PAGE_BITS) (usize_shl (pa_pages a) PAGE_BITS);
        Some (as @ [a'], m\<lparr>ram := write_ram (ram m) (usize_shl v PAGE_BITS) src\<rparr>)
      }
      else do {
        m \<leftarrow> map_rodata_u M m root (pa_vpage a) (pa_ppage a) (pa_pages a);
        Some (as @ [a], m)
      })"

fun fork_allocs ::
  "Mapper \<Rightarrow> table \<Rightarrow> PageAllocInfo list \<Rightarrow> PageAllocInfo list \<Rightarrow> Machine \<Rightarrow> (PageAllocInfo list \<times> Machine) option" where
  "fork_allocs M root [] as m = Some (as, m)"
| "fork_allocs M root (a # rest) as m = do {
     (as, m) \<leftarrow> fork_alloc M root a as m;
     fork_allocs M root rest as m
   }"

definition fork :: "Linker \<Rightarrow> 'c Arch \<Rightarrow> 'c Scheduler \<Rightarrow> Machine \<Rightarrow> (nat \<times> 'c Scheduler \<times> Machine) option" where
  "fork lds A s m = do {
     (root, m) \<leftarrow> PageMapper_new m;
     m \<leftarrow> task_page_table lds (arch_mapper A) s m root;
     cur \<leftarrow> current_task s;
     (as, m) \<leftarrow> fork_allocs (arch_mapper A) root (page_allocs cur) [] m;
     (child, s) \<leftarrow> add_child s root (task_ctx cur) as;
     Some (child, s, m)
   }"

definition kernel_fork :: "'c Arch \<Rightarrow> 'c Scheduler \<Rightarrow> Machine \<Rightarrow> ('c Scheduler \<times> Machine) option" where
  "kernel_fork A s m = do {
     cur \<leftarrow> current_task s;
     p \<leftarrow> usize_add (max_pid s) 1;
     (root, m) \<leftarrow> PageMapper_new m;
     Some (set_task s p \<lparr>uid = uid cur, pid = p, ppid = pid cur, task_page = root, nice = nice cur, task_ctx = Context_default A,
       page_allocs = [], next_schedule = None, task_fds = FdTable_default\<rparr>\<lparr>max_pid := p\<rparr>, m)
   }"

text \<open>\<^verbatim>\<open>Task::drop\<close>. \<open>ts\<close> are the tasks that are left.\<close>

definition strong_count :: "'c Task list \<Rightarrow> nat \<Rightarrow> nat" where
  "strong_count ts a = length (filter (\<lambda>x. pa_arc x = a) (concat (map page_allocs ts)))"

fun free_allocs :: "(nat \<Rightarrow> nat) \<Rightarrow> PageAllocInfo list \<Rightarrow> Machine \<Rightarrow> Machine option" where
  "free_allocs refs [] m = Some m"
| "free_allocs refs (a # as) m =
     (if refs (pa_arc a) = 1 then do {
        v \<leftarrow> virt_from_phys PAGE_OFFSET (pa_ppage a);
        n \<leftarrow> ceil_to_power_2 (pa_pages a);
        m \<leftarrow> kfree_pages m v n;
        free_allocs refs as m
      }
      else free_allocs refs as m)"

definition drop_task :: "Mapper \<Rightarrow> 'c Task list \<Rightarrow> 'c Task \<Rightarrow> Machine \<Rightarrow> Machine option" where
  "drop_task M ts t m = do {
     m \<leftarrow> page_destroy M m (task_page t);
     free_allocs (strong_count (t # ts)) (page_allocs t) m
   }"

definition kill :: "'c Arch \<Rightarrow> 'c Scheduler \<Rightarrow> Machine \<Rightarrow> nat \<Rightarrow> ('c Scheduler \<times> Machine) option" where
  "kill A s m p = do {
     m \<leftarrow> (case map_of (tasks s) p of
             None \<Rightarrow> Some m
           | Some t \<Rightarrow> drop_task (arch_mapper A) (map snd (bt_remove p (tasks s))) t m);
     schedule (get_sys_time A) (s\<lparr>tasks := bt_remove p (tasks s), vruntime := filter (\<lambda>(_, this_pid). this_pid \<noteq> p) (vruntime s)\<rparr>) m
   }"

text \<open>\<^verbatim>\<open>switch_task\<close>; \<open>ctx\<close> is what the trap handler has saved, the result what it will restore.\<close>

definition switch_task :: "'c Arch \<Rightarrow> 'c Scheduler \<Rightarrow> Machine \<Rightarrow> 'c \<Rightarrow> ('c Task \<times> 'c \<times> 'c Scheduler \<times> Machine) option" where
  "switch_task A s m ctx = do {
     cur \<leftarrow> current_task s;
     (s, m) \<leftarrow> schedule (get_sys_time A) (set_task s (current_pid s) (cur\<lparr>task_ctx := ctx\<rparr>)) m;
     next \<leftarrow> current_task s;
     Some (next, task_ctx next, s, m)
   }"

definition task_init :: "'c Arch \<Rightarrow> Machine \<Rightarrow> ('c Scheduler \<times> Machine) option" where
  "task_init A m = do {
     (stk, m) \<leftarrow> kalloc_pages m 16;
     root \<leftarrow> virt_from_phys PAGE_OFFSET (kernel_pt m);
     let kernel_task = \<lparr>uid = 0, pid = KERNEL_PID, ppid = 0, task_page = PageMapper_from_root root, nice = NICE_DEFAULT,
       task_ctx = Context_default A, page_allocs = [], next_schedule = None, task_fds = FdTable_default\<rparr>;
     Some (\<lparr>tasks = [(KERNEL_PID, kernel_task)], vruntime = [(0, KERNEL_PID)], current_pid = KERNEL_PID, max_pid = 0,
       trap_stack = stk\<rparr>, m)
   }"

section \<open>The invariant\<close>

definition sched_ok :: "'c Scheduler \<Rightarrow> bool" where
  "sched_ok s \<longleftrightarrow> bt_sorted (tasks s) \<and> bs_sorted (vruntime s) \<and> distinct (map snd (vruntime s)) \<and>
     snd ` set (vruntime s) \<subseteq> fst ` set (tasks s) \<and> (\<forall>p \<in> fst ` set (tasks s). p \<le> max_pid s) \<and>
     (\<forall>p t. map_of (tasks s) p = Some t \<longrightarrow> pid t = p)"

lemma sched_okD:
  assumes "sched_ok s"
  shows "bt_sorted (tasks s)" "bs_sorted (vruntime s)" "distinct (map snd (vruntime s))"
    "snd ` set (vruntime s) \<subseteq> fst ` set (tasks s)" "p \<in> fst ` set (tasks s) \<Longrightarrow> p \<le> max_pid s"
    "map_of (tasks s) p = Some t \<Longrightarrow> pid t = p"
  using assms unfolding sched_ok_def by blast+

lemma vruntime_task:
  assumes "sched_ok s" "(vr, p) \<in> set (vruntime s)"
  obtains t where "map_of (tasks s) p = Some t"
proof -
  have "p \<in> fst ` set (tasks s)" using sched_okD(4) [OF assms(1)] assms(2) by force
  then show ?thesis using that map_of_key by metis
qed

text \<open>Taking the first entry out and putting it back with another run time.\<close>

lemma requeue_ok:
  assumes "sched_ok s" "vruntime s = (vr, p) # rest"
  shows "sched_ok (s\<lparr>vruntime := bs_insert (vr', p) rest, current_pid := p\<rparr>)"
    "snd ` set (bs_insert (vr', p) rest) = snd ` set (vruntime s)"
proof -
  have r: "bs_sorted rest" "distinct (map snd rest)" "p \<notin> snd ` set rest" using sched_okD(2,3) [OF assms(1)] assms(2) by (auto simp: bs_sorted_def)
  have "(vr', p) \<notin> set rest" using r(3) by force
  then have "distinct (map snd (bs_insert (vr', p) rest))" using r(2,3)
  proof (induction rest)
    case (Cons y ys)
    then show ?case by (auto simp: image_iff)
  qed simp
  then show "sched_ok (s\<lparr>vruntime := bs_insert (vr', p) rest, current_pid := p\<rparr>)"
    using assms bs_insert_sorted [OF r(1)] by (simp add: sched_ok_def)
  show "snd ` set (bs_insert (vr', p) rest) = snd ` set (vruntime s)" using assms(2) by simp
qed

lemma set_task_ok:
  assumes "sched_ok s" "p \<in> fst ` set (tasks s)" "pid t = p"
  shows "sched_ok (set_task s p t)" "map_of (tasks (set_task s p t)) = (map_of (tasks s))(p \<mapsto> t)"
proof -
  have "bt_sorted (bt_insert p t (tasks s))" "fst ` set (bt_insert p t (tasks s)) = fst ` set (tasks s)"
    "map_of (bt_insert p t (tasks s)) = (map_of (tasks s))(p \<mapsto> t)"
    using sched_okD(1) [OF assms(1)] assms(2) by (simp_all add: bt_insert_sorted bt_insert_keys bt_insert_lookup insert_absorb)
  then show "sched_ok (set_task s p t)" "map_of (tasks (set_task s p t)) = (map_of (tasks s))(p \<mapsto> t)"
    using assms(1,3) by (simp_all add: sched_ok_def set_task_def)
qed

section \<open>Choosing the next task\<close>

text \<open>A clock that can always be read and has passed every wake-up time from its reading number \<open>N\<close> on.\<close>

definition clock_ok :: "clock \<Rightarrow> nat \<Rightarrow> nat \<Rightarrow> Machine \<Rightarrow> bool" where
  "clock_ok get_time N T m \<longleftrightarrow> (\<forall>k. \<exists>now. get_time (m\<lparr>reads := k\<rparr>) = Some (now, m\<lparr>reads := Suc k\<rparr>) \<and> (N \<le> k \<longrightarrow> T \<le> now))"

lemma clock_ok_read:
  assumes "clock_ok get_time N T m"
  obtains now where "get_time m = Some (now, m\<lparr>reads := Suc (reads m)\<rparr>)" "N \<le> reads m \<Longrightarrow> T \<le> now"
    "clock_ok get_time N T (m\<lparr>reads := Suc (reads m)\<rparr>)"
proof -
  have m: "m\<lparr>reads := reads m\<rparr> = m" by simp
  obtain now where "get_time (m\<lparr>reads := reads m\<rparr>) = Some (now, m\<lparr>reads := Suc (reads m)\<rparr>)" "N \<le> reads m \<longrightarrow> T \<le> now"
    using assms unfolding clock_ok_def by blast
  moreover have "clock_ok get_time N T (m\<lparr>reads := Suc (reads m)\<rparr>)" using assms by (simp add: clock_ok_def)
  ultimately show ?thesis using that unfolding m by blast
qed

definition nices_ok :: "'c Scheduler \<Rightarrow> bool" where
  "nices_ok s \<longleftrightarrow> (\<forall>p t. map_of (tasks s) p = Some t \<longrightarrow> - NICE_MAX \<le> nice t \<and> nice t \<le> NICE_MAX)"

lemma nice_step: "- NICE_MAX \<le> n \<Longrightarrow> n \<le> NICE_MAX \<Longrightarrow> isize_as_usize (n + NICE_MAX) = nat (n + NICE_MAX) \<and> nat (n + NICE_MAX) \<le> 38"
  by (simp add: isize_as_usize_def NICE_MAX_def)

text \<open>What \<open>schedule\<close> promises: the chosen task is ready, it had the least virtual run time of all when it was taken, nothing
  changes but its wake-up time, and virtual run times do not fall.\<close>

definition chosen :: "'c Scheduler \<Rightarrow> 'c Scheduler \<Rightarrow> nat \<Rightarrow> bool" where
  "chosen s s' now \<longleftrightarrow> (\<exists>t vr. map_of (tasks s) (current_pid s') = Some t \<and>
     (\<forall>nx. next_schedule t = Some nx \<longrightarrow> nx \<le> now) \<and>
     map_of (tasks s') = (map_of (tasks s))(current_pid s' \<mapsto> t\<lparr>next_schedule := None\<rparr>) \<and>
     (vr + nat (nice t + NICE_MAX), current_pid s') \<in> set (vruntime s') \<and>
     (\<forall>(vq, q) \<in> set (vruntime s'). q \<noteq> current_pid s' \<longrightarrow> (vr, current_pid s') < (vq, q)) \<and>
     snd ` set (vruntime s') = snd ` set (vruntime s) \<and>
     (\<forall>v v' q. (v, q) \<in> set (vruntime s) \<and> (v', q) \<in> set (vruntime s') \<longrightarrow> v \<le> v'))"

lemma vruntime_unique: "sched_ok s \<Longrightarrow> (v, q) \<in> set (vruntime s) \<Longrightarrow> (v', q) \<in> set (vruntime s) \<Longrightarrow> v = v'"
proof -
  assume s: "sched_ok s" "(v, q) \<in> set (vruntime s)" "(v', q) \<in> set (vruntime s)"
  have "inj_on snd (set (vruntime s))" using sched_okD(3) [OF s(1)] by (simp add: distinct_map)
  from inj_onD [OF this _ s(2,3)] show "v = v'" by simp
qed

lemma requeue_le:
  assumes "sched_ok s" "vruntime s = (vr, p) # rest" "vr \<le> vr'"
    and "(v, q) \<in> set (vruntime s)" "(v', q) \<in> set (vruntime (s\<lparr>vruntime := bs_insert (vr', p) rest, current_pid := c\<rparr>))"
  shows "v \<le> v'"
proof -
  have "(v', q) = (vr', p) \<or> (v', q) \<in> set (vruntime s)" "(vr, p) \<in> set (vruntime s)" using assms(2,5) by auto
  then show ?thesis using vruntime_unique [OF assms(1) assms(4)] assms(3) by auto
qed

text \<open>The first entry is ready.\<close>

lemma chosen_first:
  assumes "sched_ok s" "vruntime s = (vr, p) # rest" "map_of (tasks s) p = Some t" "\<forall>nx. next_schedule t = Some nx \<longrightarrow> nx \<le> now"
    and "vr' = vr + nat (nice t + NICE_MAX)" "s1 = s\<lparr>vruntime := bs_insert (vr', p) rest, current_pid := p\<rparr>"
  shows "chosen s (set_task s1 p (t\<lparr>next_schedule := None\<rparr>)) now" "sched_ok (set_task s1 p (t\<lparr>next_schedule := None\<rparr>))"
proof -
  have ok1: "sched_ok s1" using requeue_ok(1) [OF assms(1,2)] assms(6) by simp
  have p: "p \<in> fst ` set (tasks s1)" "pid (t\<lparr>next_schedule := None\<rparr>) = p"
    using map_of_SomeD [OF assms(3)] sched_okD(6) [OF assms(1,3)] by (force simp: assms(6))+
  note set = set_task_ok [OF ok1 p]
  show "sched_ok (set_task s1 p (t\<lparr>next_schedule := None\<rparr>))" by (fact set(1))
  have "\<forall>(vq, q) \<in> set rest. (vr, p) < (vq, q)" using sched_okD(2) [OF assms(1)] assms(2) by (auto simp: bs_sorted_def)
  moreover have "v \<le> v'" if "(v, q) \<in> set (vruntime s)" "(v', q) \<in> set (vruntime s1)" for v v' q
    using requeue_le [OF assms(1,2) _ that [unfolded assms(6)]] assms(5) by simp
  ultimately show "chosen s (set_task s1 p (t\<lparr>next_schedule := None\<rparr>)) now"
    unfolding chosen_def using assms(3,4,5) set(2) requeue_ok(2) [OF assms(1,2), of vr']
    by (intro exI [of _ t] exI [of _ vr]) (auto simp: set_task_def assms(6))
qed

text \<open>The first entry still sleeps: what holds after the rest of the rounds holds for all of them.\<close>

lemma chosen_later:
  assumes "sched_ok s" "vruntime s = (vr, p) # rest" "vr \<le> vr'" "s1 = s\<lparr>vruntime := bs_insert (vr', p) rest, current_pid := p\<rparr>"
    "chosen s1 s' now"
  shows "chosen s s' now"
proof -
  have keys: "snd ` set (vruntime s1) = snd ` set (vruntime s)" using requeue_ok(2) [OF assms(1,2)] assms(4) by simp
  have up: "v \<le> v'" if v: "(v, q) \<in> set (vruntime s)" and v': "(v', q) \<in> set (vruntime s')" for v v' q
  proof -
    have "q \<in> snd ` set (vruntime s1)" unfolding keys using v by force
    then obtain v1 where v1: "(v1, q) \<in> set (vruntime s1)" by force
    then have "v1 \<le> v'" using assms(5) v' unfolding chosen_def by blast
    moreover have "v \<le> v1" using requeue_le [OF assms(1,2,3) v v1 [unfolded assms(4)]] .
    ultimately show ?thesis by simp
  qed
  obtain t vr where c: "map_of (tasks s1) (current_pid s') = Some t" "\<forall>nx. next_schedule t = Some nx \<longrightarrow> nx \<le> now"
    "map_of (tasks s') = (map_of (tasks s1))(current_pid s' \<mapsto> t\<lparr>next_schedule := None\<rparr>)"
    "(vr + nat (nice t + NICE_MAX), current_pid s') \<in> set (vruntime s')"
    "\<forall>(vq, q) \<in> set (vruntime s'). q \<noteq> current_pid s' \<longrightarrow> (vr, current_pid s') < (vq, q)"
    "snd ` set (vruntime s') = snd ` set (vruntime s1)"
    using assms(5) unfolding chosen_def by blast
  have "tasks s1 = tasks s" using assms(4) by simp
  then show ?thesis unfolding chosen_def using c up keys by (intro exI [of _ t] exI [of _ vr]) auto
qed

lemma schedule_run:
  assumes "sched_ok s" "nices_ok s" "vruntime s \<noteq> []" "clock_ok get_time N T m"
    and "\<And>p t nx. map_of (tasks s) p = Some t \<Longrightarrow> next_schedule t = Some nx \<Longrightarrow> nx \<le> T"
    and "\<forall>(vr, p) \<in> set (vruntime s). vr + 38 * Suc (N - reads m) < 2 ^ 64"
  shows "\<exists>s' m' now. schedule get_time s m = Some (s', m') \<and> sched_ok s' \<and> chosen s s' now \<and> max_pid s' = max_pid s \<and> trap_stack s' = trap_stack s"
  using assms
proof (induction "N - reads m" arbitrary: s m rule: less_induct)
  case less
  obtain vr p rest where v: "vruntime s = (vr, p) # rest" using less.prems(3) by (cases "vruntime s") auto
  obtain t where t: "map_of (tasks s) p = Some t" using vruntime_task [OF less.prems(1), of vr p] v by auto
  define vr' where "vr' = vr + nat (nice t + NICE_MAX)"
  define s1 where "s1 = s\<lparr>vruntime := bs_insert (vr', p) rest, current_pid := p\<rparr>"
  have n: "isize_as_usize (nice t + NICE_MAX) = nat (nice t + NICE_MAX)" "vr' \<le> vr + 38"
    using nice_step less.prems(2) t unfolding nices_ok_def vr'_def by auto
  have vr: "vr + 38 * Suc (N - reads m) < 2 ^ 64" using less.prems(6) v by auto
  then have "vr' < 2 ^ 64" using n(2) by simp
  then have add: "usize_add vr (isize_as_usize (nice t + NICE_MAX)) = Some vr'" unfolding n(1) by (simp add: usize_add_def vr'_def)
  note first = chosen_first [OF less.prems(1) v t _ vr'_def s1_def]
  show ?case
  proof (cases "next_schedule t")
    case None
    have "map_of (tasks s1) = map_of (tasks (set_task s1 p (t\<lparr>next_schedule := None\<rparr>)))"
      "vruntime (set_task s1 p (t\<lparr>next_schedule := None\<rparr>)) = vruntime s1" "current_pid (set_task s1 p (t\<lparr>next_schedule := None\<rparr>)) = current_pid s1"
      using t None sched_okD(1) [OF less.prems(1)] by (auto simp: set_task_def s1_def bt_insert_lookup fun_eq_iff)
    then have "chosen s s1 0" using first(1) [of 0] None unfolding chosen_def by simp
    moreover have "schedule get_time s m = Some (s1, m)"
      using v t add None by (subst schedule.simps) (simp add: s1_def)
    ultimately show ?thesis using requeue_ok(1) [OF less.prems(1) v] by (auto simp: s1_def)
  next
    case (Some nx)
    obtain now where now: "get_time m = Some (now, m\<lparr>reads := Suc (reads m)\<rparr>)" "N \<le> reads m \<Longrightarrow> T \<le> now"
      "clock_ok get_time N T (m\<lparr>reads := Suc (reads m)\<rparr>)" using clock_ok_read [OF less.prems(4)] by blast
    show ?thesis
    proof (cases "nx \<le> now")
      case True
      then have "schedule get_time s m = Some (set_task s1 p (t\<lparr>next_schedule := None\<rparr>), m\<lparr>reads := Suc (reads m)\<rparr>)"
        using v t add Some now(1) by (subst schedule.simps) (simp add: s1_def)
      then show ?thesis using first [of now] True Some by (auto simp: set_task_def s1_def)
    next
      case False
      let ?m = "m\<lparr>reads := Suc (reads m)\<rparr>"
      have "\<not> N \<le> reads m" using now(2) less.prems(5) [OF t Some] False by auto
      then have dec: "N - reads ?m < N - reads m" "N - reads m = Suc (N - reads ?m)" by auto
      have bound: "\<forall>(vq, q) \<in> set (vruntime s1). vq + 38 * Suc (N - reads ?m) < 2 ^ 64"
        using less.prems(6) vr n(2) v unfolding dec(2) by (auto simp: s1_def)
      have "sched_ok s1" using requeue_ok(1) [OF less.prems(1) v] by (simp add: s1_def)
      moreover have "nices_ok s1" using less.prems(2) by (simp add: nices_ok_def s1_def)
      moreover have "vruntime s1 \<noteq> []" by (simp add: s1_def)
      ultimately obtain s' m' now' where IH: "schedule get_time s1 ?m = Some (s', m')" "sched_ok s'" "chosen s1 s' now'"
        "max_pid s' = max_pid s1" "trap_stack s' = trap_stack s1"
        using less.hyps [OF dec(1) _ _ _ now(3) _ bound] less.prems(5) by (auto simp: s1_def)
      have "schedule get_time s m = schedule get_time s1 ?m"
        using v t add Some now(1) False by (subst schedule.simps) (simp add: s1_def)
      moreover have "vr \<le> vr'" by (simp add: vr'_def)
      ultimately show ?thesis using IH chosen_later [OF less.prems(1) v _ s1_def IH(3)] by (auto simp: s1_def)
    qed
  qed
qed


definition demo_sched_task :: "nat \<Rightarrow> int \<Rightarrow> nat option \<Rightarrow> riscv_context Task" where
  "demo_sched_task p n nx = \<lparr>uid = 0, pid = p, ppid = 0, task_page = 0, nice = n, task_ctx = riscv_context_default, page_allocs = [],
     next_schedule = nx, task_fds = FdTable_default\<rparr>"

definition demo_sched :: "riscv_context Scheduler" where
  "demo_sched = \<lparr>tasks = [(0, demo_sched_task 0 0 (Some 300)), (1, demo_sched_task 1 5 (Some 200))], vruntime = [(0, 0), (3, 1)],
     current_pid = 0, max_pid = 1, trap_stack = 0\<rparr>"

definition demo_clock :: Machine where
  "demo_clock = (demo_machine 0)\<lparr>timer_at := (\<lambda>n. min n 3)\<rparr>"

lemma demo_sched_ok: "sched_ok demo_sched" "nices_ok demo_sched" "vruntime demo_sched \<noteq> []"
  by (auto simp: sched_ok_def nices_ok_def demo_sched_def demo_sched_task_def bs_sorted_def NICE_MAX_def)

lemma demo_clock_ok: "clock_ok (get_sys_time riscv64_arch) 3 300 demo_clock"
proof -
  have "riscv_get_sys_time (demo_clock\<lparr>reads := k\<rparr>) = Some (min k 3 * 100, demo_clock\<lparr>reads := Suc k\<rparr>)" for k
  proof -
    have "min k 3 * 100 < (2 :: nat) ^ 64" by (simp add: min_def)
    then show ?thesis by (simp add: riscv_get_sys_time_def demo_clock_def usize_mul_def)
  qed
  then show ?thesis by (auto simp: clock_ok_def riscv64_arch_def)
qed


section \<open>Nice values\<close>

text \<open>Calls of \<open>schedule\<close> in turn, one after each time slice.\<close>

fun slices :: "nat \<Rightarrow> clock \<Rightarrow> 'c Scheduler \<Rightarrow> Machine \<Rightarrow> nat list option" where
  "slices 0 get_time s m = Some []"
| "slices (Suc n) get_time s m = do { (s, m) \<leftarrow> schedule get_time s m; ps \<leftarrow> slices n get_time s m; Some (current_pid s # ps) }"

lemma bs_insert_first: "bs_sorted (x # xs) \<Longrightarrow> bs_insert x xs = x # xs"
  by (cases xs) (auto simp: bs_sorted_def)

text \<open>C24: The ends of the range of nice values that \<^verbatim>\<open>renice\<close> accepts. A task with nice -19 that is ready and has the least
  virtual run time runs in every time slice from then on and no other task runs at all. And once a task with nice -20 has
  a virtual run time above 0, the next time it is first in the queue \<^verbatim>\<open>schedule\<close> panics.\<close>

theorem nice_extremes:
  assumes "sched_ok s" "vruntime s = (vr, p) # rest" "map_of (tasks s) p = Some t" "next_schedule t = None" "vr < 2 ^ 64"
  shows "(nice t = -19 \<longrightarrow> slices n get_time s m = Some (replicate n p)) \<and>
    (nice t = -20 \<and> 0 < vr \<longrightarrow> schedule get_time s m = None) \<and> nice (renice t (-19)) = -19 \<and> nice (renice t (-20)) = -20"
proof (intro conjI impI)
  have sorted: "bs_sorted ((vr, p) # rest)" using sched_okD(2) [OF assms(1)] assms(2) by simp
  show "slices n get_time s m = Some (replicate n p)" if "nice t = -19"
  proof -
    define s' where "s' = s\<lparr>current_pid := p\<rparr>"
    have step: "schedule get_time x m = Some (s', m)" if "x = s \<or> x = s'" for x
      using that assms \<open>nice t = -19\<close> bs_insert_first [OF sorted]
      by (subst schedule.simps) (auto simp: NICE_MAX_def isize_as_usize_def usize_add_def s'_def)
    have "current_pid s' = p" by (simp add: s'_def)
    then have "slices n get_time x m = Some (replicate n p)" if "x = s \<or> x = s'" for x
      using that by (induction n arbitrary: x) (auto simp: step)
    then show ?thesis by simp
  qed
  have "isize_as_usize (-1) = 2 ^ 64 - 1" by (simp add: isize_as_usize_def)
  then show "schedule get_time s m = None" if "nice t = -20 \<and> 0 < vr"
    using that assms(2,3) by (subst schedule.simps) (simp add: NICE_MAX_def usize_add_def)
qed (simp_all add: renice_def NICE_MIN_def NICE_MAX_def)

theorem nice_extremes_witness:
  "slices 5 riscv_get_sys_time (demo_sched\<lparr>tasks := [(0, demo_sched_task 0 (-19) None), (1, demo_sched_task 1 5 None)]\<rparr>) demo_clock = Some [0, 0, 0, 0, 0]"
proof -
  let ?s = "demo_sched\<lparr>tasks := [(0, demo_sched_task 0 (-19) None), (1, demo_sched_task 1 5 None)]\<rparr>"
  have "sched_ok ?s" by (auto simp: sched_ok_def demo_sched_def demo_sched_task_def bs_sorted_def)
  moreover have "vruntime ?s = (0, 0) # [(3, 1)]" "map_of (tasks ?s) 0 = Some (demo_sched_task 0 (-19) None)"
    by (simp_all add: demo_sched_def)
  moreover have "next_schedule (demo_sched_task 0 (-19) None) = None" "nice (demo_sched_task 0 (-19) None) = -19"
    by (simp_all add: demo_sched_task_def)
  ultimately have "slices 5 riscv_get_sys_time ?s demo_clock = Some (replicate 5 0)" using nice_extremes [of ?s] by fastforce
  then show ?thesis by (simp add: numeral_eq_Suc)
qed

section \<open>Every reachable state\<close>

text \<open>What holds whenever \<open>schedule\<close> returns, whatever the clock and the nice values.\<close>

lemma schedule_Some:
  "schedule get_time s m = Some r \<Longrightarrow> sched_ok s \<longrightarrow> sched_ok (fst r) \<and> current_pid (fst r) \<in> fst ` set (tasks (fst r)) \<and>
    fst ` set (tasks (fst r)) = fst ` set (tasks s) \<and> vruntime (fst r) \<noteq> [] \<and> max_pid (fst r) = max_pid s"
proof (induction get_time s m r rule: schedule.raw_induct [rotated, consumes 1, case_names round])
  case (round sch get_time s m r)
  show ?case
  proof
    assume ok: "sched_ok s"
    from round(2) obtain vr p rest where v: "vruntime s = (vr, p) # rest" by (auto split: list.splits)
    with round(2) obtain t vr' where t: "map_of (tasks s) p = Some t" "usize_add vr (isize_as_usize (nice t + NICE_MAX)) = Some vr'"
      by (auto simp: bind_eq_Some_conv)
    define s1 where "s1 = s\<lparr>vruntime := bs_insert (vr', p) rest, current_pid := p\<rparr>"
    have ok1: "sched_ok s1" using requeue_ok(1) [OF ok v] by (simp add: s1_def)
    have keys: "fst ` set (tasks s1) = fst ` set (tasks s)" "current_pid s1 = p" "vruntime s1 \<noteq> []" "max_pid s1 = max_pid s"
      by (simp_all add: s1_def)
    have p: "p \<in> fst ` set (tasks s1)" using map_of_SomeD [OF t(1)] unfolding keys(1) by force
    have res: "(case next_schedule t of None \<Rightarrow> Some (s1, m) | Some next \<Rightarrow> get_time m \<bind> (\<lambda>(now, m). if next \<le> now
        then Some (set_task s1 p (t\<lparr>next_schedule := None\<rparr>), m) else sch get_time s1 m)) = Some r"
      using round(2) v t unfolding s1_def by (simp add: Let_def)
    then have "r = (s1, m) \<or> (\<exists>m'. r = (set_task s1 p (t\<lparr>next_schedule := None\<rparr>), m')) \<or> (\<exists>m'. sch get_time s1 m' = Some r)"
    proof (cases "next_schedule t")
      case (Some nx)
      with res obtain now m' where "(if nx \<le> now then Some (set_task s1 p (t\<lparr>next_schedule := None\<rparr>), m') else sch get_time s1 m') = Some r"
        by (auto simp: bind_eq_Some_conv)
      then show ?thesis by (auto split: if_splits)
    qed simp
    then consider "r = (s1, m)" | m' where "r = (set_task s1 p (t\<lparr>next_schedule := None\<rparr>), m')" | m' where "sch get_time s1 m' = Some r"
      by blast
    then show "sched_ok (fst r) \<and> current_pid (fst r) \<in> fst ` set (tasks (fst r)) \<and> fst ` set (tasks (fst r)) = fst ` set (tasks s) \<and>
        vruntime (fst r) \<noteq> [] \<and> max_pid (fst r) = max_pid s"
    proof cases
      case 2
      have "pid (t\<lparr>next_schedule := None\<rparr>) = p" using sched_okD(6) [OF ok t(1)] by simp
      from set_task_ok [OF ok1 p this] show ?thesis using 2 keys p by (simp add: set_task_def bt_insert_keys insert_absorb)
    next
      case (3 m')
      from round(1) [OF this] show ?thesis using ok1 keys by auto
    qed (use ok1 keys p in simp)
  qed
qed

definition sched_inv :: "'c Scheduler \<Rightarrow> bool" where
  "sched_inv s \<longleftrightarrow> sched_ok s \<and> current_pid s \<in> fst ` set (tasks s) \<and> vruntime s \<noteq> []"

lemma schedule_inv: "schedule get_time s m = Some (s', m') \<Longrightarrow> sched_ok s \<Longrightarrow> sched_inv s'"
  using schedule_Some [of get_time s m "(s', m')"] unfolding sched_inv_def by auto

lemma set_task_inv:
  assumes "sched_inv s" "p \<in> fst ` set (tasks s)" "pid t = p"
  shows "sched_inv (set_task s p t)"
  using assms set_task_ok(1) [of s p t] by (simp add: sched_inv_def set_task_def bt_insert_keys)

lemma bs_insert_distinct: "c \<notin> snd ` set xs \<Longrightarrow> distinct (map snd xs) \<Longrightarrow> distinct (map snd (bs_insert (v, c) xs))"
proof (induction xs)
  case (Cons y ys)
  then show ?case by (auto simp: image_iff)
qed simp

text \<open>A new task under the next pid.\<close>

lemma set_task_new:
  assumes "sched_ok s" "pid t = max_pid s + 1"
  shows "sched_ok (set_task s (max_pid s + 1) t\<lparr>max_pid := max_pid s + 1\<rparr>)" "map_of (tasks s) (max_pid s + 1) = None"
proof -
  have fresh: "max_pid s + 1 \<notin> fst ` set (tasks s)" using sched_okD(5) [OF assms(1)] by fastforce
  then show "map_of (tasks s) (max_pid s + 1) = None" by (simp add: map_of_eq_None_iff)
  have "bt_sorted (tasks s)" using sched_okD(1) [OF assms(1)] .
  then show "sched_ok (set_task s (max_pid s + 1) t\<lparr>max_pid := max_pid s + 1\<rparr>)"
    using assms unfolding sched_ok_def set_task_def
    by (auto simp: bt_insert_sorted bt_insert_keys bt_insert_lookup le_Suc_eq)
qed

lemma add_child_inv:
  assumes "sched_inv s" "add_child s root ctx as = Some (c, s')"
  shows "sched_inv s'" "c = max_pid s + 1" "map_of (tasks s) c = None" "current_pid s' = current_pid s"
    "\<exists>cur. current_task s = Some cur \<and> map_of (tasks s') = (map_of (tasks s))(c \<mapsto> \<lparr>uid = uid cur, pid = c, ppid = pid cur, task_page = root,
      nice = nice cur, task_ctx = ctx, page_allocs = as, next_schedule = None, task_fds = FdTable_default\<rparr>)"
    "vruntime s' = bs_insert (fst (hd (vruntime s)), c) (vruntime s)"
proof -
  have ok: "sched_ok s" using assms(1) by (simp add: sched_inv_def)
  have "current_task s \<noteq> None" using assms(2) by (auto simp: add_child_def current_task_def bind_eq_Some_conv)
  moreover have "vruntime s \<noteq> []" using assms(1) by (simp add: sched_inv_def)
  ultimately obtain cur v q rest where cur: "current_task s = Some cur" "vruntime s = (v, q) # rest"
    by (cases "vruntime s") auto
  define t where "t = \<lparr>uid = uid cur, pid = max_pid s + 1, ppid = pid cur, task_page = root, nice = nice cur, task_ctx = ctx,
    page_allocs = as, next_schedule = None, task_fds = FdTable_default\<rparr>"
  define s1 where "s1 = set_task s (max_pid s + 1) t\<lparr>max_pid := max_pid s + 1\<rparr>"
  have c: "c = max_pid s + 1" and s': "s' = s1\<lparr>vruntime := bs_insert (v, c) (vruntime s)\<rparr>"
    using assms(2) cur by (auto simp: add_child_def current_task_def set_task_def usize_add_Some s1_def t_def bind_eq_Some_conv Let_def)
  show "c = max_pid s + 1" by (fact c)
  have "pid t = max_pid s + 1" by (simp add: t_def)
  note new = set_task_new [OF ok this]
  show "map_of (tasks s) c = None" using new(2) c by simp
  show "current_pid s' = current_pid s" by (simp add: s' s1_def set_task_def)
  have "map_of (tasks s') = (map_of (tasks s))(c \<mapsto> t)" using sched_okD(1) [OF ok] by (simp add: s' s1_def set_task_def c bt_insert_lookup)
  then show "\<exists>cur. current_task s = Some cur \<and> map_of (tasks s') = (map_of (tasks s))(c \<mapsto> \<lparr>uid = uid cur, pid = c, ppid = pid cur, task_page = root,
      nice = nice cur, task_ctx = ctx, page_allocs = as, next_schedule = None, task_fds = FdTable_default\<rparr>)"
    using cur(1) by (auto simp: t_def c)
  show "vruntime s' = bs_insert (fst (hd (vruntime s)), c) (vruntime s)" using cur(2) by (simp add: s')
  have "c \<notin> fst ` set (tasks s)" using new(2) c by (simp add: map_of_eq_None_iff)
  then have "c \<notin> snd ` set (vruntime s)" using sched_okD(4) [OF ok] by blast
  moreover have "sched_ok s1" using new(1) by (simp add: s1_def)
  moreover have "vruntime s1 = vruntime s" "fst ` set (tasks s1) = insert c (fst ` set (tasks s))"
    by (simp_all add: s1_def set_task_def bt_insert_keys c)
  moreover have "current_pid s1 = current_pid s" by (simp add: s1_def set_task_def)
  ultimately show "sched_inv s'" using assms(1) bs_insert_distinct [of c "vruntime s" v]
    unfolding sched_inv_def s' by (simp add: sched_ok_def bs_insert_sorted)
qed

lemma kill_inv: "kill A s m p = Some (s', m') \<Longrightarrow> sched_ok s \<Longrightarrow> sched_inv s' \<and> map_of (tasks s') p = None"
proof -
  assume k: "kill A s m p = Some (s', m')" and ok: "sched_ok s"
  let ?s = "s\<lparr>tasks := bt_remove p (tasks s), vruntime := filter (\<lambda>(_, this_pid). this_pid \<noteq> p) (vruntime s)\<rparr>"
  from k obtain m1 where sch: "schedule (get_sys_time A) ?s m1 = Some (s', m')" by (auto simp: kill_def bind_eq_Some_conv)
  have "distinct (map snd (filter (\<lambda>(_, q). q \<noteq> p) (vruntime s)))" using sched_okD(3) [OF ok] by (simp add: distinct_map_filter)
  moreover have "bs_sorted (filter (\<lambda>(_, q). q \<noteq> p) (vruntime s))" using sched_okD(2) [OF ok] by (simp add: bs_sorted_def sorted_wrt_filter)
  moreover have "snd ` set (filter (\<lambda>(_, q). q \<noteq> p) (vruntime s)) \<subseteq> fst ` set (tasks s) - {p}" using sched_okD(4) [OF ok] by auto
  ultimately have "sched_ok ?s" using ok by (auto simp: sched_ok_def bt_remove_sorted bt_remove_keys bt_remove_lookup)
  moreover have "p \<notin> fst ` set (tasks s')"
    using schedule_Some [OF sch] \<open>sched_ok ?s\<close> by (simp add: bt_remove_keys)
  ultimately show "sched_inv s' \<and> map_of (tasks s') p = None" using schedule_inv [OF sch] by (simp add: map_of_eq_None_iff)
qed

text \<open>The steps of the kernel that change the scheduler: a switch at a timer interrupt or a system call, a new program, a fork, the
  end of a task, and what the system calls do to a task.\<close>

inductive sched_step :: "Linker \<Rightarrow> 'c Arch \<Rightarrow> 'c Scheduler \<times> Machine \<Rightarrow> 'c Scheduler \<times> Machine \<Rightarrow> bool"
  for lds :: Linker and A :: "'c Arch" where
  switch: "switch_task A s m ctx = Some (t, ctx', s', m') \<Longrightarrow> sched_step lds A (s, m) (s', m')"
| create: "create_from_elf lds A s m bytes = Some (r, s', m') \<Longrightarrow> sched_step lds A (s, m) (s', m')"
| forked: "fork lds A s m = Some (c, s', m') \<Longrightarrow> sched_step lds A (s, m) (s', m')"
| kernel_forked: "kernel_fork A s m = Some (s', m') \<Longrightarrow> sched_step lds A (s, m) (s', m')"
| killed: "kill A s m p = Some (s', m') \<Longrightarrow> sched_step lds A (s, m) (s', m')"
| update: "map_of (tasks s) p = Some t \<Longrightarrow> pid t' = p \<Longrightarrow> sched_step lds A (s, m) (set_task s p t', m')"

inductive_cases sched_stepE: "sched_step lds A (s, m) (s', m')"

lemma current_task_pid: "sched_inv s \<Longrightarrow> current_task s = Some t \<Longrightarrow> pid t = current_pid s"
  using sched_okD(6) by (auto simp: sched_inv_def current_task_def)

lemma sched_step_inv: "sched_step lds A (s, m) (s', m') \<Longrightarrow> sched_inv s \<Longrightarrow> sched_inv s'"
proof (induction "(s, m)" "(s', m')" rule: sched_step.induct)
  case (switch ctx t ctx')
  then obtain cur m1 where cur: "current_task s = Some cur" "schedule (get_sys_time A) (set_task s (current_pid s) (cur\<lparr>task_ctx := ctx\<rparr>)) m = Some (s', m')"
    by (auto simp: switch_task_def bind_eq_Some_conv)
  have "sched_inv (set_task s (current_pid s) (cur\<lparr>task_ctx := ctx\<rparr>))"
    using switch.prems current_task_pid [OF switch.prems cur(1)] by (intro set_task_inv) (simp_all add: sched_inv_def)
  then show ?case using schedule_inv [OF cur(2)] by (simp add: sched_inv_def)
next
  case (create bytes r)
  then obtain e where e: "elf_parse bytes = Some e" by (auto simp: create_from_elf_def bind_eq_Some_conv)
  then show ?case
  proof (cases e)
    case (Inl err)
    then show ?thesis using create e by (simp add: create_from_elf_def)
  next
    case (Inr elf)
    then obtain root ctx as c where "add_child s root ctx as = Some (c, s')"
      using create(1) e by (auto simp: create_from_elf_def bind_eq_Some_conv Let_def new_alloc_def)
    from add_child_inv(1) [OF create.prems this] show ?thesis .
  qed
next
  case (forked c)
  then show ?case using add_child_inv(1) by (auto simp: fork_def bind_eq_Some_conv split: prod.splits)
next
  case kernel_forked
  then obtain t where t: "s' = set_task s (max_pid s + 1) t\<lparr>max_pid := max_pid s + 1\<rparr>" "pid t = max_pid s + 1"
    by (auto simp: kernel_fork_def bind_eq_Some_conv usize_add_Some)
  then show ?case using set_task_new(1) [of s t] kernel_forked.prems by (simp add: sched_inv_def set_task_def bt_insert_keys)
next
  case (killed p)
  then have "sched_ok s" by (simp add: sched_inv_def)
  from kill_inv [OF killed(1) this] show ?case ..
next
  case (update p t t')
  then show ?case using set_task_inv [of s p t'] map_of_SomeD [OF update(1)] by force
qed

lemma task_init_inv: "task_init A m = Some (s, m') \<Longrightarrow> sched_inv s"
  by (auto simp: task_init_def bind_eq_Some_conv sched_inv_def sched_ok_def bs_sorted_def Let_def KERNEL_PID_def split: if_splits)

text \<open>C22: In every state the scheduler can reach from its start by any sequence of switches, new programs, forks, kills and
  changes of tasks, its tables agree: every pid in the queue is in it once and belongs to a task, the queue is in order, no pid is above the last one
  handed out, every task is filed under its own pid, the queue is not empty and the current task exists.\<close>

theorem scheduler_invariant:
  assumes "task_init A m0 = Some s0" "(sched_step lds A)\<^sup>*\<^sup>* s0 (s, m)"
  shows "sched_ok s \<and> vruntime s \<noteq> [] \<and> (\<exists>t. current_task s = Some t \<and> pid t = current_pid s)"
proof -
  have "sched_inv (fst x)" if "(sched_step lds A)\<^sup>*\<^sup>* s0 x" for x
    using that
  proof (induction rule: rtranclp_induct)
    case base
    then show ?case using task_init_inv [of A m0 "fst s0" "snd s0"] assms(1) by simp
  next
    case (step y z)
    then show ?case using sched_step_inv [of lds A "fst y" "snd y" "fst z" "snd z"] by simp
  qed
  from this [OF assms(2)] have inv: "sched_inv s" by simp
  then obtain t where "current_task s = Some t" using map_of_key [of "current_pid s" "tasks s"] by (auto simp: sched_inv_def current_task_def)
  then show ?thesis using inv current_task_pid [OF inv] by (simp add: sched_inv_def)
qed

text \<open>A machine with one free block of 16 pages, enough for the trap stack.\<close>

definition demo_block :: BuddyAllocator where
  "demo_block = \<lparr>free = 16, zones = [\<lparr>base = 16, pages = 16, pows = (replicate BUDDY_ALLOC_MAX_POW None)[4 := Some (PoolNode 0)]\<rparr>],
     zone_num = 1, node_pool = \<lparr>free_nodes = (\<lambda>_. \<lparr>page_number = 0, next_node = None\<rparr>), freenode_remain = 511, free_start = None\<rparr>,
     extended_pools = None, ext_pool_next = (\<lambda>_. None)\<rparr>"

lemma demo_block_alloc: "\<exists>q b'. buddy_alloc_pages demo_block 16 = Some (Inr q, b')"
proof -
  have "next_power_of_two 16 = Some 16" using next_power_of_two_power [of 4] by simp
  moreover have "[0..<BUDDY_ALLOC_MAX_POW] = [0, 1, 2, 3] @ 4 # [5..<BUDDY_ALLOC_MAX_POW]" by (simp add: MAX_POW_36 upt_rec)
  ultimately show ?thesis
    by (simp add: buddy_alloc_pages.simps demo_block_def MIN_POOL_REMAIN_36 ceil_to_power_2_def zone_alloc_pages_def MAX_POW_36
        new_node_def recycle_node_def write_next_def nth_opt_def set_opt_def usize_add_def usize_sub_def)
qed

theorem scheduler_invariant_witness:
  "\<exists>s m. task_init riscv64_arch ((demo_machine 0)\<lparr>buddy := demo_block\<rparr>) = Some (s, m) \<and> sched_ok s \<and> current_task s \<noteq> None"
proof -
  obtain s m where init: "task_init riscv64_arch ((demo_machine 0)\<lparr>buddy := demo_block\<rparr>) = Some (s, m)"
    using demo_block_alloc by (auto simp: task_init_def kalloc_pages_def demo_machine_def virt_from_phys_def PAGE_OFFSET_eq usize_add_def)
  with scheduler_invariant [OF init, of _ s m] show ?thesis by auto
qed

section \<open>Forking\<close>

text \<open>A child's allocations are its parent's, in order: those it cannot write are shared, those it can are copies with pages of
  their own.\<close>

definition forked_alloc :: "PageAllocInfo \<Rightarrow> PageAllocInfo \<Rightarrow> bool" where
  "forked_alloc a b \<longleftrightarrow> (if P_Write \<in> set (pa_flags a) \<and> P_Exec \<notin> set (pa_flags a)
     then pa_vpage b = pa_vpage a \<and> pa_pages b = pa_pages a \<and> pa_flags b = pa_flags a else b = a)"

lemma fork_alloc_rel:
  assumes "fork_alloc M root a as m = Some (as', m')"
  shows "\<exists>b. as' = as @ [b] \<and> forked_alloc a b"
  using assms by (auto simp: fork_alloc_def forked_alloc_def bind_eq_Some_conv new_alloc_def split: if_splits)

lemma fork_allocs_rel:
  assumes "fork_allocs M root xs as m = Some (as', m')"
  shows "\<exists>bs. as' = as @ bs \<and> list_all2 forked_alloc xs bs"
  using assms
proof (induction xs arbitrary: as m)
  case (Cons a xs)
  then obtain as1 m1 where s: "fork_alloc M root a as m = Some (as1, m1)" "fork_allocs M root xs as1 m1 = Some (as', m')"
    by (auto simp: bind_eq_Some_conv)
  obtain b where "as1 = as @ [b]" "forked_alloc a b" using fork_alloc_rel [OF s(1)] by blast
  moreover obtain bs where "as' = as1 @ bs" "list_all2 forked_alloc xs bs" using Cons.IH [OF s(2)] by blast
  ultimately show ?case by (intro exI [of _ "b # bs"]) simp
qed simp

text \<open>When \<^verbatim>\<open>fork\<close> returns, the child has a pid no task had before, the current task as its parent, its parent's user, nice value, registers
  and address space, with the writable parts in pages of their own, no open files and no wake-up time; it is in the queue with the least virtual run time, and every other task is as before.\<close>

lemma fork_child:
  assumes "sched_inv s" "fork lds A s m = Some (c, s', m')"
  shows "sched_inv s' \<and> map_of (tasks s) c = None \<and> (\<exists>cur child. current_task s = Some cur \<and>
    map_of (tasks s') = (map_of (tasks s))(c \<mapsto> child) \<and> pid child = c \<and> ppid child = current_pid s \<and> uid child = uid cur \<and> nice child = nice cur \<and>
    task_ctx child = task_ctx cur \<and> list_all2 forked_alloc (page_allocs cur) (page_allocs child) \<and> next_schedule child = None \<and>
    task_fds child = FdTable_default) \<and> current_pid s' = current_pid s \<and>
    (\<exists>v. (v, c) \<in> set (vruntime s') \<and> (\<forall>(v', q) \<in> set (vruntime s'). v \<le> v'))"
proof -
  obtain cur root as m1 m2 where f: "current_task s = Some cur" "fork_allocs (arch_mapper A) root (page_allocs cur) [] m1 = Some (as, m2)"
    "add_child s root (task_ctx cur) as = Some (c, s')"
    using assms(2) by (auto simp: fork_def bind_eq_Some_conv)
  note child = add_child_inv [OF assms(1) f(3)]
  have "list_all2 forked_alloc (page_allocs cur) as" using fork_allocs_rel [OF f(2)] by auto
  moreover obtain t where t: "map_of (tasks s') = (map_of (tasks s))(c \<mapsto> t)" "pid t = c" "ppid t = current_pid s" "uid t = uid cur" "nice t = nice cur"
    "task_ctx t = task_ctx cur" "page_allocs t = as" "next_schedule t = None" "task_fds t = FdTable_default"
    using child(5) f(1) current_task_pid [OF assms(1) f(1)] by auto
  moreover obtain v q rest where v: "vruntime s = (v, q) # rest" using assms(1) by (cases "vruntime s") (auto simp: sched_inv_def)
  have "bs_sorted (vruntime s)" using assms(1) by (simp add: sched_inv_def sched_ok_def)
  then have "\<forall>(v', q) \<in> set (vruntime s'). v \<le> v'" "(v, c) \<in> set (vruntime s')"
    unfolding child(6) using v by (auto simp: bs_sorted_def less_prod_def split: prod.splits)
  ultimately show ?thesis using child(1,3,4) f(1) by blast
qed

end
