(* ===== verification/Syscall.thy ===== *)
theory Syscall
  imports Scheduler Devfs
begin

text \<open>
  The system calls that act on the current task (\<^verbatim>\<open>src/src/syscall.rs\<close>).

  \<open>Kernel\<close> puts together what they reach besides the task: the machine, the globals of the device files and the virtual
  file system. Buffers come from the heap of the kernel; \<open>k_heap\<close> is the longest one it can give out, a request for more
  ends in a panic. The file systems are a parameter \<open>F\<close>, the record of operations of \<open>Vfs\<close>, and the lemmas on all system calls
  are proved over its contract; the properties are about the device files that the kernel mounts.
\<close>

record ('e, 'f) Kernel =
  k_mach :: Machine
  k_glob :: 'e
  k_vfs :: "'f VirtualFileSystem"
  k_heap :: nat

section \<open>Numbers and results\<close>

definition SYSCALL_EXIT :: u64 where "SYSCALL_EXIT = 0"
definition SYSCALL_OPEN :: u64 where "SYSCALL_OPEN = 1"
definition SYSCALL_READ :: u64 where "SYSCALL_READ = 2"
definition SYSCALL_WRITE :: u64 where "SYSCALL_WRITE = 3"
definition SYSCALL_LSEEK :: u64 where "SYSCALL_LSEEK = 4"
definition SYSCALL_CLOSE :: u64 where "SYSCALL_CLOSE = 5"
definition SYSCALL_SLEEP :: u64 where "SYSCALL_SLEEP = 6"
definition SYSCALL_FORK :: u64 where "SYSCALL_FORK = 7"
definition SYSCALL_UNAME :: u64 where "SYSCALL_UNAME = 8"

lemmas syscall_numbers = SYSCALL_EXIT_def SYSCALL_OPEN_def SYSCALL_READ_def SYSCALL_WRITE_def SYSCALL_LSEEK_def
  SYSCALL_CLOSE_def SYSCALL_SLEEP_def SYSCALL_FORK_def SYSCALL_UNAME_def

definition SYSCALL_RET_OK :: int where "SYSCALL_RET_OK = 0"
definition SYSCALL_RET_ERR :: int where "SYSCALL_RET_ERR = -1"

text \<open>The casts from \<^verbatim>\<open>usize\<close> to \<^verbatim>\<open>isize\<close> and on to \<^verbatim>\<open>u64\<close>.\<close>

definition usize_as_isize :: "nat \<Rightarrow> int" where
  "usize_as_isize n = (if n < 2 ^ 63 then int n else int n - 2 ^ 64)"

definition isize_as_u64 :: "int \<Rightarrow> u64" where
  "isize_as_u64 i = of_int i"

lemma isize_as_u64_usize: "isize_as_u64 (usize_as_isize n) = of_nat n"
proof -
  have "(of_int (int n - 2 ^ 64) :: u64) = of_int (int n)"
  proof -
    have "(of_int (2 ^ 64) :: u64) = 0" by simp
    then show ?thesis by (simp only: of_int_diff) simp
  qed
  then show ?thesis by (simp add: isize_as_u64_def usize_as_isize_def)
qed

section \<open>Files\<close>

text \<open>A path is a string of bytes; \<open>Vfs\<close> has strings of characters.\<close>

definition bytes_str :: "u8 list \<Rightarrow> string" where
  "bytes_str bs = map (\<lambda>b. char_of (unat b)) bs"

definition syscall_open ::
  "('e, 'f) FileSystem \<Rightarrow> 'c Task \<Rightarrow> ('e, 'f) Kernel \<Rightarrow> string \<Rightarrow> (int \<times> 'c Task \<times> ('e, 'f) Kernel) option" where
  "syscall_open F t k path = do {
     (r, v) \<leftarrow> vfs_open F (k_vfs k) path;
     let k = k\<lparr>k_vfs := v\<rparr>;
     (case r of
        Inr fd \<Rightarrow> do { (n, tab) \<leftarrow> FdTable_add (task_fds t) fd; Some (usize_as_isize n, t\<lparr>task_fds := tab\<rparr>, k) }
      | Inl _ \<Rightarrow> Some (SYSCALL_RET_ERR, t, k))
   }"

definition syscall_read ::
  "('e, 'f) FileSystem \<Rightarrow> 'c Task \<Rightarrow> ('e, 'f) Kernel \<Rightarrow> nat \<Rightarrow> u8 list \<Rightarrow> (int \<times> u8 list \<times> 'c Task \<times> ('e, 'f) Kernel) option" where
  "syscall_read F t k fd buf =
     (case FdTable_get (task_fds t) fd of
        None \<Rightarrow> Some (SYSCALL_RET_ERR, buf, t, k)
      | Some file \<Rightarrow> do {
          (r, buf, file, v, e) \<leftarrow> vfs_read F (k_glob k) (k_vfs k) file buf;
          let t = t\<lparr>task_fds := FdTable_set (task_fds t) fd file\<rparr>;
          let k = k\<lparr>k_glob := e, k_vfs := v\<rparr>;
          Some (case r of Inr n \<Rightarrow> usize_as_isize n | Inl _ \<Rightarrow> SYSCALL_RET_ERR, buf, t, k)
        })"

definition syscall_write ::
  "('e, 'f) FileSystem \<Rightarrow> 'c Task \<Rightarrow> ('e, 'f) Kernel \<Rightarrow> nat \<Rightarrow> u8 list \<Rightarrow> (int \<times> 'c Task \<times> ('e, 'f) Kernel) option" where
  "syscall_write F t k fd buf =
     (case FdTable_get (task_fds t) fd of
        None \<Rightarrow> Some (SYSCALL_RET_ERR, t, k)
      | Some file \<Rightarrow> do {
          (r, file, v, e) \<leftarrow> vfs_write F (k_glob k) (k_vfs k) file buf;
          let t = t\<lparr>task_fds := FdTable_set (task_fds t) fd file\<rparr>;
          let k = k\<lparr>k_glob := e, k_vfs := v\<rparr>;
          Some (case r of Inr n \<Rightarrow> usize_as_isize n | Inl _ \<Rightarrow> SYSCALL_RET_ERR, t, k)
        })"

definition syscall_lseek :: "'c Task \<Rightarrow> nat \<Rightarrow> nat \<Rightarrow> int \<times> 'c Task" where
  "syscall_lseek t fd position =
     (case FdTable_get (task_fds t) fd of
        Some file \<Rightarrow> (SYSCALL_RET_OK, t\<lparr>task_fds := FdTable_set (task_fds t) fd (file\<lparr>vf_offset := position\<rparr>)\<rparr>)
      | None \<Rightarrow> (SYSCALL_RET_ERR, t))"

definition syscall_close ::
  "('e, 'f) FileSystem \<Rightarrow> 'c Task \<Rightarrow> ('e, 'f) Kernel \<Rightarrow> nat \<Rightarrow> (int \<times> ('e, 'f) Kernel) option" where
  "syscall_close F t k fd =
     (case FdTable_get (task_fds t) fd of
        None \<Rightarrow> Some (SYSCALL_RET_ERR, k)
      | Some file \<Rightarrow> do {
          (r, v) \<leftarrow> vfs_close F (k_vfs k) file;
          Some (case r of Inr _ \<Rightarrow> SYSCALL_RET_OK | Inl _ \<Rightarrow> SYSCALL_RET_ERR, k\<lparr>k_vfs := v\<rparr>)
        })"

section \<open>Sleeping and names\<close>

definition syscall_sleep :: "'c Arch \<Rightarrow> 'c Task \<Rightarrow> ('e, 'f) Kernel \<Rightarrow> nat \<Rightarrow> ('c Task \<times> ('e, 'f) Kernel) option" where
  "syscall_sleep A t k timestamp = do {
     (now, m) \<leftarrow> get_sys_time A (k_mach k);
     next_time \<leftarrow> usize_add now timestamp;
     Some (t\<lparr>next_schedule := Some next_time\<rparr>, k\<lparr>k_mach := m\<rparr>)
   }"

definition UTS_STRING_LEN :: nat where "UTS_STRING_LEN = 65"

record Utsname =
  sysname :: "u8 list"
  nodename :: "u8 list"
  release :: "u8 list"
  version :: "u8 list"
  machine :: "u8 list"

definition Utsname_default :: Utsname where
  "Utsname_default = \<lparr>sysname = replicate UTS_STRING_LEN 0, nodename = replicate UTS_STRING_LEN 0,
     release = replicate UTS_STRING_LEN 0, version = replicate UTS_STRING_LEN 0, machine = replicate UTS_STRING_LEN 0\<rparr>"

definition UNAME_SYSNAME :: "u8 list" where "UNAME_SYSNAME = string_bytes ''31kernel''"
definition UNAME_RELEASE :: "u8 list" where "UNAME_RELEASE = string_bytes ''0.1.0''"

text \<open>What the build selects: the architecture, its name and whether assertions are on.\<close>

record 'c Target =
  target_arch :: "'c Arch"
  debug_assertions :: bool
  UNAME_MACHINE :: "u8 list"

definition UNAME_VERSION :: "bool \<Rightarrow> u8 list" where
  "UNAME_VERSION debug = (if debug then string_bytes ''31kernel version 0.1.0 (Debug channel)''
     else string_bytes ''31kernel version 0.1.0 (Release channel)'')"

definition riscv64_target :: "bool \<Rightarrow> riscv_context Target" where
  "riscv64_target debug = \<lparr>target_arch = riscv64_arch, debug_assertions = debug, UNAME_MACHINE = string_bytes ''riscv64''\<rparr>"

definition arm64_target :: "nat \<Rightarrow> bool \<Rightarrow> arm64_context Target" where
  "arm64_target freq debug = \<lparr>target_arch = arm64_arch freq, debug_assertions = debug, UNAME_MACHINE = string_bytes ''arm64''\<rparr>"

text \<open>The bytes of the structure, in the layout of C: the fields one after the other, no padding between byte arrays.\<close>

definition uts_bytes :: "Utsname \<Rightarrow> u8 list" where
  "uts_bytes uts = sysname uts @ nodename uts @ release uts @ version uts @ machine uts"

definition syscall_uname :: "'c Target \<Rightarrow> 'c Task \<Rightarrow> ('e, 'f) Kernel \<Rightarrow> nat \<Rightarrow> ('e, 'f) Kernel option" where
  "syscall_uname T t k uts_ptr = do {
     let uts = Utsname_default;
     sys \<leftarrow> copy_into (sysname uts) 0 UNAME_SYSNAME;
     let uts = uts\<lparr>sysname := sys\<rparr>;
     rel \<leftarrow> copy_into (release uts) 0 UNAME_RELEASE;
     let uts = uts\<lparr>release := rel\<rparr>;
     ver \<leftarrow> copy_into (version uts) 0 (UNAME_VERSION (debug_assertions T));
     let uts = uts\<lparr>version := ver\<rparr>;
     mac \<leftarrow> copy_into (machine uts) 0 (UNAME_MACHINE T);
     let uts = uts\<lparr>machine := mac\<rparr>;
     (_, m) \<leftarrow> copy_to_user (k_mach k) t uts_ptr (uts_bytes uts);
     Some (k\<lparr>k_mach := m\<rparr>)
   }"

section \<open>Dispatch\<close>

definition vec_zeroed :: "('e, 'f) Kernel \<Rightarrow> nat \<Rightarrow> u8 list option" where
  \<comment> \<open>\<open>vec![0; n]\<close>\<close>
  "vec_zeroed k n = (if n \<le> k_heap k then Some (replicate n 0) else None)"

definition dispatch_with_task ::
  "('e, 'f) FileSystem \<Rightarrow> 'c Target \<Rightarrow> 'c Task \<Rightarrow> ('e, 'f) Kernel \<Rightarrow> u64 \<Rightarrow> u64 \<Rightarrow> u64 \<Rightarrow> u64 \<Rightarrow> u64 \<Rightarrow>
   (u64 option \<times> 'c Task \<times> ('e, 'f) Kernel) option" where
  "dispatch_with_task F T t k syscall_num a0 a1 a2 a3 =
     (if syscall_num = SYSCALL_OPEN then do {
        path \<leftarrow> copy_user_string (k_mach k) t (unat a0);
        (r, t, k) \<leftarrow> syscall_open F t k (bytes_str path);
        Some (Some (isize_as_u64 r), t, k)
      }
      else if syscall_num = SYSCALL_READ then do {
        buf \<leftarrow> vec_zeroed k (unat a2);
        (r, buf, t, k) \<leftarrow> syscall_read F t k (unat a0) buf;
        (_, m) \<leftarrow> copy_to_user (k_mach k) t (unat a1) buf;
        Some (Some (isize_as_u64 r), t, k\<lparr>k_mach := m\<rparr>)
      }
      else if syscall_num = SYSCALL_WRITE then do {
        buf \<leftarrow> vec_zeroed k (unat a2);
        (_, buf) \<leftarrow> copy_from_user (k_mach k) t (unat a1) buf;
        (r, t, k) \<leftarrow> syscall_write F t k (unat a0) buf;
        Some (Some (isize_as_u64 r), t, k)
      }
      else if syscall_num = SYSCALL_LSEEK then
        (case syscall_lseek t (unat a0) (unat a1) of (r, t) \<Rightarrow> Some (Some (isize_as_u64 r), t, k))
      else if syscall_num = SYSCALL_CLOSE then do {
        buf \<leftarrow> vec_zeroed k (unat a2);
        (_, buf) \<leftarrow> copy_from_user (k_mach k) t (unat a1) buf;
        (r, k) \<leftarrow> syscall_close F t k (unat a0);
        Some (Some (isize_as_u64 r), t, k)
      }
      else if syscall_num = SYSCALL_SLEEP then do {
        (t, k) \<leftarrow> syscall_sleep (target_arch T) t k (unat a0);
        Some (None, t, k)
      }
      else if syscall_num = SYSCALL_UNAME then do {
        k \<leftarrow> syscall_uname T t k (unat a0);
        Some (None, t, k)
      }
      else Some (None, t, k))"

section \<open>What a system call may do\<close>

text \<open>The state between system calls: the files of the task lie on mounted file systems.\<close>

definition sys_ok :: "('f \<Rightarrow> bool) \<Rightarrow> ('e \<Rightarrow> bool) \<Rightarrow> 'c Task \<Rightarrow> ('e, 'f) Kernel \<Rightarrow> bool" where
  "sys_ok ok genv t k \<longleftrightarrow> vfs_ok ok (k_vfs k) \<and> genv (k_glob k) \<and> fds_ok (task_fds t) \<and> allocs_ok (page_allocs t) \<and>
     (\<forall>fd f. FdTable_get (task_fds t) fd = Some f \<longrightarrow> vf_fs_id f \<in> fst ` set (mounted_fs (k_vfs k)))"

lemma sys_okD:
  assumes "sys_ok ok genv t k"
  shows "vfs_ok ok (k_vfs k)" "genv (k_glob k)" "fds_ok (task_fds t)" "allocs_ok (page_allocs t)"
    "FdTable_get (task_fds t) fd = Some f \<Longrightarrow> vf_fs_id f \<in> fst ` set (mounted_fs (k_vfs k))"
  using assms unfolding sys_ok_def by blast+

text \<open>The frame of a system call: of the task only its files and its wake-up time change, of the machine only the count of
  readings of the clock and bytes that belong to the task; nothing is mounted or unmounted.\<close>

definition call_frame :: "'c Task \<Rightarrow> ('e, 'f) Kernel \<Rightarrow> 'c Task \<Rightarrow> ('e, 'f) Kernel \<Rightarrow> bool" where
  "call_frame t k t' k' \<longleftrightarrow>
     (\<exists>tab nx. t' = t\<lparr>task_fds := tab, next_schedule := nx\<rparr>) \<and>
     (\<exists>mem rd. k_mach k' = (k_mach k)\<lparr>ram := mem, reads := rd\<rparr> \<and>
       (\<forall>p. (\<forall>a. user_ptr (page_allocs t) a \<noteq> Some p) \<longrightarrow> mem p = ram (k_mach k) p)) \<and>
     mount_points (k_vfs k') = mount_points (k_vfs k) \<and> k_heap k' = k_heap k"

lemma call_frameI:
  assumes "t' = t\<lparr>task_fds := tab, next_schedule := nx\<rparr>" "k_mach k' = (k_mach k)\<lparr>ram := mem, reads := rd\<rparr>"
    "\<And>p. (\<And>a. user_ptr (page_allocs t) a \<noteq> Some p) \<Longrightarrow> mem p = ram (k_mach k) p"
    "mount_points (k_vfs k') = mount_points (k_vfs k)" "k_heap k' = k_heap k"
  shows "call_frame t k t' k'"
  using assms unfolding call_frame_def by blast

lemma call_frame_files:
  assumes "mount_points v = mount_points (k_vfs k)"
  shows "call_frame t k (t\<lparr>task_fds := tab\<rparr>) (k\<lparr>k_glob := e, k_vfs := v\<rparr>)"
  by (rule call_frameI [where tab = tab and nx = "next_schedule t" and mem = "ram (k_mach k)" and rd = "reads (k_mach k)"]) (simp_all add: assms)

lemma call_frame_refl: "call_frame t k t k"
  using call_frame_files [of "k_vfs k" k t "task_fds t" "k_glob k"] by simp

lemma call_frame_trans:
  assumes "call_frame t k t1 k1" "call_frame t1 k1 t2 k2"
  shows "call_frame t k t2 k2"
proof -
  from assms(1) obtain tab nx mem rd where 1: "t1 = t\<lparr>task_fds := tab, next_schedule := nx\<rparr>" "k_mach k1 = (k_mach k)\<lparr>ram := mem, reads := rd\<rparr>"
    "\<forall>p. (\<forall>a. user_ptr (page_allocs t) a \<noteq> Some p) \<longrightarrow> mem p = ram (k_mach k) p"
    "mount_points (k_vfs k1) = mount_points (k_vfs k)" "k_heap k1 = k_heap k"
    unfolding call_frame_def by blast
  from assms(2) obtain tab' nx' mem' rd' where 2: "t2 = t1\<lparr>task_fds := tab', next_schedule := nx'\<rparr>" "k_mach k2 = (k_mach k1)\<lparr>ram := mem', reads := rd'\<rparr>"
    "\<forall>p. (\<forall>a. user_ptr (page_allocs t1) a \<noteq> Some p) \<longrightarrow> mem' p = ram (k_mach k1) p"
    "mount_points (k_vfs k2) = mount_points (k_vfs k1)" "k_heap k2 = k_heap k1"
    unfolding call_frame_def by blast
  have "t2 = t\<lparr>task_fds := tab', next_schedule := nx'\<rparr>" "k_mach k2 = (k_mach k)\<lparr>ram := mem', reads := rd'\<rparr>"
    using 1(1,2) 2(1,2) by simp_all
  moreover have "\<forall>p. (\<forall>a. user_ptr (page_allocs t) a \<noteq> Some p) \<longrightarrow> mem' p = ram (k_mach k) p"
    using 1 2(3) by simp
  ultimately show ?thesis unfolding call_frame_def using 1(4,5) 2(4,5) by auto
qed

lemma copy_to_user_frame:
  assumes "allocs_ok (page_allocs t)"
  shows "\<exists>n m. copy_to_user (k_mach k) t (unat (a :: u64)) bs = Some (n, m) \<and> call_frame t k t (k\<lparr>k_mach := m\<rparr>)"
proof -
  let ?a = "unat a" and ?as = "page_allocs t"
  have "?a < 2 ^ 64" using unsigned_less [of a] by simp
  then have c: "copy_to_user (k_mach k) t ?a bs =
      Some (mapped_len ?as ?a (length bs), (k_mach k)\<lparr>ram := user_store (ram (k_mach k)) ?as ?a bs\<rparr>)"
    using copy_to_user_loop_spec [OF assms] mapped_len_le [of ?as ?a "length bs"] by (simp add: copy_to_user_def usize_sub_def)
  have "call_frame t k t (k\<lparr>k_mach := (k_mach k)\<lparr>ram := user_store (ram (k_mach k)) ?as ?a bs\<rparr>\<rparr>)"
    by (rule call_frameI [where tab = "task_fds t" and nx = "next_schedule t" and mem = "user_store (ram (k_mach k)) ?as ?a bs" and rd = "reads (k_mach k)"])
      (simp_all add: user_store_other)
  then show ?thesis using c by blast
qed

lemma copy_from_user_length:
  assumes "allocs_ok (page_allocs t)"
  shows "\<exists>n buf. copy_from_user m t (unat (a :: u64)) (replicate k 0) = Some (n, buf) \<and> length buf = k"
proof -
  have "unat a < 2 ^ 64" using unsigned_less [of a] by simp
  then show ?thesis using copy_from_user_loop_spec [OF assms] mapped_len_le [of "page_allocs t" "unat a" k]
    by (auto simp: copy_from_user_def usize_sub_def)
qed

lemma vfs_mount_points:
  "vfs_read F e v fd buf = Some (r, buf', fd', v', e') \<Longrightarrow> mount_points v' = mount_points v"
  "vfs_write F e v fd buf = Some (r', fd', v', e') \<Longrightarrow> mount_points v' = mount_points v"
  "vfs_close F v fd = Some (r'', v') \<Longrightarrow> mount_points v' = mount_points v"
  by (auto simp: vfs_read_def vfs_write_def vfs_close_def Let_def set_fs_def split: bind_splits sum.splits prod.splits)

text \<open>A task with a changed file, on a virtual file system with the same mounts.\<close>

lemma sys_ok_files:
  assumes "sys_ok ok genv t k" "vfs_ok ok v" "genv e" "mount_points v = mount_points (k_vfs k)" "fds_ok tab"
    "\<And>fd f. FdTable_get tab fd = Some f \<Longrightarrow> vf_fs_id f \<in> fst ` set (mounted_fs (k_vfs k))"
  shows "sys_ok ok genv (t\<lparr>task_fds := tab\<rparr>) (k\<lparr>k_glob := e, k_vfs := v\<rparr>)"
proof -
  have "fst ` set (mounted_fs v) = fst ` set (mounted_fs (k_vfs k))"
    using vfs_okD(3) [OF assms(2)] vfs_okD(3) [OF sys_okD(1) [OF assms(1)]] assms(4) by simp
  then show ?thesis using assms by (simp add: sys_ok_def)
qed

lemma fds_set:
  assumes "sys_ok ok genv t k" "FdTable_get (task_fds t) fd = Some f" "vf_fs_id f' = vf_fs_id f"
  shows "fds_ok (FdTable_set (task_fds t) fd f')"
    "FdTable_get (FdTable_set (task_fds t) fd f') n = Some g \<Longrightarrow> vf_fs_id g \<in> fst ` set (mounted_fs (k_vfs k))"
proof -
  show "fds_ok (FdTable_set (task_fds t) fd f')" using FdTable_set_ok sys_okD(3) [OF assms(1)] assms(2) by simp
  have "bt_sorted (fd_files (task_fds t))" using sys_okD(3) [OF assms(1)] by (simp add: fds_ok_def)
  then show "FdTable_get (FdTable_set (task_fds t) fd f') n = Some g \<Longrightarrow> vf_fs_id g \<in> fst ` set (mounted_fs (k_vfs k))"
    using sys_okD(5) [OF assms(1)] assms(2,3) by (auto simp: FdTable_get_def FdTable_set_def bt_insert_lookup split: if_splits)
qed

text \<open>The bytes of the names: every one in its field, filled up with zeros.\<close>

definition uts_field :: "u8 list \<Rightarrow> u8 list" where
  "uts_field s = s @ replicate (UTS_STRING_LEN - length s) 0"

lemma uname_bytes:
  assumes "length (UNAME_MACHINE T) \<le> 65"
  shows "syscall_uname T t k a = do { (_, m) \<leftarrow> copy_to_user (k_mach k) t a (uts_field UNAME_SYSNAME @ uts_field [] @ uts_field UNAME_RELEASE @
      uts_field (UNAME_VERSION (debug_assertions T)) @ uts_field (UNAME_MACHINE T)); Some (k\<lparr>k_mach := m\<rparr>) }"
proof -
  have "length UNAME_SYSNAME \<le> 65" "length UNAME_RELEASE \<le> 65" "length (UNAME_VERSION d) \<le> 65" for d
    by (simp_all add: UNAME_SYSNAME_def UNAME_RELEASE_def UNAME_VERSION_def string_bytes_def)
  then show ?thesis using assms
    by (simp add: syscall_uname_def copy_into_def Utsname_default_def UTS_STRING_LEN_def uts_bytes_def uts_field_def)
qed

text \<open>When a system call can be served: \<open>may_open\<close> are the paths that the file system can be asked for, a buffer has to fit the
  heap, and neither an offset nor a wake-up time may pass the end of the machine word.\<close>

definition call_safe :: "(string \<Rightarrow> bool) \<Rightarrow> 'c Target \<Rightarrow> 'c Task \<Rightarrow> ('e, 'f) Kernel \<Rightarrow> u64 \<Rightarrow> u64 \<Rightarrow> u64 \<Rightarrow> bool" where
  "call_safe may_open T t k num a0 a2 \<longleftrightarrow>
     (num = SYSCALL_OPEN \<longrightarrow> max_fd (task_fds t) + 1 < 2 ^ 64 \<and>
       (\<exists>bs. copy_user_string (k_mach k) t (unat a0) = Some bs \<and> is_absolute (bytes_str bs) \<and>
         (\<forall>i mp. find_mount (mount_points (k_vfs k)) (bytes_str bs) = Some (i, mp) \<longrightarrow> may_open (drop (length mp) (bytes_str bs))))) \<and>
     (num \<in> {SYSCALL_READ, SYSCALL_WRITE, SYSCALL_CLOSE} \<longrightarrow> unat a2 \<le> k_heap k) \<and>
     (num \<in> {SYSCALL_READ, SYSCALL_WRITE} \<longrightarrow> (\<forall>f. FdTable_get (task_fds t) (unat a0) = Some f \<longrightarrow> vf_offset f + unat a2 < 2 ^ 64)) \<and>
     (num = SYSCALL_SLEEP \<longrightarrow> (\<exists>now rd. get_sys_time (target_arch T) (k_mach k) = Some (now, (k_mach k)\<lparr>reads := rd\<rparr>) \<and>
       now + unat a0 < 2 ^ 64)) \<and>
     (num = SYSCALL_UNAME \<longrightarrow> length (UNAME_MACHINE T) \<le> UTS_STRING_LEN)"

context file_system
begin

lemma syscall_open_total:
  assumes "sys_ok ok genv t k" "max_fd (task_fds t) + 1 < 2 ^ 64" "is_absolute p"
    "\<And>i mp. find_mount (mount_points (k_vfs k)) p = Some (i, mp) \<Longrightarrow> may_open (drop (length mp) p)"
  shows "\<exists>r t' k'. syscall_open F t k p = Some (r, t', k') \<and> sys_ok ok genv t' k' \<and> call_frame t k t' k'"
proof -
  obtain r v where v: "vfs_open F (k_vfs k) p = Some (r, v)" "vfs_ok ok v" "mount_points v = mount_points (k_vfs k)"
    using vfs_open_total [OF sys_okD(1) [OF assms(1)] assms(3)] assms(4) by blast
  note same = sys_ok_files [OF assms(1) v(2) sys_okD(2) [OF assms(1)] v(3)]
  show ?thesis
  proof (cases r)
    case (Inl err)
    have "sys_ok ok genv (t\<lparr>task_fds := task_fds t\<rparr>) (k\<lparr>k_glob := k_glob k, k_vfs := v\<rparr>)"
      using same sys_okD(3,5) [OF assms(1)] by blast
    moreover have "call_frame t k (t\<lparr>task_fds := task_fds t\<rparr>) (k\<lparr>k_glob := k_glob k, k_vfs := v\<rparr>)" using v(3) by (rule call_frame_files)
    ultimately show ?thesis using v(1) Inl by (simp add: syscall_open_def)
  next
    case (Inr f)
    obtain tab where tab: "FdTable_add (task_fds t) f = Some (max_fd (task_fds t), tab)" "fds_ok tab"
      "\<And>fd. FdTable_get tab fd = (if fd = max_fd (task_fds t) then Some f else FdTable_get (task_fds t) fd)"
      using FdTable_add_ok [OF sys_okD(3) [OF assms(1)] assms(2)] by blast
    have "vf_fs_id f \<in> fst ` set (mounted_fs (k_vfs k))"
      using v(1) Inr by (auto simp: vfs_open_def split: bind_splits option.splits sum.splits dest!: map_of_SomeD) (force simp: image_iff)+
    then have "sys_ok ok genv (t\<lparr>task_fds := tab\<rparr>) (k\<lparr>k_glob := k_glob k, k_vfs := v\<rparr>)"
      using tab(2,3) sys_okD(5) [OF assms(1)] by (intro same) (auto split: if_splits)
    moreover have "call_frame t k (t\<lparr>task_fds := tab\<rparr>) (k\<lparr>k_glob := k_glob k, k_vfs := v\<rparr>)" using v(3) by (rule call_frame_files)
    ultimately show ?thesis using v(1) Inr tab(1) by (simp add: syscall_open_def)
  qed
qed

lemma syscall_read_total:
  assumes "sys_ok ok genv t k" "\<And>f. FdTable_get (task_fds t) fd = Some f \<Longrightarrow> vf_offset f + length buf < 2 ^ 64"
  shows "\<exists>r buf' t' k'. syscall_read F t k fd buf = Some (r, buf', t', k') \<and> sys_ok ok genv t' k' \<and> call_frame t k t' k'"
proof (cases "FdTable_get (task_fds t) fd")
  case None
  then show ?thesis using assms(1) by (simp add: syscall_read_def call_frame_refl)
next
  case (Some f)
  obtain r buf' f' v e where v: "vfs_read F (k_glob k) (k_vfs k) f buf = Some (r, buf', f', v, e)" "vfs_ok ok v" "genv e" "vf_fs_id f' = vf_fs_id f"
    using vfs_read_total [OF sys_okD(1,2) [OF assms(1)] sys_okD(5) [OF assms(1) Some] assms(2) [OF Some]] by blast
  note mp = vfs_mount_points(1) [OF v(1)] and tab = fds_set [OF assms(1) Some v(4)]
  show ?thesis using Some v(1) sys_ok_files [OF assms(1) v(2,3) mp tab] call_frame_files [OF mp]
    by (simp add: syscall_read_def)
qed

lemma syscall_write_total:
  assumes "sys_ok ok genv t k" "\<And>f. FdTable_get (task_fds t) fd = Some f \<Longrightarrow> vf_offset f + length buf < 2 ^ 64"
  shows "\<exists>r t' k'. syscall_write F t k fd buf = Some (r, t', k') \<and> sys_ok ok genv t' k' \<and> call_frame t k t' k'"
proof (cases "FdTable_get (task_fds t) fd")
  case None
  then show ?thesis using assms(1) by (simp add: syscall_write_def call_frame_refl)
next
  case (Some f)
  obtain r f' v e where v: "vfs_write F (k_glob k) (k_vfs k) f buf = Some (r, f', v, e)" "vfs_ok ok v" "genv e" "vf_fs_id f' = vf_fs_id f"
    using vfs_write_total [OF sys_okD(1,2) [OF assms(1)] sys_okD(5) [OF assms(1) Some] assms(2) [OF Some]] by blast
  note mp = vfs_mount_points(2) [OF v(1)] and tab = fds_set [OF assms(1) Some v(4)]
  show ?thesis using Some v(1) sys_ok_files [OF assms(1) v(2,3) mp tab] call_frame_files [OF mp]
    by (simp add: syscall_write_def)
qed

lemma syscall_close_total:
  assumes "sys_ok ok genv t k"
  shows "\<exists>r k'. syscall_close F t k fd = Some (r, k') \<and> sys_ok ok genv t k' \<and> call_frame t k t k'"
proof (cases "FdTable_get (task_fds t) fd")
  case None
  then show ?thesis using assms by (simp add: syscall_close_def call_frame_refl)
next
  case (Some f)
  obtain r v where v: "vfs_close F (k_vfs k) f = Some (r, v)" "vfs_ok ok v"
    using vfs_close_total [OF sys_okD(1) [OF assms] sys_okD(5) [OF assms Some]] by blast
  note mp = vfs_mount_points(3) [OF v(1)]
  have "sys_ok ok genv (t\<lparr>task_fds := task_fds t\<rparr>) (k\<lparr>k_glob := k_glob k, k_vfs := v\<rparr>)"
    using sys_ok_files [OF assms v(2) sys_okD(2) [OF assms] mp] sys_okD(3,5) [OF assms] by blast
  moreover have "call_frame t k (t\<lparr>task_fds := task_fds t\<rparr>) (k\<lparr>k_glob := k_glob k, k_vfs := v\<rparr>)" using mp by (rule call_frame_files)
  ultimately show ?thesis using Some v(1) by (simp add: syscall_close_def)
qed

text \<open>One lemma for each system call, then all of them.\<close>

lemma dispatch_open_total:
  assumes "sys_ok ok genv t k" "call_safe may_open T t k SYSCALL_OPEN a0 a2"
  shows "\<exists>r t' k'. dispatch_with_task F T t k SYSCALL_OPEN a0 a1 a2 a3 = Some (r, t', k') \<and> sys_ok ok genv t' k' \<and> call_frame t k t' k'"
proof -
  obtain bs where bs: "copy_user_string (k_mach k) t (unat a0) = Some bs" "is_absolute (bytes_str bs)" "max_fd (task_fds t) + 1 < 2 ^ 64"
    "\<And>i mp. find_mount (mount_points (k_vfs k)) (bytes_str bs) = Some (i, mp) \<Longrightarrow> may_open (drop (length mp) (bytes_str bs))"
    using assms(2) by (auto simp: call_safe_def syscall_numbers)
  obtain r t' k' where "syscall_open F t k (bytes_str bs) = Some (r, t', k')" "sys_ok ok genv t' k'" "call_frame t k t' k'"
    using syscall_open_total [OF assms(1) bs(3,2)] bs(4) by blast
  then show ?thesis using bs(1) by (simp add: dispatch_with_task_def)
qed

lemma dispatch_read_total:
  assumes "sys_ok ok genv t k" "call_safe may_open T t k SYSCALL_READ a0 a2"
  shows "\<exists>r t' k'. dispatch_with_task F T t k SYSCALL_READ a0 a1 a2 a3 = Some (r, t', k') \<and> sys_ok ok genv t' k' \<and> call_frame t k t' k'"
proof -
  have s: "unat a2 \<le> k_heap k" "\<And>f. FdTable_get (task_fds t) (unat a0) = Some f \<Longrightarrow> vf_offset f + length (replicate (unat a2) (0 :: u8)) < 2 ^ 64"
    using assms(2) by (auto simp: call_safe_def syscall_numbers)
  obtain r buf t1 k1 where r: "syscall_read F t k (unat a0) (replicate (unat a2) 0) = Some (r, buf, t1, k1)" "sys_ok ok genv t1 k1" "call_frame t k t1 k1"
    using syscall_read_total [OF assms(1) s(2)] by blast
  obtain n m where m: "copy_to_user (k_mach k1) t1 (unat a1) buf = Some (n, m)" "call_frame t1 k1 t1 (k1\<lparr>k_mach := m\<rparr>)"
    using copy_to_user_frame [OF sys_okD(4) [OF r(2)]] by blast
  have "sys_ok ok genv t1 (k1\<lparr>k_mach := m\<rparr>)" using r(2) by (simp add: sys_ok_def)
  then show ?thesis using s(1) r(1) m(1) call_frame_trans [OF r(3) m(2)]
    by (simp add: dispatch_with_task_def syscall_numbers vec_zeroed_def)
qed

lemma dispatch_write_total:
  assumes "sys_ok ok genv t k" "call_safe may_open T t k SYSCALL_WRITE a0 a2"
  shows "\<exists>r t' k'. dispatch_with_task F T t k SYSCALL_WRITE a0 a1 a2 a3 = Some (r, t', k') \<and> sys_ok ok genv t' k' \<and> call_frame t k t' k'"
proof -
  have s: "unat a2 \<le> k_heap k" "\<And>f. FdTable_get (task_fds t) (unat a0) = Some f \<Longrightarrow> vf_offset f + unat a2 < 2 ^ 64"
    using assms(2) by (auto simp: call_safe_def syscall_numbers)
  obtain n buf where c: "copy_from_user (k_mach k) t (unat a1) (replicate (unat a2) 0) = Some (n, buf)" "length buf = unat a2"
    using copy_from_user_length [OF sys_okD(4) [OF assms(1)]] by blast
  obtain r t1 k1 where r: "syscall_write F t k (unat a0) buf = Some (r, t1, k1)" "sys_ok ok genv t1 k1" "call_frame t k t1 k1"
    using syscall_write_total [OF assms(1), of "unat a0" buf] s(2) c(2) by auto
  then show ?thesis using s(1) c(1) by (simp add: dispatch_with_task_def syscall_numbers vec_zeroed_def)
qed

lemma dispatch_lseek_total:
  assumes "sys_ok ok genv t k"
  shows "\<exists>r t' k'. dispatch_with_task F T t k SYSCALL_LSEEK a0 a1 a2 a3 = Some (r, t', k') \<and> sys_ok ok genv t' k' \<and> call_frame t k t' k'"
proof (cases "FdTable_get (task_fds t) (unat a0)")
  case None
  then show ?thesis using assms by (simp add: dispatch_with_task_def syscall_numbers syscall_lseek_def call_frame_refl)
next
  case (Some f)
  have tab: "vf_fs_id (f\<lparr>vf_offset := unat a1\<rparr>) = vf_fs_id f" by simp
  show ?thesis using Some sys_ok_files [OF assms sys_okD(1,2) [OF assms] _ fds_set [OF assms Some tab]]
      call_frame_files [of "k_vfs k" k t _ "k_glob k"] by (simp add: dispatch_with_task_def syscall_numbers syscall_lseek_def)
qed

lemma dispatch_close_total:
  assumes "sys_ok ok genv t k" "call_safe may_open T t k SYSCALL_CLOSE a0 a2"
  shows "\<exists>r t' k'. dispatch_with_task F T t k SYSCALL_CLOSE a0 a1 a2 a3 = Some (r, t', k') \<and> sys_ok ok genv t' k' \<and> call_frame t k t' k'"
proof -
  obtain n buf where c: "copy_from_user (k_mach k) t (unat a1) (replicate (unat a2) 0) = Some (n, buf)"
    using copy_from_user_length [OF sys_okD(4) [OF assms(1)]] by blast
  obtain r k1 where "syscall_close F t k (unat a0) = Some (r, k1)" "sys_ok ok genv t k1" "call_frame t k t k1"
    using syscall_close_total [OF assms(1)] by blast
  then show ?thesis using c assms(2) by (simp add: dispatch_with_task_def syscall_numbers vec_zeroed_def call_safe_def)
qed

lemma dispatch_sleep_total:
  assumes "sys_ok ok genv t k" "call_safe may_open T t k SYSCALL_SLEEP a0 a2"
  shows "\<exists>r t' k'. dispatch_with_task F T t k SYSCALL_SLEEP a0 a1 a2 a3 = Some (r, t', k') \<and> sys_ok ok genv t' k' \<and> call_frame t k t' k'"
proof -
  obtain now rd where c: "get_sys_time (target_arch T) (k_mach k) = Some (now, (k_mach k)\<lparr>reads := rd\<rparr>)" "now + unat a0 < 2 ^ 64"
    using assms(2) by (auto simp: call_safe_def syscall_numbers)
  let ?t = "t\<lparr>next_schedule := Some (now + unat a0)\<rparr>" and ?k = "k\<lparr>k_mach := (k_mach k)\<lparr>reads := rd\<rparr>\<rparr>"
  have "call_frame t k ?t ?k"
    by (rule call_frameI [where tab = "task_fds t" and nx = "Some (now + unat a0)" and mem = "ram (k_mach k)" and rd = rd]) simp_all
  moreover have "sys_ok ok genv ?t ?k" using assms(1) by (simp add: sys_ok_def)
  ultimately show ?thesis using c by (simp add: dispatch_with_task_def syscall_numbers syscall_sleep_def)
qed

lemma dispatch_uname_total:
  assumes "sys_ok ok genv t k" "call_safe may_open T t k SYSCALL_UNAME a0 a2"
  shows "\<exists>r t' k'. dispatch_with_task F T t k SYSCALL_UNAME a0 a1 a2 a3 = Some (r, t', k') \<and> sys_ok ok genv t' k' \<and> call_frame t k t' k'"
proof -
  have "length (UNAME_MACHINE T) \<le> 65" using assms(2) by (simp add: call_safe_def UTS_STRING_LEN_def)
  then obtain bs where "syscall_uname T t k (unat a0) = do { (_, m) \<leftarrow> copy_to_user (k_mach k) t (unat a0) bs; Some (k\<lparr>k_mach := m\<rparr>) }"
    using uname_bytes [of T t k "unat a0"] by blast
  moreover obtain n m where "copy_to_user (k_mach k) t (unat a0) bs = Some (n, m)" "call_frame t k t (k\<lparr>k_mach := m\<rparr>)"
    using copy_to_user_frame [OF sys_okD(4) [OF assms(1)]] by blast
  moreover have "sys_ok ok genv t (k\<lparr>k_mach := m\<rparr>)" for m using assms(1) by (simp add: sys_ok_def)
  ultimately show ?thesis by (simp add: dispatch_with_task_def syscall_numbers)
qed

lemma dispatch_total:
  assumes "sys_ok ok genv t k" "call_safe may_open T t k num a0 a2"
  shows "\<exists>r t' k'. dispatch_with_task F T t k num a0 a1 a2 a3 = Some (r, t', k') \<and> sys_ok ok genv t' k' \<and> call_frame t k t' k'"
proof (cases "num \<in> {SYSCALL_OPEN, SYSCALL_READ, SYSCALL_WRITE, SYSCALL_LSEEK, SYSCALL_CLOSE, SYSCALL_SLEEP, SYSCALL_UNAME}")
  case True
  note all = dispatch_open_total dispatch_read_total dispatch_write_total dispatch_lseek_total dispatch_close_total
    dispatch_sleep_total dispatch_uname_total
  from True show ?thesis using assms(2) by (elim insertE emptyE) (simp_all only: all [OF assms(1)])
next
  case False
  then show ?thesis using assms(1) by (simp add: dispatch_with_task_def call_frame_refl)
qed

end

section \<open>System calls of the kernel\<close>


definition demo_arch :: "unit Arch" where
  "demo_arch = \<lparr>arch_mapper = Sv39Mapper, get_sys_time = riscv_get_sys_time, Context_default = (), init_context = (\<lambda>_ _. ())\<rparr>"

definition demo_target :: "unit Target" where
  "demo_target = \<lparr>target_arch = demo_arch, debug_assertions = True, UNAME_MACHINE = string_bytes ''riscv64''\<rparr>"

definition demo_kernel :: "DevFS \<Rightarrow> (Globals, DevFS) Kernel" where
  "demo_kernel d = \<lparr>k_mach = demo_machine 0, k_glob = demo_globals\<lparr>g_rng := the (MT19937_new 1)\<rparr>, k_vfs = boot_vfs d, k_heap = 4096\<rparr>"

definition demo_file :: "nat \<Rightarrow> nat \<Rightarrow> VfsFile" where
  "demo_file n off = \<lparr>vf_file = \<lparr>file_fd = n, file_type = CharDev\<rparr>, vf_offset = off, vf_fs_id = 0\<rparr>"

lemma demo_globals_ok: "globals_ok 0 (k_glob (demo_kernel d))"
proof -
  obtain g where "MT19937_new 1 = Some g" "mt_ok 1 0 g" using MT19937_new_ok by blast
  then show ?thesis by (auto simp: globals_ok_def demo_kernel_def)
qed

lemma demo_sys_ok:
  assumes "fds_ok tab" "\<And>fd f. FdTable_get tab fd = Some f \<Longrightarrow> vf_fs_id f = 0" "bt_sorted (fds d)" "devs d = []"
  shows "sys_ok (devfs_ok 0) (globals_ok 0) (demo_task\<lparr>task_fds := tab\<rparr>) (demo_kernel d)"
proof -
  have "vfs_ok (devfs_ok 0) (k_vfs (demo_kernel d))" using boot_vfs_ok [of 0 d] assms(3,4) by (simp add: demo_kernel_def devfs_ok_def)
  moreover have "mounted_fs (k_vfs (demo_kernel d)) = [(0, d)]" by (simp add: demo_kernel_def boot_vfs_def)
  ultimately show ?thesis using assms(1,2) demo_task_ok(1) demo_globals_ok [of d] by (auto simp: sys_ok_def)
qed


section \<open>Reading the log from a program\<close>

lemma user_bytes_written:
  assumes "allocs_ok (page_allocs t)" "sorted_wrt phys_apart (page_allocs t)" "a < 2 ^ 64" "mapped_len (page_allocs t) a (length bs) = length bs"
  shows "\<exists>n m'. copy_to_user m t a bs = Some (n, m') \<and> user_bytes m' t a (length bs) = bs"
proof -
  let ?as = "page_allocs t"
  have inj: "x = y" if "user_ptr ?as x = Some p" "user_ptr ?as y = Some p" for x y p
    using user_ptr_inj [OF _ assms(2) that] assms(1) by (simp add: allocs_ok_def)
  have "user_store (ram m) ?as a bs (the (user_ptr ?as (a + i))) = bs ! i" if "i < length bs" for i
  proof -
    have i: "i < mapped_len ?as a (length bs)" using that assms(4) by simp
    then obtain p where "user_ptr ?as (a + i) = Some p" using mapped_len_mapped by blast
    then show ?thesis using user_store_at [OF inj i] by simp
  qed
  then have "map (\<lambda>i. user_store (ram m) ?as a bs (the (user_ptr ?as (a + i)))) [0..<length bs] = bs" by (intro nth_equalityI) auto
  then show ?thesis using copy_to_user_loop_spec [OF assms(1,3)] assms(4) by (simp add: copy_to_user_def usize_sub_def user_bytes_def)
qed

text \<open>C28: A program that reads its open \<^verbatim>\<open>/dev/kmsg\<close> with the read system call, into a buffer it has: the call returns the number
  of bytes of the log from the offset of the file on, as far as the buffer reaches; afterwards the buffer in the memory of
  the program holds these bytes, followed by zeros, and the offset has moved on by their number.\<close>

theorem syscall_read_kmsg:
  fixes k :: "(Globals, DevFS) Kernel"
  defines "log \<equiv> log_text (get_messages (g_kmsg (k_glob k)))"
  assumes "sys_ok (devfs_ok n) (globals_ok n) t k" "sorted_wrt phys_apart (page_allocs t)"
    "FdTable_get (task_fds t) (unat a0) = Some f" "map_of (mounted_fs (k_vfs k)) (vf_fs_id f) = Some d"
    "map_of (fds d) (file_fd (vf_file f)) = Some ''kmsg''" "unat a2 \<le> k_heap k" "vf_offset f + unat a2 < 2 ^ 64"
    "mapped_len (page_allocs t) (unat a1) (unat a2) = unat a2"
  shows "\<exists>t' k'. dispatch_with_task DevFS_ops T t k SYSCALL_READ a0 a1 a2 a3 =
      Some (Some (of_nat (length (take (unat a2) (drop (vf_offset f) log)))), t', k') \<and>
    user_bytes (k_mach k') t (unat a1) (unat a2) =
      take (unat a2) (drop (vf_offset f) log) @ replicate (unat a2 - length (take (unat a2) (drop (vf_offset f) log))) 0 \<and>
    FdTable_get (task_fds t') (unat a0) = Some (f\<lparr>vf_offset := vf_offset f + length (take (unat a2) (drop (vf_offset f) log))\<rparr>)"
proof -
  define out where "out = take (unat a2) (drop (vf_offset f) log)"
  define bs where "bs = out @ replicate (unat a2 - length out) 0"
  define f' where "f' = f\<lparr>vf_offset := vf_offset f + length out\<rparr>"
  have srt: "bt_sorted (mounted_fs (k_vfs k))" "bt_sorted (fd_files (task_fds t))"
    using vfs_okD(2) sys_okD(1,3) [OF assms(2)] by (auto simp: fds_ok_def)
  obtain v where v: "vfs_read DevFS_ops (k_glob k) (k_vfs k) f (replicate (unat a2) 0) = Some (Inr (length out), bs, f', v, k_glob k)"
    using vfs_read_kmsg [OF srt(1) assms(5,6), of "replicate (unat a2) 0" "k_glob k"] assms(8)
    by (auto simp: out_def log_def bs_def f'_def)
  define t' where "t' = t\<lparr>task_fds := FdTable_set (task_fds t) (unat a0) f'\<rparr>"
  have len: "length bs = unat a2" by (simp add: bs_def out_def)
  have t': "page_allocs t' = page_allocs t" "user_bytes m t' = user_bytes m t" for m by (simp_all add: t'_def user_bytes_def fun_eq_iff)
  obtain c m' where m': "copy_to_user (k_mach k) t' (unat a1) bs = Some (c, m')" "user_bytes m' t (unat a1) (unat a2) = bs"
    using user_bytes_written [of t' "unat a1" bs "k_mach k"] sys_okD(4) [OF assms(2)] assms(3,9) unsigned_less [of a1] len t' by auto
  have "dispatch_with_task DevFS_ops T t k SYSCALL_READ a0 a1 a2 a3 =
      Some (Some (of_nat (length out)), t', k\<lparr>k_glob := k_glob k, k_vfs := v, k_mach := m'\<rparr>)"
    using assms(4,7) v m'(1) by (simp add: dispatch_with_task_def syscall_numbers vec_zeroed_def syscall_read_def isize_as_u64_usize t'_def)
  moreover have "FdTable_get (task_fds t') (unat a0) = Some f'" using srt(2) by (simp add: t'_def FdTable_get_def FdTable_set_def bt_insert_lookup)
  ultimately show ?thesis using m'(2) by (auto simp: out_def [symmetric] bs_def f'_def)
qed

theorem syscall_read_kmsg_witness:
  "\<exists>t' k'. dispatch_with_task DevFS_ops demo_target (demo_task\<lparr>task_fds := \<lparr>max_fd = 1, fd_files = [(0, demo_file 0 4)]\<rparr>\<rparr>)
     (demo_kernel \<lparr>fds = [(0, ''kmsg'')], devs = []\<rparr>) SYSCALL_READ 0 65536 16 0 = Some (Some 16, t', k') \<and>
     user_bytes (k_mach k') demo_task 65536 16 = string_bytes '' 0.001000] hello''"
proof -
  let ?tab = "\<lparr>max_fd = 1, fd_files = [(0, demo_file 0 4)]\<rparr>" and ?d = "\<lparr>fds = [(0, ''kmsg'')], devs = []\<rparr>"
  have ok: "sys_ok (devfs_ok 0) (globals_ok 0) (demo_task\<lparr>task_fds := ?tab\<rparr>) (demo_kernel ?d)"
    by (rule demo_sys_ok) (auto simp: fds_ok_def FdTable_get_def demo_file_def split: if_splits)
  have len: "mapped_len (page_allocs demo_task) 65536 16 = 16"
    using arg_cong [OF demo_user_bytes, of length] by (simp add: user_bytes_def)
  have g: "g_kmsg (k_glob (demo_kernel ?d)) = g_kmsg demo_globals" by (simp add: demo_kernel_def)
  have out: "take 16 (drop 4 (string_bytes ''[    0.001000] hello'')) = string_bytes '' 0.001000] hello''" by (simp add: string_bytes_def)
  have 16: "length (string_bytes '' 0.001000] hello'') = 16" by (simp add: string_bytes_def)
  have hyps: "sorted_wrt phys_apart (page_allocs (demo_task\<lparr>task_fds := ?tab\<rparr>))"
    "FdTable_get (task_fds (demo_task\<lparr>task_fds := ?tab\<rparr>)) (unat (0 :: u64)) = Some (demo_file 0 4)"
    "map_of (mounted_fs (k_vfs (demo_kernel ?d))) (vf_fs_id (demo_file 0 4)) = Some ?d"
    "map_of (fds ?d) (file_fd (vf_file (demo_file 0 4))) = Some ''kmsg''"
    "unat (16 :: u64) \<le> k_heap (demo_kernel ?d)" "vf_offset (demo_file 0 4) + unat (16 :: u64) < 2 ^ 64"
    "mapped_len (page_allocs (demo_task\<lparr>task_fds := ?tab\<rparr>)) (unat (65536 :: u64)) (unat (16 :: u64)) = unat (16 :: u64)"
    using demo_task_ok(2) len by (simp_all add: FdTable_get_def demo_file_def demo_kernel_def boot_vfs_def)
  have same: "user_bytes m (demo_task\<lparr>task_fds := ?tab\<rparr>) = user_bytes m demo_task" for m by (simp add: user_bytes_def fun_eq_iff)
  have "vf_offset (demo_file 0 4) = 4" by (simp add: demo_file_def)
  then show ?thesis
    using syscall_read_kmsg [OF ok hyps, of demo_target 0, unfolded g demo_log same] by (auto simp: out 16)
qed

section \<open>Closing\<close>

text \<open>The close system call leaves the descriptor in the table of the task. The file system gives the number of the closed
  file away again, so that after closing the file opened last and opening another one the task has two descriptors for
  the new file: what it reads and writes through the closed one reaches a file it was never opened for.\<close>

theorem syscall_close_keeps_descriptor:
  assumes "sys_ok (devfs_ok n) (globals_ok n) t k" "k_vfs k = boot_vfs d" "contiguous d" "length (fds d) = Suc i"
    "FdTable_get (task_fds t) fd = Some f" "vf_file f = \<lparr>file_fd = i, file_type = CharDev\<rparr>" "vf_fs_id f = 0"
    "dev \<in> set DEVFS_FILES" "max_fd (task_fds t) + 1 < 2 ^ 64"
  shows "\<exists>k' t'' k''. syscall_close DevFS_ops t k fd = Some (SYSCALL_RET_OK, k') \<and>
    syscall_open DevFS_ops t k' (''/dev/'' @ dev) = Some (usize_as_isize (max_fd (task_fds t)), t'', k'') \<and> fd \<noteq> max_fd (task_fds t) \<and>
    FdTable_get (task_fds t'') fd = Some f \<and>
    FdTable_get (task_fds t'') (max_fd (task_fds t)) = Some \<lparr>vf_file = vf_file f, vf_offset = 0, vf_fs_id = 0\<rparr> \<and>
    (\<exists>d''. k_vfs k'' = boot_vfs d'' \<and> map_of (fds d'') i = Some dev)"
proof -
  define d' where "d' = d\<lparr>fds := bt_remove i (fds d)\<rparr>"
  have srt: "bt_sorted (fds d)" and keys: "fst ` set (fds d) = {0..<Suc i}" using contiguous_sorted contiguous_keys assms(3,4) by auto
  have d': "bt_sorted (fds d')" "fst ` set (fds d') = {0..<i}"
    using srt keys by (auto simp: d'_def bt_remove_sorted bt_remove_keys)
  have "length (fds d') = card (fst ` set (fds d'))" using bt_sorted_distinct [OF d'(1)] distinct_card [of "map fst (fds d')"] by simp
  then have len: "length (fds d') = i" by (simp add: d'(2))
  have close: "syscall_close DevFS_ops t k fd = Some (SYSCALL_RET_OK, k\<lparr>k_vfs := boot_vfs d'\<rparr>)"
    using assms(2,5-7) by (simp add: syscall_close_def vfs_close_def devfs_close_def boot_set_fs d'_def) (simp add: boot_vfs_def)
  have slash: "CHR ''/'' \<notin> set dev" using assms(8) by (auto simp: DEVFS_FILES_def)
  define d'' where "d'' = d'\<lparr>fds := bt_insert i dev (fds d')\<rparr>"
  have "devfs_open d' (CHR ''/'' # dev) = Some (Inr \<lparr>file_fd = i, file_type = CharDev\<rparr>, d'')"
    using devfs_open_name [of "CHR ''/'' # dev" dev d'] path_iter_abs [OF slash] assms(8) len by (simp add: d''_def)
  then have opn: "vfs_open DevFS_ops (boot_vfs d') (''/dev/'' @ dev) = Some (Inr \<lparr>vf_file = vf_file f, vf_offset = 0, vf_fs_id = 0\<rparr>, boot_vfs d'')"
    using assms(6) by (simp add: vfs_open_def is_absolute_def path_starts_with_def find_mount_def strip_prefix_def boot_vfs_def set_fs_def)
  obtain tab where tab: "FdTable_add (task_fds t) \<lparr>vf_file = vf_file f, vf_offset = 0, vf_fs_id = 0\<rparr> = Some (max_fd (task_fds t), tab)"
    "FdTable_get (task_fds t) (max_fd (task_fds t)) = None"
    "\<And>x. FdTable_get tab x = (if x = max_fd (task_fds t) then Some \<lparr>vf_file = vf_file f, vf_offset = 0, vf_fs_id = 0\<rparr> else FdTable_get (task_fds t) x)"
    using FdTable_add_ok [OF sys_okD(3) [OF assms(1)] assms(9)] by blast
  have "fd \<noteq> max_fd (task_fds t)" using tab(2) assms(5) by auto
  moreover have "map_of (fds d'') i = Some dev" by (simp add: d''_def bt_insert_lookup [OF d'(1)])
  moreover have "syscall_open DevFS_ops t (k\<lparr>k_vfs := boot_vfs d'\<rparr>) (''/dev/'' @ dev) =
      Some (usize_as_isize (max_fd (task_fds t)), t\<lparr>task_fds := tab\<rparr>, k\<lparr>k_vfs := boot_vfs d''\<rparr>)"
    using opn tab(1) by (simp add: syscall_open_def)
  ultimately show ?thesis using close tab(3) assms(5)
    by (intro exI [of _ "k\<lparr>k_vfs := boot_vfs d'\<rparr>"] exI [of _ "t\<lparr>task_fds := tab\<rparr>"] exI [of _ "k\<lparr>k_vfs := boot_vfs d''\<rparr>"]) auto
qed

theorem syscall_close_keeps_descriptor_witness:
  "\<exists>k' t'' k''. syscall_close DevFS_ops (demo_task\<lparr>task_fds := \<lparr>max_fd = 1, fd_files = [(0, demo_file 0 0)]\<rparr>\<rparr>)
       (demo_kernel \<lparr>fds = [(0, ''zero'')], devs = []\<rparr>) 0 = Some (SYSCALL_RET_OK, k') \<and>
     syscall_open DevFS_ops (demo_task\<lparr>task_fds := \<lparr>max_fd = 1, fd_files = [(0, demo_file 0 0)]\<rparr>\<rparr>) k' ''/dev/kmsg'' = Some (1, t'', k'') \<and>
     FdTable_get (task_fds t'') 0 = Some (demo_file 0 0) \<and> FdTable_get (task_fds t'') 1 = Some (demo_file 0 0)"
proof -
  let ?tab = "\<lparr>max_fd = 1, fd_files = [(0, demo_file 0 0)]\<rparr>" and ?d = "\<lparr>fds = [(0, ''zero'')], devs = []\<rparr>"
  have ok: "sys_ok (devfs_ok 0) (globals_ok 0) (demo_task\<lparr>task_fds := ?tab\<rparr>) (demo_kernel ?d)"
    by (rule demo_sys_ok) (auto simp: fds_ok_def FdTable_get_def demo_file_def split: if_splits)
  show ?thesis
    using syscall_close_keeps_descriptor [of 0 "demo_task\<lparr>task_fds := ?tab\<rparr>" "demo_kernel ?d" ?d 0 0 "demo_file 0 0" "''kmsg''"] ok
    by (auto simp: demo_kernel_def contiguous_def FdTable_get_def demo_file_def DEVFS_FILES_def usize_as_isize_def)
qed

section \<open>Requests that stop the kernel\<close>

text \<open>C29: Three requests of a program that the kernel does not survive: opening a relative path, reading \<^verbatim>\<open>/dev/zero\<close> with the
  file moved so far that the offset passes the end of the machine word, and a buffer that the heap cannot hold. Nothing
  keeps a program from making them: \<^verbatim>\<open>lseek\<close> accepts every position of a file that is open.\<close>

theorem syscall_panics:
  assumes "copy_user_string (k_mach k) t (unat a0) = Some bs" "\<not> is_absolute (bytes_str bs)"
    and "FdTable_get (task_fds t) (unat fd) = Some f" "bt_sorted (fd_files (task_fds t))"
      "map_of (mounted_fs (k_vfs k)) (vf_fs_id f) = Some d" "map_of (fds d) (file_fd (vf_file f)) = Some ''zero''"
      "0 < unat len" "2 ^ 64 \<le> unat pos + unat len"
    and "k_heap k < unat big"
  shows "dispatch_with_task DevFS_ops T t k SYSCALL_OPEN a0 a1 a2 a3 = None \<and>
    (\<exists>t'. dispatch_with_task DevFS_ops T t k SYSCALL_LSEEK fd pos a2 a3 = Some (Some 0, t', k) \<and>
      dispatch_with_task DevFS_ops T t' k SYSCALL_READ fd a1 len a3 = None) \<and>
    dispatch_with_task DevFS_ops T t k SYSCALL_READ fd a1 big a3 = None"
proof (intro conjI)
  show "dispatch_with_task DevFS_ops T t k SYSCALL_OPEN a0 a1 a2 a3 = None"
    using assms(1,2) by (simp add: dispatch_with_task_def syscall_open_def vfs_open_def rust_assert_def)
  show "dispatch_with_task DevFS_ops T t k SYSCALL_READ fd a1 big a3 = None"
    using assms(9) by (simp add: dispatch_with_task_def syscall_numbers vec_zeroed_def)
  let ?f = "f\<lparr>vf_offset := unat pos\<rparr>"
  let ?t = "t\<lparr>task_fds := FdTable_set (task_fds t) (unat fd) ?f\<rparr>"
  have get: "FdTable_get (task_fds ?t) (unat fd) = Some ?f" using assms(4) by (simp add: FdTable_get_def FdTable_set_def bt_insert_lookup)
  have "vfs_read DevFS_ops (k_glob k) (k_vfs k) ?f (replicate (unat len) 0) = None"
    using assms(5,6,8) by (simp add: vfs_read_def devfs_read_def usize_add_def)
  then have "dispatch_with_task DevFS_ops T ?t k SYSCALL_READ fd a1 len a3 = None"
    using get by (simp add: dispatch_with_task_def syscall_numbers vec_zeroed_def syscall_read_def)
  moreover have "dispatch_with_task DevFS_ops T t k SYSCALL_LSEEK fd pos a2 a3 = Some (Some 0, ?t, k)"
    using assms(3) by (simp add: dispatch_with_task_def syscall_numbers syscall_lseek_def SYSCALL_RET_OK_def isize_as_u64_def)
  ultimately show "\<exists>t'. dispatch_with_task DevFS_ops T t k SYSCALL_LSEEK fd pos a2 a3 = Some (Some 0, t', k) \<and>
      dispatch_with_task DevFS_ops T t' k SYSCALL_READ fd a1 len a3 = None" by blast
qed

theorem syscall_panics_witness:
  "dispatch_with_task DevFS_ops demo_target (demo_task\<lparr>task_fds := \<lparr>max_fd = 1, fd_files = [(0, demo_file 0 0)]\<rparr>\<rparr>)
       (demo_kernel \<lparr>fds = [(0, ''zero'')], devs = []\<rparr>) SYSCALL_OPEN 65536 65536 0 0 = None \<and>
   (\<exists>t'. dispatch_with_task DevFS_ops demo_target (demo_task\<lparr>task_fds := \<lparr>max_fd = 1, fd_files = [(0, demo_file 0 0)]\<rparr>\<rparr>)
       (demo_kernel \<lparr>fds = [(0, ''zero'')], devs = []\<rparr>) SYSCALL_LSEEK 0 (-1) 0 0 = Some (Some 0, t', demo_kernel \<lparr>fds = [(0, ''zero'')], devs = []\<rparr>) \<and>
     dispatch_with_task DevFS_ops demo_target t' (demo_kernel \<lparr>fds = [(0, ''zero'')], devs = []\<rparr>) SYSCALL_READ 0 65536 1 0 = None)"
proof -
  let ?t = "demo_task\<lparr>task_fds := \<lparr>max_fd = 1, fd_files = [(0, demo_file 0 0)]\<rparr>\<rparr>" and ?k = "demo_kernel \<lparr>fds = [(0, ''zero'')], devs = []\<rparr>"
  have "user_bytes (demo_machine 0) ?t 65536 16 = replicate 16 0" using demo_user_bytes [of 0] by (simp add: user_bytes_def)
  then have "copy_user_string (k_mach ?k) ?t (unat (65536 :: u64)) = Some []"
    using copy_user_string_spec [of ?t 65536 "demo_machine 0"] demo_task_ok(1) by (simp add: demo_kernel_def utf8_lossy.simps)
  moreover have "2 ^ 64 \<le> unat (-1 :: u64) + unat (1 :: u64)" by (simp add: unsigned_minus_1_eq_mask mask_eq_exp_minus_1)
  ultimately show ?thesis
    using syscall_panics [of ?k ?t 65536 "[]" 0 "demo_file 0 0" "\<lparr>fds = [(0, ''zero'')], devs = []\<rparr>" 1 "-1" "4097" demo_target 65536 0 0]
    by (simp add: bytes_str_def is_absolute_def path_starts_with_def FdTable_get_def demo_file_def demo_kernel_def boot_vfs_def)
qed

end
