(* ===== verification/Trap.thy ===== *)
theory Trap
  imports Syscall
begin

text \<open>
  Traps and system calls of the two architectures (\<^verbatim>\<open>src/src/arch/riscv64/{trap,syscall}.rs\<close>,
  \<^verbatim>\<open>src/src/arch/arm64/{trap,syscall,gic}.rs\<close>) with the registers they set.

  \<open>System\<close> is the state a trap handler works on: the scheduler, the kernel behind the system calls and the control registers
  of the CPU. What the hardware delivers is an argument (the cause, the number of the interrupt); the registers the
  assembly code saves and restores are the context. Barriers and TLB flushes have no counterpart.
\<close>

record ('c, 'e, 'f, 'r) System =
  sched :: "'c Scheduler"
  kern :: "('e, 'f) Kernel"
  regs :: 'r

definition set_mach :: "('c, 'e, 'f, 'r) System \<Rightarrow> Machine \<Rightarrow> ('c, 'e, 'f, 'r) System" where
  "set_mach S m = S\<lparr>kern := (kern S)\<lparr>k_mach := m\<rparr>\<rparr>"

text \<open>The part the two \<^verbatim>\<open>syscall\<close> functions share: the dispatch on the current task, in place.\<close>

definition dispatch_current ::
  "('e, 'f) FileSystem \<Rightarrow> 'c Target \<Rightarrow> u64 \<Rightarrow> u64 \<Rightarrow> u64 \<Rightarrow> u64 \<Rightarrow> u64 \<Rightarrow> ('c, 'e, 'f, 'r) System \<Rightarrow>
   (u64 option \<times> ('c, 'e, 'f, 'r) System) option" where
  "dispatch_current F T num a0 a1 a2 a3 S = do {
     t \<leftarrow> current_task (sched S);
     (ret, t, k) \<leftarrow> dispatch_with_task F T t (kern S) num a0 a1 a2 a3;
     Some (ret, S\<lparr>sched := set_task (sched S) (current_pid (sched S)) t, kern := k\<rparr>)
   }"

section \<open>RISC-V\<close>

record rv_regs =
  satp :: u64
  sstatus :: u64
  stimecmp :: nat

definition MODE_SV39 :: u64 where "MODE_SV39 = 8"
definition TIMER_INTERVAL :: nat where "TIMER_INTERVAL = 1000"
definition INTERRUPT_FLAG :: u64 where "INTERRUPT_FLAG = push_bit 63 1"
definition SCAUSE_ILLEGAL_INS :: u64 where "SCAUSE_ILLEGAL_INS = 2"
definition SCAUSE_TIMER_S :: u64 where "SCAUSE_TIMER_S = 5 OR INTERRUPT_FLAG"
definition SCAUSE_ECALL_U :: u64 where "SCAUSE_ECALL_U = 8"
definition SCAUSE_ECALL_S :: u64 where "SCAUSE_ECALL_S = 9"

definition set_satp :: "u64 \<Rightarrow> u64 \<Rightarrow> rv_regs \<Rightarrow> rv_regs" where
  "set_satp ppn mode r = r\<lparr>satp := ppn OR push_bit 60 mode\<rparr>"

definition rv_switch_to :: "table \<Rightarrow> rv_regs \<Rightarrow> rv_regs option" where
  "rv_switch_to root r = do { p \<leftarrow> Table_page_number root; Some (set_satp (of_nat p) MODE_SV39 r) }"

definition switch_privilege_level :: "'c Task \<Rightarrow> rv_regs \<Rightarrow> rv_regs" where
  "switch_privilege_level next_task r =
     (if \<not> is_kernel next_task then r\<lparr>sstatus := sstatus r AND NOT (push_bit 8 1)\<rparr> else r\<lparr>sstatus := sstatus r OR push_bit 8 1\<rparr>)"

text \<open>The end of every handler: the privilege level and the page table of the next task.\<close>

definition rv_enter :: "'c Task \<Rightarrow> rv_regs \<Rightarrow> rv_regs option" where
  "rv_enter next_task r = rv_switch_to (task_page next_task) (switch_privilege_level next_task r)"

definition rv_to_kernel_pt :: "('c, 'e, 'f, rv_regs) System \<Rightarrow> ('c, 'e, 'f, rv_regs) System" where
  "rv_to_kernel_pt S = S\<lparr>regs := (regs S)\<lparr>satp := of_nat (kernel_pt (k_mach (kern S))) OR push_bit 60 MODE_SV39\<rparr>\<rparr>"

definition rv_set_timer :: "nat \<Rightarrow> ('c, 'e, 'f, rv_regs) System \<Rightarrow> ('c, 'e, 'f, rv_regs) System option" where
  "rv_set_timer interval S = do {
     let m = k_mach (kern S);
     t \<leftarrow> usize_add (timer_at m (reads m)) interval;
     Some (set_mach (S\<lparr>regs := (regs S)\<lparr>stimecmp := t\<rparr>\<rparr>) (m\<lparr>reads := reads m + 1\<rparr>))
   }"

definition rv_kill_task ::
  "'c Arch \<Rightarrow> ('c, 'e, 'f, rv_regs) System \<Rightarrow> ('c \<times> ('c, 'e, 'f, rv_regs) System) option" where
  "rv_kill_task A S = do {
     cur \<leftarrow> current_task (sched S);
     (s, m) \<leftarrow> kill A (sched S) (k_mach (kern S)) (pid cur);
     next_task \<leftarrow> current_task s;
     r \<leftarrow> rv_enter next_task (regs S);
     Some (task_ctx next_task, set_mach (S\<lparr>sched := s, regs := r\<rparr>) m)
   }"

definition rv_switch_task ::
  "'c Arch \<Rightarrow> 'c \<Rightarrow> ('c, 'e, 'f, rv_regs) System \<Rightarrow> ('c \<times> ('c, 'e, 'f, rv_regs) System) option" where
  "rv_switch_task A ctx S = do {
     (next_task, ctx, s, m) \<leftarrow> switch_task A (sched S) (k_mach (kern S)) ctx;
     r \<leftarrow> rv_enter next_task (regs S);
     Some (ctx, set_mach (S\<lparr>sched := s, regs := r\<rparr>) m)
   }"

definition rv_syscall_fork ::
  "Linker \<Rightarrow> riscv_context Arch \<Rightarrow> riscv_context \<Rightarrow> (riscv_context, 'e, 'f, rv_regs) System \<Rightarrow>
   (riscv_context \<times> (riscv_context, 'e, 'f, rv_regs) System) option" where
  "rv_syscall_fork lds A ctx S = do {
     cur \<leftarrow> current_task (sched S);
     let s = set_task (sched S) (current_pid (sched S)) (cur\<lparr>task_ctx := ctx\<rparr>);
     (child_pid, s, m) \<leftarrow> fork lds A s (k_mach (kern S));
     let ctx = ctx\<lparr>rv_x := (rv_x ctx)[9 := of_nat child_pid]\<rparr>;
     child \<leftarrow> map_of (tasks s) child_pid;
     let child_ctx = task_ctx child;
     let child = child\<lparr>task_ctx := child_ctx\<lparr>rv_x := (rv_x child_ctx)[9 := 0]\<rparr>\<rparr>;
     Some (ctx, set_mach (S\<lparr>sched := set_task s child_pid child\<rparr>) m)
   }"

definition rv_syscall ::
  "Linker \<Rightarrow> ('e, 'f) FileSystem \<Rightarrow> riscv_context Target \<Rightarrow> riscv_context \<Rightarrow> (riscv_context, 'e, 'f, rv_regs) System \<Rightarrow>
   (riscv_context \<times> (riscv_context, 'e, 'f, rv_regs) System) option" where
  "rv_syscall lds F T ctx S = do {
     let x = rv_x ctx;
     let syscall_num = x ! 16;
     (ret, S) \<leftarrow> dispatch_current F T syscall_num (x ! 9) (x ! 10) (x ! 11) (x ! 12) S;
     let ctx = (case ret of Some ret \<Rightarrow> ctx\<lparr>rv_x := x[9 := ret]\<rparr> | None \<Rightarrow> ctx);
     if syscall_num = SYSCALL_EXIT then rv_kill_task (target_arch T) S
     else do {
       (ctx, S) \<leftarrow> (if syscall_num = SYSCALL_FORK then rv_syscall_fork lds (target_arch T) ctx S else Some (ctx, S));
       rv_switch_task (target_arch T) ctx S
     }
   }"

definition strap_handler ::
  "Linker \<Rightarrow> ('e, 'f) FileSystem \<Rightarrow> riscv_context Target \<Rightarrow> u64 \<Rightarrow> riscv_context \<Rightarrow> (riscv_context, 'e, 'f, rv_regs) System \<Rightarrow>
   (riscv_context \<times> (riscv_context, 'e, 'f, rv_regs) System) option" where
  "strap_handler lds F T scause ctx S =
     (if scause = SCAUSE_ECALL_U \<or> scause = SCAUSE_ECALL_S then do {
        epc \<leftarrow> usize_add (unat (rv_epc ctx)) 4;
        let ctx = ctx\<lparr>rv_epc := of_nat epc\<rparr>;
        if scause = SCAUSE_ECALL_U then rv_syscall lds F T ctx (rv_to_kernel_pt S) else Some (ctx, S)
      }
      else if scause = SCAUSE_TIMER_S then do {
        S \<leftarrow> rv_set_timer TIMER_INTERVAL S;
        rv_switch_task (target_arch T) ctx (rv_to_kernel_pt S)
      }
      else if scause = SCAUSE_ILLEGAL_INS then rv_kill_task (target_arch T) (rv_to_kernel_pt S)
      else Some (ctx, S))"

section \<open>ARM\<close>

record arm_regs =
  ttbr0_el1 :: u64
  ttbr1_el1 :: u64
  sp_el0 :: u64
  sctlr_el1 :: u64
  cntfrq_el0 :: nat
  cntv_tval :: nat
  gicd_base :: nat
  gicc_base :: nat
  gic_writes :: "(nat \<times> u32) list"

definition ESR_EC_OFFSET :: nat where "ESR_EC_OFFSET = 26"
definition ESR_EC_MASK :: u64 where "ESR_EC_MASK = 63"
definition ESR_EC_UNKOWN :: u64 where "ESR_EC_UNKOWN = 0"
definition ESR_EC_WFI :: u64 where "ESR_EC_WFI = 1"
definition ESR_EC_SVC64 :: u64 where "ESR_EC_SVC64 = 21"
definition ESR_EC_TRAPPED_MSR :: u64 where "ESR_EC_TRAPPED_MSR = 24"
definition ESR_EC_INST_ABORT :: u64 where "ESR_EC_INST_ABORT = 32"
definition ESR_EC_DATA_ABORT :: u64 where "ESR_EC_DATA_ABORT = 36"

subsection \<open>The interrupt controller\<close>

text \<open>Writes to the memory-mapped registers are kept in their order; an address is the base plus the offset, as \<^verbatim>\<open>u32\<close>.\<close>

definition GICD_CTLR :: nat where "GICD_CTLR = 0"
definition GICD_ISENABLER :: nat where "GICD_ISENABLER = 256"
definition GICC_CTLR :: nat where "GICC_CTLR = 0"
definition GICC_PMR :: nat where "GICC_PMR = 4"
definition GICC_IAR :: nat where "GICC_IAR = 12"
definition GICC_EOIR :: nat where "GICC_EOIR = 16"
definition INTID_VTIMER :: u32 where "INTID_VTIMER = 27"

definition gicd_mmio_write :: "nat \<Rightarrow> u32 \<Rightarrow> arm_regs \<Rightarrow> arm_regs option" where
  "gicd_mmio_write reg v r = (if gicd_base r + reg < 2 ^ 32 then Some (r\<lparr>gic_writes := gic_writes r @ [(gicd_base r + reg, v)]\<rparr>) else None)"

definition gicc_mmio_write :: "nat \<Rightarrow> u32 \<Rightarrow> arm_regs \<Rightarrow> arm_regs option" where
  "gicc_mmio_write reg v r = (if gicc_base r + reg < 2 ^ 32 then Some (r\<lparr>gic_writes := gic_writes r @ [(gicc_base r + reg, v)]\<rparr>) else None)"

text \<open>A read of a register of the CPU interface; \<open>dev\<close> is what the device answers at an address.\<close>

definition gicc_mmio_read :: "(nat \<Rightarrow> u32) \<Rightarrow> nat \<Rightarrow> arm_regs \<Rightarrow> u32 option" where
  "gicc_mmio_read dev reg r = (if gicc_base r + reg < 2 ^ 32 then Some (dev (gicc_base r + reg)) else None)"

definition gic_enable_irq :: "nat \<Rightarrow> arm_regs \<Rightarrow> arm_regs option" where
  "gic_enable_irq irq r = gicd_mmio_write (GICD_ISENABLER + irq div 32 * 4) (push_bit (irq mod 32) 1) r"

text \<open>The end of \<^verbatim>\<open>soc_init\<close>.\<close>

definition gic_init :: "arm_regs \<Rightarrow> arm_regs option" where
  "gic_init r = do {
     r \<leftarrow> gic_enable_irq 27 r;
     r \<leftarrow> gicd_mmio_write GICD_CTLR 1 r;
     r \<leftarrow> gicc_mmio_write GICC_CTLR 1 r;
     gicc_mmio_write GICC_PMR 255 r
   }"

subsection \<open>Traps\<close>

definition set_ttbrx :: "u64 \<Rightarrow> arm_regs \<Rightarrow> arm_regs" where
  "set_ttbrx v r = r\<lparr>ttbr0_el1 := v, ttbr1_el1 := v\<rparr>"

definition mmu_enable :: "arm_regs \<Rightarrow> arm_regs" where
  "mmu_enable r = r\<lparr>sctlr_el1 := sctlr_el1 r OR 1 OR push_bit 2 1 OR push_bit 12 1\<rparr>"

definition arm_switch_to :: "table \<Rightarrow> arm_regs \<Rightarrow> arm_regs option" where
  "arm_switch_to root r = do { p \<leftarrow> Table_page_number root; Some (mmu_enable (set_ttbrx (push_bit PAGE_BITS (of_nat p)) r)) }"

definition arm_to_kernel_pt :: "('c, 'e, 'f, arm_regs) System \<Rightarrow> ('c, 'e, 'f, arm_regs) System" where
  "arm_to_kernel_pt S = S\<lparr>regs := set_ttbrx (push_bit 12 (of_nat (kernel_pt (k_mach (kern S))))) (regs S)\<rparr>"

definition arm_set_timer :: "arm_regs \<Rightarrow> arm_regs" where
  "arm_set_timer r = r\<lparr>cntv_tval := cntfrq_el0 r div 1000\<rparr>"

text \<open>The end of every handler: the stack of a user task and the page table.\<close>

definition arm_enter :: "'c Task \<Rightarrow> arm64_context \<Rightarrow> arm_regs \<Rightarrow> arm_regs option" where
  "arm_enter next_task ctx r = arm_switch_to (task_page next_task) (if \<not> is_kernel next_task then r\<lparr>sp_el0 := arm_sp ctx\<rparr> else r)"

definition arm_kill_task ::
  "arm64_context Arch \<Rightarrow> (arm64_context, 'e, 'f, arm_regs) System \<Rightarrow> (arm64_context \<times> (arm64_context, 'e, 'f, arm_regs) System) option" where
  "arm_kill_task A S = do {
     cur \<leftarrow> current_task (sched S);
     (s, m) \<leftarrow> kill A (sched S) (k_mach (kern S)) (pid cur);
     next_task \<leftarrow> current_task s;
     r \<leftarrow> arm_enter next_task (task_ctx next_task) (regs S);
     Some (task_ctx next_task, set_mach (S\<lparr>sched := s, regs := r\<rparr>) m)
   }"

text \<open>The stack pointer of a user task is in a register of its own, which joins the saved context.\<close>

definition arm_save_sp :: "arm64_context \<Rightarrow> ('c, 'e, 'f, arm_regs) System \<Rightarrow> arm64_context option" where
  "arm_save_sp ctx S = do {
     cur \<leftarrow> current_task (sched S);
     Some (if \<not> is_kernel cur then ctx\<lparr>arm_sp := sp_el0 (regs S)\<rparr> else ctx)
   }"

definition arm_switch_task ::
  "arm64_context Arch \<Rightarrow> arm64_context \<Rightarrow> (arm64_context, 'e, 'f, arm_regs) System \<Rightarrow>
   (arm64_context \<times> (arm64_context, 'e, 'f, arm_regs) System) option" where
  "arm_switch_task A ctx S = do {
     (next_task, ctx, s, m) \<leftarrow> switch_task A (sched S) (k_mach (kern S)) ctx;
     r \<leftarrow> arm_enter next_task ctx (regs S);
     Some (ctx, set_mach (S\<lparr>sched := s, regs := r\<rparr>) m)
   }"

definition arm_syscall_fork ::
  "Linker \<Rightarrow> arm64_context Arch \<Rightarrow> arm64_context \<Rightarrow> (arm64_context, 'e, 'f, arm_regs) System \<Rightarrow>
   (arm64_context \<times> (arm64_context, 'e, 'f, arm_regs) System) option" where
  "arm_syscall_fork lds A ctx S = do {
     cur \<leftarrow> current_task (sched S);
     let s = set_task (sched S) (current_pid (sched S)) (cur\<lparr>task_ctx := ctx\<rparr>);
     (child_pid, s, m) \<leftarrow> fork lds A s (k_mach (kern S));
     let ctx = ctx\<lparr>arm_x := (arm_x ctx)[0 := of_nat child_pid]\<rparr>;
     child \<leftarrow> map_of (tasks s) child_pid;
     let child_ctx = task_ctx child;
     let child = child\<lparr>task_ctx := child_ctx\<lparr>arm_x := (arm_x child_ctx)[0 := 0]\<rparr>\<rparr>;
     Some (ctx, set_mach (S\<lparr>sched := set_task s child_pid child\<rparr>) m)
   }"

definition arm_syscall ::
  "Linker \<Rightarrow> ('e, 'f) FileSystem \<Rightarrow> arm64_context Target \<Rightarrow> arm64_context \<Rightarrow> (arm64_context, 'e, 'f, arm_regs) System \<Rightarrow>
   (arm64_context \<times> (arm64_context, 'e, 'f, arm_regs) System) option" where
  "arm_syscall lds F T ctx S = do {
     let x = arm_x ctx;
     let syscall_num = x ! 8;
     ctx \<leftarrow> arm_save_sp ctx S;
     (ret, S) \<leftarrow> dispatch_current F T syscall_num (x ! 0) (x ! 1) (x ! 2) (x ! 3) S;
     let ctx = (case ret of Some ret \<Rightarrow> ctx\<lparr>arm_x := x[0 := ret]\<rparr> | None \<Rightarrow> ctx);
     if syscall_num = SYSCALL_EXIT then arm_kill_task (target_arch T) S
     else do {
       (ctx, S) \<leftarrow> (if syscall_num = SYSCALL_FORK then arm_syscall_fork lds (target_arch T) ctx S else Some (ctx, S));
       arm_switch_task (target_arch T) ctx S
     }
   }"

definition el1_sync_trap_handler ::
  "Linker \<Rightarrow> ('e, 'f) FileSystem \<Rightarrow> arm64_context Target \<Rightarrow> u64 \<Rightarrow> arm64_context \<Rightarrow> (arm64_context, 'e, 'f, arm_regs) System \<Rightarrow>
   (arm64_context \<times> (arm64_context, 'e, 'f, arm_regs) System) option" where
  "el1_sync_trap_handler lds F T esr_el1 ctx S = (let
     S = arm_to_kernel_pt S;
     ec = drop_bit ESR_EC_OFFSET esr_el1 AND ESR_EC_MASK in
     if ec = ESR_EC_SVC64 then arm_syscall lds F T ctx S
     else if ec = ESR_EC_UNKOWN \<or> ec = ESR_EC_WFI \<or> ec = ESR_EC_TRAPPED_MSR \<or> ec = ESR_EC_INST_ABORT \<or> ec = ESR_EC_DATA_ABORT
     then arm_kill_task (target_arch T) S
     else Some (ctx, S))"

definition arm_task_switch ::
  "arm64_context Arch \<Rightarrow> arm64_context \<Rightarrow> (arm64_context, 'e, 'f, arm_regs) System \<Rightarrow>
   (arm64_context \<times> (arm64_context, 'e, 'f, arm_regs) System) option" where
  "arm_task_switch A ctx S = do { ctx \<leftarrow> arm_save_sp ctx S; arm_switch_task A ctx S }"

definition kernel_pt_do ::
  "(arm_regs \<Rightarrow> arm_regs option) \<Rightarrow> (arm64_context, 'e, 'f, arm_regs) System \<Rightarrow> (arm64_context, 'e, 'f, arm_regs) System option" where
  "kernel_pt_do func S = do {
     let ttbrx_el1 = ttbr0_el1 (regs S);
     let S = arm_to_kernel_pt S;
     r \<leftarrow> func (regs S);
     Some (S\<lparr>regs := set_ttbrx ttbrx_el1 r\<rparr>)
   }"

definition el1_irq_trap_handler ::
  "arm64_context Arch \<Rightarrow> (nat \<Rightarrow> u32) \<Rightarrow> arm64_context \<Rightarrow> (arm64_context, 'e, 'f, arm_regs) System \<Rightarrow>
   (arm64_context \<times> (arm64_context, 'e, 'f, arm_regs) System) option" where
  "el1_irq_trap_handler A dev ctx S = do {
     let S = arm_to_kernel_pt S;
     irq \<leftarrow> gicc_mmio_read dev GICC_IAR (regs S);
     if irq = INTID_VTIMER then do {
       (ctx, S) \<leftarrow> arm_task_switch A ctx (S\<lparr>regs := arm_set_timer (regs S)\<rparr>);
       S \<leftarrow> kernel_pt_do (gicc_mmio_write GICC_EOIR irq) S;
       Some (ctx, S)
     }
     else Some (ctx, S)
   }"

section \<open>Switching to the next task\<close>

text \<open>When a switch returns: the clock passes every wake-up time, the run times are not about to overflow, and every task has
  a page table.\<close>

definition can_switch :: "clock \<Rightarrow> nat \<Rightarrow> nat \<Rightarrow> 'c Scheduler \<Rightarrow> Machine \<Rightarrow> bool" where
  "can_switch get_time N W s m \<longleftrightarrow> sched_inv s \<and> nices_ok s \<and> clock_ok get_time N W m \<and>
     (\<forall>p t. map_of (tasks s) p = Some t \<longrightarrow> Table_page_number (task_page t) \<noteq> None \<and> (\<forall>nx. next_schedule t = Some nx \<longrightarrow> nx \<le> W)) \<and>
     (\<forall>(vr, p) \<in> set (vruntime s). vr + 38 * Suc N < 2 ^ 64)"

text \<open>A task of the scheduler is replaced by one with the same pid, nice value and page table.\<close>

lemma can_switch_set_task:
  assumes "can_switch get_time N W s m" "map_of (tasks s) p = Some t" "clock_ok get_time N W m'"
    and "pid t' = pid t" "nice t' = nice t" "task_page t' = task_page t" "\<And>nx. next_schedule t' = Some nx \<Longrightarrow> nx \<le> W"
  shows "can_switch get_time N W (set_task s p t') m'" "map_of (tasks (set_task s p t')) = (map_of (tasks s))(p \<mapsto> t')"
proof -
  have inv: "sched_inv s" using assms(1) by (simp add: can_switch_def)
  have "sched_ok s" using inv by (simp add: sched_inv_def)
  have p: "p \<in> fst ` set (tasks s)" "pid t' = p"
    using map_of_SomeD [OF assms(2)] sched_okD(6) [OF \<open>sched_ok s\<close> assms(2)] assms(4) by force+
  show map: "map_of (tasks (set_task s p t')) = (map_of (tasks s))(p \<mapsto> t')" by (rule set_task_ok(2) [OF \<open>sched_ok s\<close> p])
  have "vruntime (set_task s p t') = vruntime s" by (simp add: set_task_def)
  then show "can_switch get_time N W (set_task s p t') m'"
    using assms set_task_inv [OF inv p] unfolding can_switch_def nices_ok_def map by simp
qed

lemma switch_task_returns:
  assumes "can_switch (get_sys_time A) N W s m" "current_task s = Some cur"
  shows "\<exists>t s' m'. switch_task A s m ctx = Some (t, task_ctx t, s', m') \<and> sched_inv s' \<and> current_task s' = Some t \<and>
    Table_page_number (task_page t) \<noteq> None \<and>
    (\<forall>p. map_option task_ctx (map_of (tasks s') p) = map_option task_ctx (((map_of (tasks s))(current_pid s \<mapsto> cur\<lparr>task_ctx := ctx\<rparr>)) p))"
proof -
  let ?s = "set_task s (current_pid s) (cur\<lparr>task_ctx := ctx\<rparr>)"
  have cur: "map_of (tasks s) (current_pid s) = Some cur" using assms(2) by (simp add: current_task_def)
  have clock: "clock_ok (get_sys_time A) N W m" and wake: "next_schedule cur = Some nx \<Longrightarrow> nx \<le> W" for nx
    using assms(1) cur unfolding can_switch_def by blast+
  note set = can_switch_set_task [OF assms(1) cur clock, of "cur\<lparr>task_ctx := ctx\<rparr>", simplified]
  have sw: "can_switch (get_sys_time A) N W ?s m" using set(1) wake by blast
  have map: "map_of (tasks ?s) = (map_of (tasks s))(current_pid s \<mapsto> cur\<lparr>task_ctx := ctx\<rparr>)" using set(2) wake by blast
  have "vr + 38 * Suc (N - reads m) \<le> vr + 38 * Suc N" for vr by simp
  then have less: "vr + 38 * Suc N < 2 ^ 64 \<Longrightarrow> vr + 38 * Suc (N - reads m) < 2 ^ 64" for vr using le_less_trans by blast
  have "\<forall>(vr, p) \<in> set (vruntime ?s). vr + 38 * Suc N < 2 ^ 64" using sw unfolding can_switch_def by (elim conjE)
  then have bound: "\<forall>(vr, p) \<in> set (vruntime ?s). vr + 38 * Suc (N - reads m) < 2 ^ 64" using less by auto
  have pre: "sched_ok ?s" "nices_ok ?s" "vruntime ?s \<noteq> []" using sw by (simp_all add: can_switch_def sched_inv_def)
  obtain s' m' now where r: "schedule (get_sys_time A) ?s m = Some (s', m')" "sched_ok s'" "chosen ?s s' now"
    using schedule_run [OF pre clock _ bound] sw unfolding can_switch_def by blast
  obtain t where t: "map_of (tasks ?s) (current_pid s') = Some t" "map_of (tasks s') = (map_of (tasks ?s))(current_pid s' \<mapsto> t\<lparr>next_schedule := None\<rparr>)"
    using r(3) unfolding chosen_def by blast
  have "current_task s' = Some (t\<lparr>next_schedule := None\<rparr>)" using t(2) by (simp add: current_task_def)
  moreover have "Table_page_number (task_page t) \<noteq> None" using sw t(1) unfolding can_switch_def by blast
  moreover have "\<forall>p. map_option task_ctx (map_of (tasks s') p) = map_option task_ctx (map_of (tasks ?s) p)" using t by simp
  ultimately show ?thesis using r(1) schedule_inv [OF r(1) pre(1)] assms(2) unfolding map by (simp add: switch_task_def)
qed

text \<open>The clock of a RISC-V machine depends on its timer only.\<close>

lemma riscv_clock_ok: "clock_ok riscv_get_sys_time N W m \<longleftrightarrow> (\<forall>k. timer_at m k * 100 < 2 ^ 64 \<and> (N \<le> k \<longrightarrow> W \<le> timer_at m k * 100))"
  by (auto simp: clock_ok_def riscv_get_sys_time_def usize_mul_def bind_eq_Some_conv)

section \<open>Leaving a trap\<close>

text \<open>\<open>enter\<close> prepares the registers for a task with a page table, and \<open>entered\<close> is what it leaves them in.\<close>

locale trap_exit =
  fixes enter :: "'c Task \<Rightarrow> 'r \<Rightarrow> 'r option" and entered :: "'c Task \<Rightarrow> 'r \<Rightarrow> bool"
  assumes enters: "Table_page_number (task_page t) \<noteq> None \<Longrightarrow> \<exists>r'. enter t r = Some r' \<and> entered t r'"
begin

lemma switch_enters:
  assumes "can_switch (get_sys_time A) N W s m" "current_task s = Some cur"
  shows "\<exists>t s' m' r'. switch_task A s m ctx = Some (t, task_ctx t, s', m') \<and> enter t r = Some r' \<and> entered t r' \<and>
    sched_inv s' \<and> current_task s' = Some t \<and>
    (\<forall>p. map_option task_ctx (map_of (tasks s') p) = map_option task_ctx (((map_of (tasks s))(current_pid s \<mapsto> cur\<lparr>task_ctx := ctx\<rparr>)) p))"
  using switch_task_returns [OF assms] enters by blast

end

definition rv_entered :: "'c Task \<Rightarrow> rv_regs \<Rightarrow> bool" where
  "rv_entered t r \<longleftrightarrow> (bit (sstatus r) 8 \<longleftrightarrow> is_kernel t) \<and>
     (\<exists>p. Table_page_number (task_page t) = Some p \<and> satp r = of_nat p OR push_bit 60 MODE_SV39)"

interpretation rv: trap_exit rv_enter rv_entered
proof
  fix t :: "'a Task" and r
  assume "Table_page_number (task_page t) \<noteq> None"
  then obtain p where p: "Table_page_number (task_page t) = Some p" by blast
  then show "\<exists>r'. rv_enter t r = Some r' \<and> rv_entered t r'"
    by (simp add: rv_enter_def rv_switch_to_def switch_privilege_level_def set_satp_def rv_entered_def bit_simps)
qed

definition arm_entered :: "arm64_context Task \<Rightarrow> arm_regs \<Rightarrow> bool" where
  "arm_entered t r \<longleftrightarrow> (\<not> is_kernel t \<longrightarrow> sp_el0 r = arm_sp (task_ctx t)) \<and> bit (sctlr_el1 r) 0 \<and>
     (\<exists>p. Table_page_number (task_page t) = Some p \<and> ttbr0_el1 r = push_bit PAGE_BITS (of_nat p) \<and> ttbr1_el1 r = ttbr0_el1 r)"

interpretation arm: trap_exit "\<lambda>t. arm_enter t (task_ctx t)" arm_entered
proof
  fix t :: "arm64_context Task" and r
  assume "Table_page_number (task_page t) \<noteq> None"
  then obtain p where p: "Table_page_number (task_page t) = Some p" by blast
  then show "\<exists>r'. arm_enter t (task_ctx t) r = Some r' \<and> arm_entered t r'"
    by (simp add: arm_enter_def arm_switch_to_def set_ttbrx_def mmu_enable_def arm_entered_def bit_simps)
qed

section \<open>System calls of RISC-V programs\<close>

lemma syscall_files_wake:
  "syscall_open F t k p = Some (r, t', k') \<Longrightarrow> next_schedule t' = next_schedule t"
  "syscall_read F t k fd buf = Some (r, buf', t', k') \<Longrightarrow> next_schedule t' = next_schedule t"
  "syscall_write F t k fd buf = Some (r, t', k') \<Longrightarrow> next_schedule t' = next_schedule t"
  "syscall_lseek t fd pos = (r, t') \<Longrightarrow> next_schedule t' = next_schedule t"
  by (auto simp: syscall_open_def syscall_read_def syscall_write_def syscall_lseek_def Let_def bind_eq_Some_conv
      split: option.splits prod.splits) (auto split: sum.splits simp: bind_eq_Some_conv)

lemma dispatch_wake:
  assumes "dispatch_with_task F T t k num a0 a1 a2 a3 = Some (r, t', k')" "next_schedule t' \<noteq> next_schedule t"
  shows "num = SYSCALL_SLEEP"
proof (rule ccontr)
  assume "num \<noteq> SYSCALL_SLEEP"
  then have "next_schedule t' = next_schedule t" using assms(1)
    by (auto simp: dispatch_with_task_def bind_eq_Some_conv dest: syscall_files_wake split: if_splits prod.splits)
  then show False using assms(2) by simp
qed

lemma dispatch_sleep_wake:
  assumes "dispatch_with_task F T t k SYSCALL_SLEEP a0 a1 a2 a3 = Some (r, t', k')" "get_sys_time (target_arch T) = riscv_get_sys_time"
  shows "next_schedule t' = Some (timer_at (k_mach k) (reads (k_mach k)) * 100 + unat a0)"
  using assms by (auto simp: dispatch_with_task_def syscall_numbers syscall_sleep_def riscv_get_sys_time_def bind_eq_Some_conv usize_add_Some usize_mul_def split: if_splits)

text \<open>The dispatch on the current task, and that a switch can follow it.\<close>

lemma dispatch_current_returns:
  fixes S :: "('c, Globals, DevFS, 'r) System" and T :: "'c Target" and num a0 a1 a2 a3 :: u64
  defines "m \<equiv> k_mach (kern S)"
  assumes "can_switch riscv_get_sys_time N W (sched S) m" "current_task (sched S) = Some cur"
    and "sys_ok (devfs_ok n) (globals_ok n) cur (kern S)" "call_safe (\<lambda>p. CHR ''/'' \<in> set p) T cur (kern S) num a0 a2"
    and "get_sys_time (target_arch T) = riscv_get_sys_time" "num = SYSCALL_SLEEP \<Longrightarrow> timer_at m (reads m) * 100 + unat a0 \<le> W"
  obtains ret cur' k' s' where "dispatch_with_task DevFS_ops T cur (kern S) num a0 a1 a2 a3 = Some (ret, cur', k')"
    "dispatch_current DevFS_ops T num a0 a1 a2 a3 S = Some (ret, S\<lparr>sched := s', kern := k'\<rparr>)"
    "can_switch riscv_get_sys_time N W s' (k_mach k')" "map_of (tasks s') = (map_of (tasks (sched S)))(current_pid (sched S) \<mapsto> cur')"
    "current_pid s' = current_pid (sched S)" "current_task s' = Some cur'" "task_ctx cur' = task_ctx cur"
proof -
  let ?c = "current_pid (sched S)"
  obtain ret cur' k' where d: "dispatch_with_task DevFS_ops T cur (kern S) num a0 a1 a2 a3 = Some (ret, cur', k')" "call_frame cur (kern S) cur' k'"
    using dev.dispatch_total [OF assms(4,5)] by blast
  obtain tab nx mem rd where f: "cur' = cur\<lparr>task_fds := tab, next_schedule := nx\<rparr>" "k_mach k' = m\<lparr>ram := mem, reads := rd\<rparr>"
    using d(2) unfolding call_frame_def m_def by blast
  have cur: "map_of (tasks (sched S)) ?c = Some cur" using assms(3) by (simp add: current_task_def)
  have clock: "clock_ok riscv_get_sys_time N W (k_mach k')" using assms(2) by (simp add: can_switch_def riscv_clock_ok f(2))
  have wake: "nx' \<le> W" if "next_schedule cur' = Some nx'" for nx'
  proof (cases "num = SYSCALL_SLEEP")
    case True
    then show ?thesis using that assms(7) dispatch_sleep_wake [OF d(1) [unfolded True] assms(6)] by (simp add: m_def)
  next
    case False
    then have "next_schedule cur' = next_schedule cur" using dispatch_wake [OF d(1)] by blast
    then show ?thesis using that assms(2) cur unfolding can_switch_def by auto
  qed
  define s' where "s' = set_task (sched S) ?c cur'"
  note set = can_switch_set_task [OF assms(2) cur clock, of cur', folded s'_def]
  have s': "can_switch riscv_get_sys_time N W s' (k_mach k')" "map_of (tasks s') = (map_of (tasks (sched S)))(?c \<mapsto> cur')"
    using set wake f(1) by simp_all
  have "current_pid s' = ?c" "current_task s' = Some cur'" using s'(2) by (simp_all add: s'_def set_task_def current_task_def)
  moreover have "dispatch_current DevFS_ops T num a0 a1 a2 a3 S = Some (ret, S\<lparr>sched := s', kern := k'\<rparr>)"
    using d(1) assms(3) by (simp add: dispatch_current_def s'_def)
  ultimately show thesis using that d(1) s' f(1) by simp
qed

text \<open>C30: A system call of a RISC-V program, from the trap to the return, for every call but exit and fork. The handler returns; the
  context saved for the calling task is the one at the trap with the program counter behind the call and the result of
  the call in register \<^verbatim>\<open>a0\<close>, and no other saved context changes. A task is chosen, and the context restored, the page
  table in use and the privilege level are those of that task.\<close>

theorem strap_syscall:
  fixes S :: "(riscv_context, Globals, DevFS, rv_regs) System" and debug :: bool and ctx :: riscv_context
  defines "T \<equiv> riscv64_target debug" and "x \<equiv> rv_x ctx" and "m \<equiv> k_mach (kern S)"
  assumes "can_switch riscv_get_sys_time N W (sched S) m" "current_task (sched S) = Some cur"
    and "sys_ok (devfs_ok n) (globals_ok n) cur (kern S)" "call_safe (\<lambda>p. CHR ''/'' \<in> set p) T cur (kern S) (x ! 16) (x ! 9) (x ! 11)"
    and "x ! 16 = SYSCALL_SLEEP \<Longrightarrow> timer_at m (reads m) * 100 + unat (x ! 9) \<le> W"
    and "x ! 16 \<noteq> SYSCALL_EXIT" "x ! 16 \<noteq> SYSCALL_FORK" "unat (rv_epc ctx) + 4 < 2 ^ 64"
  shows "\<exists>ret cur' k' ctx' S' t.
    dispatch_with_task DevFS_ops T cur (kern S) (x ! 16) (x ! 9) (x ! 10) (x ! 11) (x ! 12) = Some (ret, cur', k') \<and>
    strap_handler lds DevFS_ops T SCAUSE_ECALL_U ctx S = Some (ctx', S') \<and>
    sched_inv (sched S') \<and> current_task (sched S') = Some t \<and> ctx' = task_ctx t \<and> rv_entered t (regs S') \<and>
    (\<forall>p. map_option task_ctx (map_of (tasks (sched S')) p) =
      (if p = current_pid (sched S) then Some (ctx\<lparr>rv_epc := rv_epc ctx + 4, rv_x := (case ret of Some v \<Rightarrow> x[9 := v] | None \<Rightarrow> x)\<rparr>)
       else map_option task_ctx (map_of (tasks (sched S)) p)))"
proof -
  let ?A = "target_arch T" and ?c = "current_pid (sched S)" and ?S = "rv_to_kernel_pt S"
  have A: "get_sys_time ?A = riscv_get_sys_time" by (simp add: T_def riscv64_target_def riscv64_arch_def)
  have same: "sched ?S = sched S" "kern ?S = kern S" by (simp_all add: rv_to_kernel_pt_def)
  obtain ret cur' k' s1 where d: "dispatch_with_task DevFS_ops T cur (kern S) (x ! 16) (x ! 9) (x ! 10) (x ! 11) (x ! 12) = Some (ret, cur', k')"
    "dispatch_current DevFS_ops T (x ! 16) (x ! 9) (x ! 10) (x ! 11) (x ! 12) ?S = Some (ret, ?S\<lparr>sched := s1, kern := k'\<rparr>)"
    "can_switch (get_sys_time ?A) N W s1 (k_mach k')" "map_of (tasks s1) = (map_of (tasks (sched S)))(?c \<mapsto> cur')"
    "current_pid s1 = ?c" "current_task s1 = Some cur'"
    using dispatch_current_returns [of N W ?S cur n T "x ! 16" "x ! 9" "x ! 11" "x ! 10" "x ! 12"] assms(4-8) A
    unfolding same m_def by metis
  define ctx1 where "ctx1 = ctx\<lparr>rv_epc := rv_epc ctx + 4, rv_x := (case ret of Some v \<Rightarrow> x[9 := v] | None \<Rightarrow> x)\<rparr>"
  obtain t s' m' r' where sw: "switch_task ?A s1 (k_mach k') ctx1 = Some (t, task_ctx t, s', m')" "rv_enter t (regs ?S) = Some r'"
    "rv_entered t r'" "sched_inv s'" "current_task s' = Some t"
    "\<forall>p. map_option task_ctx (map_of (tasks s') p) = map_option task_ctx (((map_of (tasks s1))(current_pid s1 \<mapsto> cur'\<lparr>task_ctx := ctx1\<rparr>)) p)"
    using rv.switch_enters [OF d(3,6)] by blast
  have epc: "usize_add (unat (rv_epc ctx)) 4 = Some (unat (rv_epc ctx) + 4)" "(of_nat (unat (rv_epc ctx) + 4) :: u64) = rv_epc ctx + 4"
    using assms(11) by simp_all
  have c: "(case ret of None \<Rightarrow> ctx\<lparr>rv_epc := rv_epc ctx + 4\<rparr> | Some v \<Rightarrow> ctx\<lparr>rv_epc := rv_epc ctx + 4, rv_x := x[9 := v]\<rparr>) = ctx1"
    by (cases ret) (simp_all add: ctx1_def x_def)
  have "strap_handler lds DevFS_ops T SCAUSE_ECALL_U ctx S = rv_syscall lds DevFS_ops T (ctx\<lparr>rv_epc := rv_epc ctx + 4\<rparr>) ?S"
    using epc by (simp add: strap_handler_def)
  also have "\<dots> = rv_switch_task ?A ctx1 (?S\<lparr>sched := s1, kern := k'\<rparr>)"
    using d(2) assms(9,10) c by (simp add: rv_syscall_def Let_def x_def [symmetric])
  also have "\<dots> = Some (task_ctx t, set_mach (?S\<lparr>sched := s1, kern := k'\<rparr>\<lparr>sched := s', regs := r'\<rparr>) m')"
    using sw(1,2) by (simp add: rv_switch_task_def)
  finally show ?thesis using d(1) sw(3-6) unfolding d(4,5) by (auto simp: set_mach_def ctx1_def)
qed

definition demo_linker :: Linker where
  "demo_linker = \<lparr>RODATA_START = VIRT_ADDR, RODATA_END = VIRT_ADDR, DATA_START = VIRT_ADDR, DATA_END = VIRT_ADDR, BSS_START = VIRT_ADDR,
     BSS_END = VIRT_ADDR, KERNEL_START = VIRT_ADDR, KERNEL_END = VIRT_ADDR, HEAP_START = VIRT_ADDR\<rparr>"

definition demo_rv_task :: "nat \<Rightarrow> riscv_context Task" where
  "demo_rv_task p = (demo_sched_task p 0 None)\<lparr>task_page := demo_root\<rparr>"

definition demo_rv_system :: "(riscv_context, Globals, DevFS, rv_regs) System" where
  "demo_rv_system = \<lparr>sched = \<lparr>tasks = [(0, demo_rv_task 0), (1, demo_rv_task 1)], vruntime = [(0, 0), (3, 1)],
     current_pid = 1, max_pid = 1, trap_stack = 0\<rparr>, kern = (demo_kernel DevFS_default)\<lparr>k_mach := demo_clock\<rparr>, regs = \<lparr>satp = 0, sstatus = 0, stimecmp = 0\<rparr>\<rparr>"

definition demo_rv_context :: "riscv_context" where
  "demo_rv_context = riscv_context_default\<lparr>rv_epc := 4096, rv_x := (replicate 31 7)[16 := SYSCALL_LSEEK]\<rparr>"

lemma demo_rv_can_switch: "can_switch riscv_get_sys_time 3 300 (sched demo_rv_system) (k_mach (kern demo_rv_system))"
proof -
  have "clock_ok riscv_get_sys_time 3 300 (k_mach (kern demo_rv_system))"
    using demo_clock_ok by (simp add: demo_rv_system_def riscv64_arch_def)
  moreover have "Table_page_number demo_root \<noteq> None" using demo_root_page by (simp add: Table_page_number_def phys_from_virt_def usize_sub_def page_div(1))
  ultimately show ?thesis
    by (auto simp: can_switch_def sched_inv_def sched_ok_def nices_ok_def demo_rv_system_def demo_rv_task_def demo_sched_task_def bs_sorted_def NICE_MAX_def)
qed

lemma demo_rv_sys_ok: "sys_ok (devfs_ok 0) (globals_ok 0) (demo_rv_task p) (kern demo_rv_system)"
proof -
  have "sys_ok (devfs_ok 0) (globals_ok 0) (demo_task\<lparr>task_fds := FdTable_default\<rparr>) (demo_kernel DevFS_default)"
    by (rule demo_sys_ok) (auto simp: fds_ok_def FdTable_get_def FdTable_default_def DevFS_default_def)
  then show ?thesis
    using fds_ok_default by (simp add: sys_ok_def demo_rv_task_def demo_sched_task_def demo_rv_system_def FdTable_get_def FdTable_default_def allocs_ok_def)
qed

theorem strap_syscall_witness:
  "\<exists>ctx' S' t. strap_handler demo_linker DevFS_ops (riscv64_target True) SCAUSE_ECALL_U demo_rv_context demo_rv_system = Some (ctx', S') \<and>
     current_task (sched S') = Some t \<and> ctx' = task_ctx t \<and> rv_entered t (regs S') \<and>
     map_option (rv_epc \<circ> task_ctx) (map_of (tasks (sched S')) 1) = Some 4100"
proof -
  have cur: "current_task (sched demo_rv_system) = Some (demo_rv_task 1)" "current_pid (sched demo_rv_system) = 1"
    by (simp_all add: current_task_def demo_rv_system_def)
  have num: "rv_x demo_rv_context ! 16 = SYSCALL_LSEEK" by (simp add: demo_rv_context_def)
  have safe: "call_safe (\<lambda>p. CHR ''/'' \<in> set p) (riscv64_target True) (demo_rv_task 1) (kern demo_rv_system) (rv_x demo_rv_context ! 16)
      (rv_x demo_rv_context ! 9) (rv_x demo_rv_context ! 11)" unfolding num by (simp add: call_safe_def syscall_numbers)
  have side: "rv_x demo_rv_context ! 16 \<noteq> SYSCALL_EXIT" "rv_x demo_rv_context ! 16 \<noteq> SYSCALL_FORK" "rv_x demo_rv_context ! 16 \<noteq> SYSCALL_SLEEP"
    "unat (rv_epc demo_rv_context) + 4 < 2 ^ 64" unfolding num by (simp_all add: syscall_numbers demo_rv_context_def)
  obtain ret ctx' S' t where r: "strap_handler demo_linker DevFS_ops (riscv64_target True) SCAUSE_ECALL_U demo_rv_context demo_rv_system = Some (ctx', S')"
    "current_task (sched S') = Some t" "ctx' = task_ctx t" "rv_entered t (regs S')"
    "\<forall>p. map_option task_ctx (map_of (tasks (sched S')) p) =
      (if p = 1 then Some (demo_rv_context\<lparr>rv_epc := rv_epc demo_rv_context + 4, rv_x := (case ret of Some v \<Rightarrow> (rv_x demo_rv_context)[9 := v] | None \<Rightarrow> rv_x demo_rv_context)\<rparr>)
       else map_option task_ctx (map_of (tasks (sched demo_rv_system)) p))"
    using strap_syscall [OF demo_rv_can_switch cur(1) demo_rv_sys_ok safe _ side(1,2,4), of demo_linker] side(3) unfolding cur(2) by blast
  have "map_option (rv_epc \<circ> task_ctx) (map_of (tasks (sched S')) 1) = map_option rv_epc (map_option task_ctx (map_of (tasks (sched S')) 1))"
    by (simp add: option.map_comp)
  also have "\<dots> = Some 4100" unfolding r(5) [rule_format, of 1] by (simp add: demo_rv_context_def)
  finally show ?thesis using r(1-4) by blast
qed

section \<open>Forks\<close>

text \<open>When a fork returns, the parent finds the pid of the child in \<^verbatim>\<open>a0\<close> and the child, which goes on from the same context,
  finds 0 there.\<close>

lemma rv_fork_results:
  assumes "sched_inv (sched S)" "rv_syscall_fork lds A ctx S = Some (ctx', S')"
  shows "\<exists>c child. map_of (tasks (sched S)) c = None \<and> ctx' = ctx\<lparr>rv_x := (rv_x ctx)[9 := of_nat c]\<rparr> \<and>
    map_of (tasks (sched S')) c = Some child \<and> task_ctx child = ctx\<lparr>rv_x := (rv_x ctx)[9 := 0]\<rparr> \<and> current_pid (sched S') = current_pid (sched S)"
proof -
  obtain cur where cur: "current_task (sched S) = Some cur" using assms(2) by (auto simp: rv_syscall_fork_def bind_eq_Some_conv)
  define s1 where "s1 = set_task (sched S) (current_pid (sched S)) (cur\<lparr>task_ctx := ctx\<rparr>)"
  have ok: "sched_ok (sched S)" using assms(1) by (simp add: sched_inv_def)
  have p: "current_pid (sched S) \<in> fst ` set (tasks (sched S))" "pid (cur\<lparr>task_ctx := ctx\<rparr>) = current_pid (sched S)"
    using assms(1) current_task_pid [OF assms(1) cur] by (simp_all add: sched_inv_def)
  have s1: "sched_inv s1" "map_of (tasks s1) = (map_of (tasks (sched S)))(current_pid (sched S) \<mapsto> cur\<lparr>task_ctx := ctx\<rparr>)"
    "current_pid s1 = current_pid (sched S)"
    using set_task_inv [OF assms(1) p] set_task_ok(2) [OF ok p] by (simp_all add: s1_def set_task_def)
  obtain c s2 m2 where f: "fork lds A s1 (k_mach (kern S)) = Some (c, s2, m2)"
    using assms(2) cur by (auto simp: rv_syscall_fork_def bind_eq_Some_conv s1_def Let_def)
  obtain child where ch: "sched_inv s2" "map_of (tasks s1) c = None" "map_of (tasks s2) = (map_of (tasks s1))(c \<mapsto> child)" "task_ctx child = ctx"
    "pid child = c" "current_pid s2 = current_pid s1"
    using fork_child [OF s1(1) f] s1(2,3) by (auto simp: current_task_def)
  let ?child = "child\<lparr>task_ctx := ctx\<lparr>rv_x := (rv_x ctx)[9 := 0]\<rparr>\<rparr>"
  have "map_of (tasks s2) c = Some child" using ch(3) by simp
  then have r: "ctx' = ctx\<lparr>rv_x := (rv_x ctx)[9 := of_nat c]\<rparr>" "S' = set_mach (S\<lparr>sched := set_task s2 c ?child\<rparr>) m2"
    using assms(2) cur f ch(4) by (auto simp: rv_syscall_fork_def s1_def Let_def)
  have "map_of (tasks (set_task s2 c ?child)) c = Some ?child"
    using sched_okD(1) [of s2] ch(1) by (simp add: set_task_def bt_insert_lookup sched_inv_def)
  moreover have "map_of (tasks (sched S)) c = None" using ch(2) s1(2) by (simp split: if_splits)
  ultimately show ?thesis using r ch(6) s1(3) by (intro exI [of _ c] exI [of _ ?child]) (simp add: set_mach_def set_task_def)
qed

section \<open>Interrupts of ARM\<close>

lemma arm_enter_keeps:
  assumes "arm_enter t c r = Some r'"
  shows "gic_writes r' = gic_writes r" "gicc_base r' = gicc_base r" "cntv_tval r' = cntv_tval r"
  using assms by (auto simp: arm_enter_def arm_switch_to_def mmu_enable_def set_ttbrx_def bind_eq_Some_conv)


definition demo_arm_system :: "(arm64_context, Globals, DevFS, arm_regs) System" where
  "demo_arm_system = \<lparr>sched = \<lparr>tasks = [(0, \<lparr>uid = 0, pid = 0, ppid = 0, task_page = demo_root, nice = 0, task_ctx = arm64_context_default,
       page_allocs = [], next_schedule = None, task_fds = FdTable_default\<rparr>)], vruntime = [(0, 0)], current_pid = 0, max_pid = 0, trap_stack = 0\<rparr>,
     kern = (demo_kernel DevFS_default)\<lparr>k_mach := demo_clock\<rparr>,
     regs = \<lparr>ttbr0_el1 = 0, ttbr1_el1 = 0, sp_el0 = 0, sctlr_el1 = 0, cntfrq_el0 = 62500000, cntv_tval = 0, gicd_base = 0x8000000,
       gicc_base = 0x8010000, gic_writes = []\<rparr>\<rparr>"

lemma demo_arm_clock: "clock_ok (get_sys_time (arm64_arch 62500000)) 0 0 (k_mach (kern demo_arm_system))"
  by (auto simp: clock_ok_def arm64_arch_def arm64_get_sys_time_def demo_arm_system_def demo_clock_def usize_mul_def min_def)




end
