(* ===== verification/Dtb.thy ===== *)
theory Dtb
  imports Byte_Order Utf8 "HOL-Library.Monad_Syntax"
begin

text \<open>
  The device tree (\<^verbatim>\<open>src/lib/dtb\<close>): reading a flattened device tree, finding nodes and registers in it.

  Strings are the lists of their bytes, as Rust has them: a byte from 128 on that is pushed as a character becomes two. \<open>None\<close>
  is a panic, an index out of range or a failed debug assertion, or a loop without an end. \<open>item\<close> and \<open>item_bytes\<close> are the grammar
  of the structure block, with which the properties say what reading one gives.
\<close>

section \<open>Reading\<close>

definition DTB_MAGIC :: "u8 list" where "DTB_MAGIC = [0xd0, 0x0d, 0xfe, 0xed]"
definition FDT_BEGIN_NODE :: u32 where "FDT_BEGIN_NODE = 1"
definition FDT_END_NODE :: u32 where "FDT_END_NODE = 2"
definition FDT_PROP :: u32 where "FDT_PROP = 3"
definition FDT_NOP :: u32 where "FDT_NOP = 4"
definition FDT_END :: u32 where "FDT_END = 9"

lemmas fdt_tokens = FDT_BEGIN_NODE_def FDT_END_NODE_def FDT_PROP_def FDT_NOP_def FDT_END_def

definition u32_at :: "u8 list \<Rightarrow> nat \<Rightarrow> u32 option" where
  "u32_at bytes off = do { bs \<leftarrow> slice_opt bytes off (off + 4); Some (from_be_bytes bs) }"

definition slice_from :: "'a list \<Rightarrow> nat \<Rightarrow> 'a list option" where
  \<comment> \<open>\<open>&xs[n..]\<close>\<close>
  "slice_from xs n = (if n \<le> length xs then Some (drop n xs) else None)"

definition latin1_push :: "u8 \<Rightarrow> u8 list" where
  \<comment> \<open>\<open>push(b as char)\<close>\<close>
  "latin1_push b = (if b < 0x80 then [b] else [0xC0 OR drop_bit 6 b, 0x80 OR (b AND 0x3F)])"

fun parse_null_string :: "u8 list \<Rightarrow> u8 list \<Rightarrow> (u8 list \<times> u8 list) option" where
  "parse_null_string s [] = None"
| "parse_null_string s (b # bs) = (if b \<noteq> 0 then parse_null_string (s @ latin1_push b) bs else Some (b # bs, s))"

record Property =
  prop_name :: "u8 list"
  prop_value :: "u8 list"

datatype Node = Node (node_str: "u8 list") (progs: "Property list") (child_nodes: "Node list") (size_cells: nat) (address_cells: nat)

definition set_size_cells :: "nat \<Rightarrow> Node \<Rightarrow> Node" where
  "set_size_cells n d = Node (node_str d) (progs d) (child_nodes d) n (address_cells d)"

definition set_address_cells :: "nat \<Rightarrow> Node \<Rightarrow> Node" where
  "set_address_cells n d = Node (node_str d) (progs d) (child_nodes d) (size_cells d) n"

text \<open>The start of \<^verbatim>\<open>Node::parse\<close>: what follows the name, and the name.\<close>

definition parse_head :: "u8 list \<Rightarrow> (u8 list \<times> u8 list) option" where
  "parse_head bytes = do {
     bytes \<leftarrow> slice_from bytes 4;
     (bytes, name) \<leftarrow> parse_null_string [] bytes;
     bytes \<leftarrow> slice_from bytes (4 - length name mod 4);
     Some (bytes, name)
   }"

text \<open>The loop of \<^verbatim>\<open>Node::parse\<close>, with the call for a child node in it.\<close>

partial_function (option) parse_loop ::
  "u8 list \<Rightarrow> u8 list \<Rightarrow> u8 list \<Rightarrow> Property list \<Rightarrow> Node list \<Rightarrow> nat \<Rightarrow> nat \<Rightarrow> (u8 list \<times> Node) option" where
  "parse_loop strings_buf name bytes ps cs sc ac = do {
     token \<leftarrow> u32_at bytes 0;
     if token = FDT_END_NODE then Some (bytes, Node name ps cs sc ac)
     else if token = FDT_BEGIN_NODE then do {
       (bytes, child_name) \<leftarrow> parse_head bytes;
       (bytes, child_node) \<leftarrow> parse_loop strings_buf child_name bytes [] [] 1 2;
       token \<leftarrow> u32_at bytes 0;
       _ \<leftarrow> rust_assert (token = FDT_END_NODE);
       bytes \<leftarrow> slice_from bytes 4;
       parse_loop strings_buf name bytes ps (cs @ [set_address_cells ac (set_size_cells sc child_node)]) sc ac
     }
     else if token = FDT_NOP then do {
       bytes \<leftarrow> slice_from bytes 4;
       parse_loop strings_buf name bytes ps cs sc ac
     }
     else do {
       _ \<leftarrow> rust_assert (token = FDT_PROP);
       len \<leftarrow> u32_at bytes 4;
       nameoff \<leftarrow> u32_at bytes 8;
       bytes \<leftarrow> slice_from bytes 12;
       names \<leftarrow> slice_from strings_buf (unat nameoff);
       (_, prog_name) \<leftarrow> parse_null_string [] names;
       val \<leftarrow> slice_opt bytes 0 (unat len);
       bytes \<leftarrow> slice_from bytes (unat len + (4 - unat len mod 4) mod 4);
       if prog_name = string_bytes ''#size-cells'' then do {
         n \<leftarrow> u32_at val 0;
         parse_loop strings_buf name bytes ps (map (set_size_cells (unat n)) cs) (unat n) ac
       }
       else if prog_name = string_bytes ''#address-cells'' then do {
         n \<leftarrow> u32_at val 0;
         parse_loop strings_buf name bytes ps (map (set_address_cells (unat n)) cs) sc (unat n)
       }
       else parse_loop strings_buf name bytes (ps @ [\<lparr>prop_name = prog_name, prop_value = val\<rparr>]) cs sc ac
     }
   }"

definition Node_parse :: "u8 list \<Rightarrow> u8 list \<Rightarrow> (u8 list \<times> Node) option" where
  "Node_parse bytes strings_buf = do {
     (bytes, name) \<leftarrow> parse_head bytes;
     parse_loop strings_buf name bytes [] [] 1 2
   }"

definition get_property :: "Node \<Rightarrow> u8 list \<Rightarrow> u8 list option" where
  "get_property d name = map_option prop_value (find (\<lambda>p. prop_name p = name) (progs d))"

datatype ParseError = InvalidHeader "u8 list"

record DeviceTree =
  dt_version :: u32
  dt_root :: Node

text \<open>\<^verbatim>\<open>detect_totalsize\<close>, on the memory from the address of the tree on.\<close>

definition detect_totalsize :: "u8 list \<Rightarrow> nat option" where
  "detect_totalsize mem = do { n \<leftarrow> u32_at mem 4; Some (unat n) }"

definition DeviceTree_parse :: "u8 list \<Rightarrow> (ParseError + DeviceTree) option" where
  "DeviceTree_parse bytes =
     (if take 4 bytes \<noteq> DTB_MAGIC then do { bs \<leftarrow> slice_opt bytes 0 4; Some (Inl (InvalidHeader bs)) }
      else do {
        struct_off \<leftarrow> u32_at bytes 8;
        strings_off \<leftarrow> u32_at bytes 12;
        ver \<leftarrow> u32_at bytes 20;
        strings_buf \<leftarrow> slice_from bytes (unat strings_off);
        struct_buf \<leftarrow> slice_from bytes (unat struct_off);
        (struct_buf, root) \<leftarrow> Node_parse struct_buf strings_buf;
        token \<leftarrow> u32_at struct_buf 4;
        _ \<leftarrow> rust_assert (token = FDT_END);
        Some (Inr \<lparr>dt_version = ver, dt_root = root\<rparr>)
      })"

section \<open>Utilities\<close>

definition node_name :: "u8 list \<Rightarrow> u8 list" where
  "node_name s = takeWhile (\<lambda>b. b \<noteq> of_char (CHR ''@'')) s"

definition unit_address :: "u8 list \<Rightarrow> u8 list option" where
  "unit_address s = (if of_char (CHR ''@'') \<in> set s then Some (dropWhile (\<lambda>b. b \<noteq> of_char (CHR ''@'')) s) else None)"

fun split_bytes :: "u8 \<Rightarrow> u8 list \<Rightarrow> u8 list list" where
  "split_bytes c [] = [[]]"
| "split_bytes c (x # xs) =
     (if x = c then [] # split_bytes c xs else case split_bytes c xs of [] \<Rightarrow> [[x]] | w # ws \<Rightarrow> (x # w) # ws)"

text \<open>The loop of \<^verbatim>\<open>node_by_alias\<close>: the first child with the name; when there is none, the loop goes on with what it had.\<close>

partial_function (option) alias_loop :: "Node \<Rightarrow> u8 list list \<Rightarrow> Node option option" where
  "alias_loop root path =
     (case path of
        [] \<Rightarrow> Some None
      | first # rest \<Rightarrow>
          (case find (\<lambda>d. node_str d = first) (child_nodes root) of
             Some d \<Rightarrow> (if rest = [] then Some (Some d) else alias_loop d rest)
           | None \<Rightarrow> alias_loop root path))"

definition node_by_alias :: "Node \<Rightarrow> u8 list \<Rightarrow> Node option option" where
  "node_by_alias root alias = do {
     n \<leftarrow> usize_sub (length alias) 1;
     alias \<leftarrow> slice_opt alias 0 n;
     alias_loop root (drop 1 (split_bytes (of_char (CHR ''/'')) (utf8_lossy alias)))
   }"

function check_compatible :: "u8 list \<Rightarrow> u8 list \<Rightarrow> bool" where
  "check_compatible val compatible =
     (if 0 \<notin> set val then False
      else let null_idx = length (takeWhile (\<lambda>x. x \<noteq> 0) val) in
        if null_idx = length compatible \<and> compatible = take null_idx val then True
        else check_compatible (drop (null_idx + 1) val) compatible)"
  by pat_completeness auto

termination
  by (relation "measure (length \<circ> fst)") (auto simp: Let_def in_set_conv_decomp)

declare check_compatible.simps [simp del]

text \<open>The rounds of \<^verbatim>\<open>parse_reg\<close>, as many as there are entries.\<close>

fun parse_reg_loop :: "nat \<Rightarrow> u8 list \<Rightarrow> nat \<Rightarrow> nat \<Rightarrow> (nat \<times> nat) list option" where
  "parse_reg_loop 0 reg ac sc = Some []"
| "parse_reg_loop (Suc n) reg ac sc = do {
     reg_addr \<leftarrow> (if ac = 2 then slice_opt reg 0 8 else slice_opt reg 0 4);
     reg_size \<leftarrow> (if sc = 2 then slice_opt reg 8 16 else slice_opt reg 4 8);
     reg \<leftarrow> slice_from reg (4 * sc + 4 * ac);
     regs \<leftarrow> parse_reg_loop n reg ac sc;
     Some ((be_nat reg_addr, be_nat reg_size) # regs)
   }"

definition parse_reg :: "u8 list \<Rightarrow> nat \<Rightarrow> nat \<Rightarrow> (nat \<times> nat) list option" where
  "parse_reg reg ac sc = do {
     _ \<leftarrow> rust_assert (4 * sc + 4 * ac \<noteq> 0);
     parse_reg_loop (length reg div (4 * sc + 4 * ac)) reg ac sc
   }"

section \<open>The grammar of the structure block\<close>

text \<open>An item of a node is a property (the offset of its name in the strings block, and its value), a filler, or a node.\<close>

datatype item = IProp nat "u8 list" | INop | INode "u8 list" "item list"

definition be32 :: "nat \<Rightarrow> u8 list" where
  "be32 n = to_be_bytes (of_nat n)"

fun item_bytes :: "item \<Rightarrow> u8 list" where
  "item_bytes (IProp off v) = to_be_bytes FDT_PROP @ be32 (length v) @ be32 off @ v @ replicate ((4 - length v mod 4) mod 4) 0"
| "item_bytes INop = to_be_bytes FDT_NOP"
| "item_bytes (INode nm its) = to_be_bytes FDT_BEGIN_NODE @ nm @ replicate (4 - length nm mod 4) 0 @
     concat (map item_bytes its) @ to_be_bytes FDT_END_NODE"

definition name_at :: "u8 list \<Rightarrow> nat \<Rightarrow> u8 list" where
  "name_at strs off = concat (map latin1_push (takeWhile (\<lambda>b. b \<noteq> 0) (drop off strs)))"

definition SIZE_CELLS :: "u8 list" where "SIZE_CELLS = string_bytes ''#size-cells''"
definition ADDRESS_CELLS :: "u8 list" where "ADDRESS_CELLS = string_bytes ''#address-cells''"

fun item_ok :: "u8 list \<Rightarrow> item \<Rightarrow> bool" where
  "item_ok strs (IProp off v) \<longleftrightarrow> length v < 2 ^ 32 \<and> off < 2 ^ 32 \<and> off < length strs \<and> 0 \<in> set (drop off strs) \<and>
     (name_at strs off \<in> {SIZE_CELLS, ADDRESS_CELLS} \<longrightarrow> 4 \<le> length v)"
| "item_ok strs INop \<longleftrightarrow> True"
| "item_ok strs (INode nm its) \<longleftrightarrow> (\<forall>b \<in> set nm. b \<noteq> 0 \<and> b < 0x80) \<and> (\<forall>i \<in> set its. item_ok strs i)"

text \<open>What a node means: its properties in their order, but for the two that give the width of the cells; a number of cells is
  the last one given, or else the default; and every child has the widths its parent gives.\<close>

fun cells_of :: "u8 list \<Rightarrow> u8 list \<Rightarrow> nat \<Rightarrow> item list \<Rightarrow> nat" where
  "cells_of strs key d [] = d"
| "cells_of strs key d (IProp off v # its) = cells_of strs key (if name_at strs off = key then be_nat (take 4 v) else d) its"
| "cells_of strs key d (i # its) = cells_of strs key d its"

fun props_of :: "u8 list \<Rightarrow> item list \<Rightarrow> Property list" where
  "props_of strs [] = []"
| "props_of strs (IProp off v # its) =
     (if name_at strs off \<in> {SIZE_CELLS, ADDRESS_CELLS} then [] else [\<lparr>prop_name = name_at strs off, prop_value = v\<rparr>]) @ props_of strs its"
| "props_of strs (i # its) = props_of strs its"

fun is_node :: "item \<Rightarrow> bool" where
  "is_node (INode nm its) = True"
| "is_node i = False"

function node_of :: "u8 list \<Rightarrow> nat \<Rightarrow> nat \<Rightarrow> item \<Rightarrow> Node" where
  "node_of strs sc ac (INode nm its) = Node nm (props_of strs its)
     (map (node_of strs (cells_of strs SIZE_CELLS 1 its) (cells_of strs ADDRESS_CELLS 2 its)) (filter is_node its)) sc ac"
| "node_of strs sc ac (IProp off v) = Node [] [] [] sc ac"
| "node_of strs sc ac INop = Node [] [] [] sc ac"
  by pat_completeness auto

termination
  by (relation "measure (size \<circ> snd \<circ> snd \<circ> snd)") (auto simp: less_Suc_eq_le size_list_estimation')

definition set_cells :: "nat \<Rightarrow> nat \<Rightarrow> Node \<Rightarrow> Node" where
  "set_cells sc ac d = set_address_cells ac (set_size_cells sc d)"

section \<open>Reading a structure block\<close>

lemma u32_at_token [simp]: "u32_at (to_be_bytes t @ rest) 0 = Some t"
  by (simp add: u32_at_def slice_opt_def)

lemma slice_from_token [simp]: "slice_from (to_be_bytes t @ rest) 4 = Some rest"
  by (simp add: slice_from_def)

lemma from_be_be32: "n < 2 ^ 32 \<Longrightarrow> unat (from_be_bytes (be32 n)) = n"
  by (simp add: be32_def unat_of_nat take_bit_eq_mod)

lemma length_be32 [simp]: "length (be32 n) = 4"
  by (simp add: be32_def)

lemma parse_null_string_spec:
  assumes "0 \<notin> set nm"
  shows "parse_null_string s (nm @ 0 # rest) = Some (0 # rest, s @ concat (map latin1_push nm))"
  using assms by (induction nm arbitrary: s) auto

lemma latin1_ascii: "\<forall>b \<in> set nm. b < 0x80 \<Longrightarrow> concat (map latin1_push nm) = nm"
  by (induction nm) (simp_all add: latin1_push_def)

lemma parse_null_string_at:
  assumes "0 \<in> set (drop off strs)"
  shows "\<exists>rest. parse_null_string [] (drop off strs) = Some (rest, name_at strs off)"
proof -
  define nm where "nm = takeWhile (\<lambda>b. b \<noteq> 0) (drop off strs)"
  have "dropWhile (\<lambda>b. b \<noteq> 0) (drop off strs) \<noteq> []" using assms by auto
  then obtain rest where "dropWhile (\<lambda>b. b \<noteq> 0) (drop off strs) = 0 # rest"
    using hd_dropWhile [of "\<lambda>b. b \<noteq> 0" "drop off strs"] by (cases "dropWhile (\<lambda>b. b \<noteq> 0) (drop off strs)") auto
  then have "drop off strs = nm @ 0 # rest" using takeWhile_dropWhile_id [of "\<lambda>b. b \<noteq> 0" "drop off strs"] by (simp add: nm_def)
  moreover have "0 \<notin> set nm" using set_takeWhileD by (fastforce simp: nm_def)
  ultimately show ?thesis using parse_null_string_spec [of nm "[]" rest] by (simp add: name_at_def nm_def)
qed

lemma parse_head_spec:
  assumes "\<forall>b \<in> set nm. b \<noteq> 0 \<and> b < 0x80"
  shows "parse_head (to_be_bytes FDT_BEGIN_NODE @ nm @ replicate (4 - length nm mod 4) 0 @ rest) = Some (rest, nm)"
proof -
  obtain k where k: "4 - length nm mod 4 = Suc k" using mod_less_divisor [of 4 "length nm"] by (cases "4 - length nm mod 4") auto
  have "parse_null_string [] (nm @ 0 # replicate k 0 @ rest) = Some (0 # replicate k 0 @ rest, nm)"
    using assms parse_null_string_spec [of nm "[]"] latin1_ascii [of nm] by auto
  then show ?thesis unfolding parse_head_def by (simp add: k) (simp add: slice_from_def)
qed

text \<open>One property: what is read of it, whatever follows.\<close>

lemma read_property:
  assumes "item_ok strs (IProp off v)" "bytes = item_bytes (IProp off v) @ rest"
  shows "u32_at bytes 0 = Some FDT_PROP" "u32_at bytes 4 = Some (of_nat (length v))" "u32_at bytes 8 = Some (of_nat off)"
    "unat (of_nat (length v) :: u32) = length v" "unat (of_nat off :: u32) = off"
    "\<exists>tl. slice_from bytes 12 = Some tl \<and> slice_opt tl 0 (length v) = Some v \<and>
      slice_from tl (length v + (4 - length v mod 4) mod 4) = Some rest"
proof -
  have small: "length v < 2 ^ 32" "off < 2 ^ 32" using assms(1) by auto
  then show n: "unat (of_nat (length v) :: u32) = length v" "unat (of_nat off :: u32) = off"
    by (simp_all add: unat_of_nat take_bit_eq_mod)
  show "u32_at bytes 0 = Some FDT_PROP" "u32_at bytes 4 = Some (of_nat (length v))" "u32_at bytes 8 = Some (of_nat off)"
    unfolding assms(2) by (simp_all add: u32_at_def slice_opt_def be32_def)
  let ?pad = "replicate ((4 - length v mod 4) mod 4) 0"
  have "slice_from bytes 12 = Some (v @ ?pad @ rest)" unfolding assms(2) by (simp add: slice_from_def)
  moreover have "slice_from (v @ ?pad @ rest) (length (v @ ?pad)) = Some rest" by (simp add: slice_from_def)
  ultimately show "\<exists>tl. slice_from bytes 12 = Some tl \<and> slice_opt tl 0 (length v) = Some v \<and>
      slice_from tl (length v + (4 - length v mod 4) mod 4) = Some rest"
    by (simp add: slice_opt_def)
qed

lemma read_cells: "4 \<le> length v \<Longrightarrow> \<exists>n. u32_at v 0 = Some n \<and> unat n = be_nat (take 4 v)"
proof -
  assume v: "4 \<le> length v"
  have "be_nat (take 4 v) < 2 ^ 32" using be_nat_less [of "take 4 v"] v by simp
  then have "unat (from_be_bytes (take 4 v)) = be_nat (take 4 v)" by (simp add: from_be_bytes_nat unat_of_nat take_bit_eq_mod)
  then show ?thesis using v by (simp add: u32_at_def slice_opt_def)
qed

lemma set_cells_simps [simp]:
  "set_size_cells n (set_cells sc ac d) = set_cells n ac d" "set_address_cells n (set_cells sc ac d) = set_cells sc n d"
  "set_cells a b (set_cells sc ac d) = set_cells a b d" "size_cells (set_cells sc ac d) = sc" "address_cells (set_cells sc ac d) = ac"
  by (simp_all add: set_cells_def set_size_cells_def set_address_cells_def)

lemma children_cells:
  assumes "map (set_cells sc ac) cs = cs"
  shows "map (set_cells s a \<circ> set_size_cells n) cs = map (set_cells s a) cs" "map (set_cells s a \<circ> set_address_cells n) cs = map (set_cells s a) cs"
    "map (set_cells n ac \<circ> set_size_cells n) cs = map (set_size_cells n) cs" "map (set_cells sc n \<circ> set_address_cells n) cs = map (set_address_cells n) cs"
proof -
  have "set_cells sc ac c = c" if "c \<in> set cs" for c using assms that by (metis in_set_conv_nth nth_map)
  then have "size_cells c = sc \<and> address_cells c = ac" if "c \<in> set cs" for c using that by (metis set_cells_simps(4,5))
  then show "map (set_cells s a \<circ> set_size_cells n) cs = map (set_cells s a) cs" "map (set_cells s a \<circ> set_address_cells n) cs = map (set_cells s a) cs"
    "map (set_cells n ac \<circ> set_size_cells n) cs = map (set_size_cells n) cs" "map (set_cells sc n \<circ> set_address_cells n) cs = map (set_address_cells n) cs"
    by (simp_all add: set_cells_def set_size_cells_def set_address_cells_def)
qed

lemma node_of_cells: "set_cells sc ac (node_of strs sc' ac' i) = node_of strs sc ac i"
  by (cases i) (simp_all add: set_cells_def set_size_cells_def set_address_cells_def)

lemma cells_names: "SIZE_CELLS \<noteq> ADDRESS_CELLS"
  by (simp add: SIZE_CELLS_def ADDRESS_CELLS_def string_bytes_def)

text \<open>One round of the loop: on a property and on a node.\<close>

lemma parse_prop_step:
  assumes "item_ok strs (IProp off v)"
  shows "parse_loop strs name (item_bytes (IProp off v) @ rest) ps cs sc ac =
    (if name_at strs off = SIZE_CELLS then parse_loop strs name rest ps (map (set_size_cells (be_nat (take 4 v))) cs) (be_nat (take 4 v)) ac
     else if name_at strs off = ADDRESS_CELLS then parse_loop strs name rest ps (map (set_address_cells (be_nat (take 4 v))) cs) sc (be_nat (take 4 v))
     else parse_loop strs name rest (ps @ [\<lparr>prop_name = name_at strs off, prop_value = v\<rparr>]) cs sc ac)"
proof -
  define bytes where "bytes = item_bytes (IProp off v) @ rest"
  note read = read_property [OF assms bytes_def]
  obtain tl where tl: "slice_from bytes 12 = Some tl" "slice_opt tl 0 (length v) = Some v"
    "slice_from tl (length v + (4 - length v mod 4) mod 4) = Some rest" using read(6) by blast
  obtain after where nm: "slice_from strs off = Some (drop off strs)" "parse_null_string [] (drop off strs) = Some (after, name_at strs off)"
    using assms parse_null_string_at [of off strs] by (auto simp: slice_from_def)
  have cells: "\<exists>n. u32_at v 0 = Some n \<and> unat n = be_nat (take 4 v)" if "name_at strs off = SIZE_CELLS \<or> name_at strs off = ADDRESS_CELLS"
    using that assms read_cells [of v] by auto
  have tok: "FDT_PROP \<noteq> FDT_END_NODE" "FDT_PROP \<noteq> FDT_BEGIN_NODE" "FDT_PROP \<noteq> FDT_NOP" by (simp_all add: fdt_tokens)
  show ?thesis unfolding bytes_def [symmetric] using read(1-3) tl nm tok cells
    by (subst parse_loop.simps) (auto simp: read(4,5) SIZE_CELLS_def [symmetric] ADDRESS_CELLS_def [symmetric] rust_assert_def)
qed

lemma parse_node_step:
  assumes "\<forall>b \<in> set nm. b \<noteq> 0 \<and> b < 0x80"
    "parse_loop strs nm (concat (map item_bytes sub) @ to_be_bytes FDT_END_NODE @ rest) [] [] 1 2 = Some (to_be_bytes FDT_END_NODE @ rest, d)"
  shows "parse_loop strs name (item_bytes (INode nm sub) @ rest) ps cs sc ac = parse_loop strs name rest ps (cs @ [set_cells sc ac d]) sc ac"
proof -
  have tok: "FDT_BEGIN_NODE \<noteq> FDT_END_NODE" by (simp add: fdt_tokens)
  show ?thesis using parse_head_spec [OF assms(1)] assms(2) tok
    by (subst parse_loop.simps) (simp add: rust_assert_def set_cells_def)
qed

text \<open>The loop on the items of a node and the token that ends it; \<open>cs\<close> are the children read so far.\<close>

lemma parse_items:
  fixes its :: "item list"
  assumes "\<forall>i \<in> set its. item_ok strs i" "map (set_cells sc ac) cs = cs"
  shows "parse_loop strs name (concat (map item_bytes its) @ to_be_bytes FDT_END_NODE @ rest) ps cs sc ac =
    (let s = cells_of strs SIZE_CELLS sc its; a = cells_of strs ADDRESS_CELLS ac its in
     Some (to_be_bytes FDT_END_NODE @ rest, Node name (ps @ props_of strs its) (map (set_cells s a) cs @ map (node_of strs s a) (filter is_node its)) s a))"
  using assms
proof (induction its arbitrary: name rest ps cs sc ac rule: measure_induct_rule [of "size_list size"])
  case (less its)
  show ?case
  proof (cases its)
    case Nil
    then show ?thesis using less.prems(2) by (subst parse_loop.simps) (simp add: Let_def)
  next
    case (Cons i its')
    let ?tl = "concat (map item_bytes its') @ to_be_bytes FDT_END_NODE @ rest"
    have IH: "map (set_cells sc' ac') cs' = cs' \<Longrightarrow> parse_loop strs name ?tl ps' cs' sc' ac' =
      (let s = cells_of strs SIZE_CELLS sc' its'; a = cells_of strs ADDRESS_CELLS ac' its' in
       Some (to_be_bytes FDT_END_NODE @ rest, Node name (ps' @ props_of strs its') (map (set_cells s a) cs' @ map (node_of strs s a) (filter is_node its')) s a))"
      for ps' cs' sc' ac' using less.IH [of its'] less.prems(1) Cons by simp
    show ?thesis
    proof (cases i)
      case (IProp off v)
      have cs: "map (set_cells s a \<circ> set_size_cells n) cs = map (set_cells s a) cs" "map (set_cells s a \<circ> set_address_cells n) cs = map (set_cells s a) cs"
        "map (set_cells n ac \<circ> set_size_cells n) cs = map (set_size_cells n) cs" "map (set_cells sc n \<circ> set_address_cells n) cs = map (set_address_cells n) cs" for s a n
        using children_cells [OF less.prems(2)] by simp_all
      then show ?thesis using IProp IH parse_prop_step [of strs off v name ?tl ps cs sc ac] Cons less.prems cells_names by (simp add: Let_def)
    next
      case INop
      then show ?thesis using IH [OF less.prems(2)] Cons by (subst parse_loop.simps) (simp add: fdt_tokens)
    next
      case (INode nm sub)
      have "parse_loop strs nm (concat (map item_bytes sub) @ to_be_bytes FDT_END_NODE @ ?tl) [] [] 1 2 =
          Some (to_be_bytes FDT_END_NODE @ ?tl, node_of strs (cells_of strs SIZE_CELLS 1 sub) (cells_of strs ADDRESS_CELLS 2 sub) i)"
        using less.IH [of sub "1" "2" "[]" nm ?tl "[]"] less.prems(1) Cons INode by (simp add: Let_def)
      from parse_node_step [OF _ this, of name ps cs sc ac, unfolded node_of_cells]
      have step: "parse_loop strs name (item_bytes i @ ?tl) ps cs sc ac = parse_loop strs name ?tl ps (cs @ [node_of strs sc ac i]) sc ac"
        using less.prems(1) Cons unfolding INode by simp
      have same: "cells_of strs k d (i # its') = cells_of strs k d its'" "props_of strs (i # its') = props_of strs its'" "is_node i" for k d
        by (simp_all add: INode)
      have "map (set_cells sc ac) (cs @ [node_of strs sc ac i]) = cs @ [node_of strs sc ac i]" using less.prems(2) by (simp add: node_of_cells)
      from IH [OF this] show ?thesis unfolding Cons by (simp add: same step node_of_cells Let_def)
    qed
  qed
qed

section \<open>Device trees\<close>

text \<open>A flattened device tree: the header with the offsets of the two blocks, the reservations, and the blocks.\<close>

definition dtb_bytes :: "u32 \<Rightarrow> u8 list \<Rightarrow> item \<Rightarrow> u8 list \<Rightarrow> u8 list" where
  "dtb_bytes ver reserved root strs = (let st = item_bytes root @ to_be_bytes FDT_END in
     DTB_MAGIC @ be32 (40 + length reserved + length st + length strs) @ be32 (40 + length reserved) @ be32 (40 + length reserved + length st) @
     be32 40 @ to_be_bytes ver @ be32 16 @ be32 0 @ be32 (length strs) @ be32 (length st) @ reserved @ st @ strs)"

lemma u32_at_skip: "length pre = n \<Longrightarrow> u32_at (pre @ to_be_bytes t @ rest) n = Some t"
  by (auto simp: u32_at_def slice_opt_def)

lemma slice_from_skip: "length pre = n \<Longrightarrow> slice_from (pre @ rest) n = Some rest"
  by (auto simp: slice_from_def)

lemma parse_root:
  assumes "item_ok strs (INode nm its)"
  shows "Node_parse (item_bytes (INode nm its) @ to_be_bytes FDT_END @ after) strs =
    Some (to_be_bytes FDT_END_NODE @ to_be_bytes FDT_END @ after,
      node_of strs (cells_of strs SIZE_CELLS 1 its) (cells_of strs ADDRESS_CELLS 2 its) (INode nm its))"
  using assms parse_head_spec [of nm] parse_items [of its strs 1 2 "[]" nm "to_be_bytes FDT_END @ after" "[]"]
  by (simp add: Node_parse_def Let_def)

text \<open>C33: Reading a flattened device tree whose structure block follows the grammar, with properties, fillers and nodes in any
  order, gives the tree: every node with its name, its properties in their order and its children; the widths of the
  cells of a node are those its parent gives, wherever among its items they stand, and the defaults when it gives none.
  A file with another magic number is an error.\<close>

theorem dtb_parse_correct:
  assumes "item_ok strs (INode nm its)" "length (dtb_bytes ver reserved (INode nm its) strs) < 2 ^ 32"
  shows "DeviceTree_parse (dtb_bytes ver reserved (INode nm its) strs) =
      Some (Inr \<lparr>dt_version = ver, dt_root = node_of strs (cells_of strs SIZE_CELLS 1 its) (cells_of strs ADDRESS_CELLS 2 its) (INode nm its)\<rparr>) \<and>
    (\<forall>bs. length bs = 4 \<longrightarrow> bs \<noteq> DTB_MAGIC \<longrightarrow> DeviceTree_parse (bs @ rest) = Some (Inl (InvalidHeader bs)))"
proof (intro conjI allI impI)
  define st where "st = item_bytes (INode nm its) @ to_be_bytes FDT_END"
  define n where "n = 40 + length reserved"
  define img where "img = dtb_bytes ver reserved (INode nm its) strs"
  have img: "img = DTB_MAGIC @ be32 (n + length st + length strs) @ be32 n @ be32 (n + length st) @ be32 40 @ to_be_bytes ver @
      be32 16 @ be32 0 @ be32 (length strs) @ be32 (length st) @ reserved @ st @ strs"
    by (simp add: img_def dtb_bytes_def st_def n_def Let_def)
  obtain k where k: "n + length st = k" by simp
  have m: "length DTB_MAGIC = 4" by (simp add: DTB_MAGIC_def)
  have "length img < 2 ^ 32" using assms(2) by (simp add: img_def)
  then have small: "n < 2 ^ 32" "k < 2 ^ 32" by (simp_all add: img m n_def flip: k)
  then have off: "unat (of_nat n :: u32) = n" "unat (of_nat k :: u32) = k"
    using from_be_be32 [of n] from_be_be32 [of k] by (simp_all add: be32_def)
  have "u32_at img 8 = Some (of_nat n)" "u32_at img 12 = Some (of_nat k)" "u32_at img 20 = Some ver"
    using u32_at_skip [of "DTB_MAGIC @ be32 (n + length st + length strs)" 8] u32_at_skip [of "DTB_MAGIC @ be32 (n + length st + length strs) @ be32 n" 12]
      u32_at_skip [of "DTB_MAGIC @ be32 (n + length st + length strs) @ be32 n @ be32 (n + length st) @ be32 40" 20]
    by (simp_all add: img m be32_def flip: k)
  moreover have "slice_from img n = Some (st @ strs)" "slice_from img k = Some strs"
    by (simp_all add: img slice_from_def m n_def flip: k)
  moreover have "u32_at (to_be_bytes FDT_END_NODE @ to_be_bytes FDT_END @ strs) 4 = Some FDT_END" by (rule u32_at_skip) simp
  moreover have "take 4 img = DTB_MAGIC" by (simp add: img m)
  ultimately show "DeviceTree_parse (dtb_bytes ver reserved (INode nm its) strs) =
      Some (Inr \<lparr>dt_version = ver, dt_root = node_of strs (cells_of strs SIZE_CELLS 1 its) (cells_of strs ADDRESS_CELLS 2 its) (INode nm its)\<rparr>)"
    using parse_root [OF assms(1), of strs] unfolding img_def [symmetric] st_def [symmetric] append_assoc [symmetric]
    by (simp only: DeviceTree_parse_def off rust_assert_def append_assoc bind.bind_lunit if_True if_False simp_thms split)
next
  fix bs :: "u8 list" assume "length bs = 4" "bs \<noteq> DTB_MAGIC"
  then show "DeviceTree_parse (bs @ rest) = Some (Inl (InvalidHeader bs))" by (simp add: DeviceTree_parse_def slice_opt_def)
qed

definition demo_strings :: "u8 list" where
  "demo_strings = SIZE_CELLS @ [0] @ string_bytes ''reg'' @ [0]"

definition demo_items :: "item list" where
  "demo_items = [INode (string_bytes ''uart@10'') [IProp 12 [0, 0, 0, 0x10, 0, 0, 1, 0]], INop, IProp 0 [0, 0, 0, 2]]"

lemma demo_names: "name_at demo_strings 0 = SIZE_CELLS" "name_at demo_strings 12 = string_bytes ''reg''"
  by (simp_all add: name_at_def demo_strings_def SIZE_CELLS_def string_bytes_def latin1_push_def word_less_nat_alt)

theorem dtb_parse_correct_witness:
  "DeviceTree_parse (dtb_bytes 17 [] (INode [] demo_items) demo_strings) = Some (Inr \<lparr>dt_version = 17, dt_root =
     Node [] [] [Node (string_bytes ''uart@10'') [\<lparr>prop_name = string_bytes ''reg'', prop_value = [0, 0, 0, 0x10, 0, 0, 1, 0]\<rparr>] [] 2 2] 2 2\<rparr>)"
proof -
  have reg: "string_bytes ''reg'' \<notin> {SIZE_CELLS, ADDRESS_CELLS}" by (simp add: SIZE_CELLS_def ADDRESS_CELLS_def string_bytes_def)
  have len: "length demo_strings = 16" "drop 12 demo_strings = string_bytes ''reg'' @ [0]" by (simp_all add: demo_strings_def SIZE_CELLS_def string_bytes_def)
  have "0 \<in> set demo_strings" by (simp add: demo_strings_def)
  moreover have "\<forall>b \<in> set (string_bytes ''uart@10''). b \<noteq> 0 \<and> b < 0x80" by (simp add: string_bytes_def word_less_nat_alt)
  ultimately have ok: "item_ok demo_strings (INode [] demo_items)" using reg by (simp add: demo_items_def demo_names len)
  have size: "length (dtb_bytes 17 [] (INode [] demo_items) demo_strings) < 2 ^ 32"
    by (simp add: dtb_bytes_def demo_items_def DTB_MAGIC_def len string_bytes_def Let_def)
  show ?thesis using dtb_parse_correct [OF ok size] reg cells_names
    by (simp add: demo_items_def demo_names be_nat_def)
qed

section \<open>Registers\<close>

text \<open>The bytes of registers, with the given widths.\<close>

definition cell_bytes :: "nat \<Rightarrow> nat \<Rightarrow> u8 list" where
  "cell_bytes c n = (if c = 2 then u64_to_be_bytes (of_nat n) else to_be_bytes (of_nat n))"

definition reg_bytes :: "nat \<Rightarrow> nat \<Rightarrow> (nat \<times> nat) list \<Rightarrow> u8 list" where
  "reg_bytes ac sc rs = concat (map (\<lambda>(a, s). cell_bytes ac a @ cell_bytes sc s) rs)"

lemma be_nat_to_be: "be_nat (to_be_bytes w) = unat w"
proof -
  have "be_nat (to_be_bytes w) < 2 ^ 32" using be_nat_less [of "to_be_bytes w"] by simp
  then show ?thesis using arg_cong [OF from_be_to_be [of w], of unat] by (simp add: from_be_bytes_nat unat_of_nat take_bit_eq_mod)
qed

lemma be_nat_cell: "n < 2 ^ (32 * c) \<Longrightarrow> c = 1 \<or> c = 2 \<Longrightarrow> be_nat (cell_bytes c n) = n \<and> length (cell_bytes c n) = 4 * c"
proof (elim disjE)
  assume "n < 2 ^ (32 * c)" "c = 2"
  then have n: "unat (of_nat n :: u64) = n" by (simp add: unat_of_nat take_bit_eq_mod)
  have low: "unat (ucast w :: u32) = unat w mod 2 ^ 32" for w :: u64 by (simp add: unsigned_ucast_eq take_bit_eq_mod)
  have "unat (drop_bit 32 (of_nat n :: u64)) = n div 2 ^ 32" by (subst unat_drop_bit_eq) (simp only: n drop_bit_eq_div)
  then have "unat (ucast (drop_bit 32 (of_nat n :: u64)) :: u32) = n div 2 ^ 32" "unat (ucast (of_nat n :: u64) :: u32) = n mod 2 ^ 32"
    using \<open>n < 2 ^ (32 * c)\<close> \<open>c = 2\<close> by (simp_all only: low n) (simp add: less_mult_imp_div_less)
  then show ?thesis using \<open>c = 2\<close> by (simp add: cell_bytes_def u64_to_be_bytes_def be_nat_append be_nat_to_be)
qed (simp add: cell_bytes_def be_nat_to_be unat_of_nat take_bit_eq_mod)

lemma parse_reg_loop_same:
  assumes "c = 1 \<or> c = 2" "\<forall>(a, s) \<in> set rs. a < 2 ^ (32 * c) \<and> s < 2 ^ (32 * c)"
  shows "parse_reg_loop (length rs) (reg_bytes c c rs) c c = Some rs"
  using assms(2)
proof (induction rs)
  case Nil
  then show ?case by simp
next
  case (Cons r rs)
  obtain a s where r: "r = (a, s)" by (cases r)
  define tl where "tl = reg_bytes c c rs"
  have bytes: "reg_bytes c c (r # rs) = cell_bytes c a @ cell_bytes c s @ tl" by (simp add: reg_bytes_def r tl_def)
  have a: "be_nat (cell_bytes c a) = a" "length (cell_bytes c a) = 4 * c" and s: "be_nat (cell_bytes c s) = s" "length (cell_bytes c s) = 4 * c"
    using be_nat_cell [OF _ assms(1)] Cons.prems r by auto
  have "parse_reg_loop (length rs) tl c c = Some rs" using Cons by (simp add: tl_def)
  then show ?case using assms(1) a s unfolding bytes
    by (auto simp: slice_opt_def slice_from_def r)
qed

lemma reg_bytes_length:
  assumes "c = 1 \<or> c = 2" "\<forall>(a, s) \<in> set rs. a < 2 ^ (32 * c) \<and> s < 2 ^ (32 * c)"
  shows "length (reg_bytes c c rs) = length rs * (4 * c + 4 * c)"
  using assms(2)
proof (induction rs)
  case (Cons r rs)
  then show ?case using be_nat_cell [OF _ assms(1), of "fst r"] be_nat_cell [OF _ assms(1), of "snd r"]
    by (auto simp: reg_bytes_def split: prod.splits)
qed (simp add: reg_bytes_def)

text \<open>Reading the registers of a node. When addresses and sizes have the same width, one cell or two, all registers are read
  as they are written. With addresses of two cells and sizes of one, every size is read from the lower half of the
  address instead.\<close>

theorem parse_reg_correct:
  assumes "c = 1 \<or> c = 2" "\<forall>(a, s) \<in> set rs. a < 2 ^ (32 * c) \<and> s < 2 ^ (32 * c)" "addr < 2 ^ 64" "sz < 2 ^ 32"
  shows "parse_reg (reg_bytes c c rs) c c = Some rs \<and> parse_reg (reg_bytes 2 1 [(addr, sz)]) 2 1 = Some [(addr, addr mod 2 ^ 32)]"
proof
  show "parse_reg (reg_bytes c c rs) c c = Some rs"
    using parse_reg_loop_same [OF assms(1,2)] reg_bytes_length [OF assms(1,2)] assms(1) by (auto simp: parse_reg_def rust_assert_def)
  have a: "be_nat (cell_bytes 2 addr) = addr" "length (cell_bytes 2 addr) = 8" using be_nat_cell [of addr 2] assms(3) by simp_all
  have s: "length (cell_bytes 1 sz) = 4" using be_nat_cell [of sz 1] assms(4) by simp
  define hi lo where "hi = take 4 (cell_bytes 2 addr)" and "lo = drop 4 (cell_bytes 2 addr)"
  have hl: "cell_bytes 2 addr = hi @ lo" "length lo = 4" using a(2) by (simp_all add: hi_def lo_def)
  have "be_nat lo < 2 ^ 32" using be_nat_less [of lo] hl(2) by simp
  moreover have "be_nat hi * 2 ^ 32 + be_nat lo = addr" using a(1) hl be_nat_append [of hi lo] by simp
  ultimately have "be_nat lo = addr mod 2 ^ 32" by (metis mod_less mod_mult_self3)
  moreover have "take 4 (drop 4 (cell_bytes 2 addr @ cell_bytes 1 sz)) = lo" using a(2) by (simp add: lo_def)
  ultimately show "parse_reg (reg_bytes 2 1 [(addr, sz)]) 2 1 = Some [(addr, addr mod 2 ^ 32)]"
    using a s hl(2) by (simp add: parse_reg_def rust_assert_def reg_bytes_def slice_opt_def slice_from_def)
qed

theorem parse_reg_correct_witness:
  "parse_reg (reg_bytes 2 2 [(0x10000000, 0x100), (0xC000000, 0x600000)]) 2 2 = Some [(0x10000000, 0x100), (0xC000000, 0x600000)] \<and>
   parse_reg (reg_bytes 2 1 [(0x10000000, 0x100)]) 2 1 = Some [(0x10000000, 0x10000000)]"
  using parse_reg_correct [of 2 "[(0x10000000, 0x100), (0xC000000, 0x600000)]" "0x10000000" "0x100"] by simp

section \<open>Finding nodes\<close>

text \<open>The node at a path from a node on, by the first child of each name.\<close>

fun node_at :: "Node \<Rightarrow> u8 list list \<Rightarrow> Node option" where
  "node_at root [] = Some root"
| "node_at root (p # ps) = (case find (\<lambda>d. node_str d = p) (child_nodes root) of None \<Rightarrow> None | Some d \<Rightarrow> node_at d ps)"

lemma alias_loop_stuck:
  assumes "find (\<lambda>d. node_str d = p) (child_nodes root) = None"
  shows "alias_loop root (p # ps) = None"
proof -
  have "alias_loop r path = Some y \<Longrightarrow> \<not> (r = root \<and> path = p # ps)" for r path y
  proof (induction r path y rule: alias_loop.raw_induct [rotated, consumes 1, case_names round])
    case (round loop r path y)
    show ?case
    proof
      assume "r = root \<and> path = p # ps"
      then have "loop root (p # ps) = Some y" using round(2) assms by simp
      with round(1) show False by blast
    qed
  qed
  then show ?thesis by (metis not_None_eq)
qed

lemma alias_loop_spec: "alias_loop root path = (if path = [] then Some None else map_option Some (node_at root path))"
proof (induction path arbitrary: root)
  case Nil
  then show ?case by (subst alias_loop.simps) simp
next
  case (Cons p ps)
  show ?case
  proof (cases "find (\<lambda>d. node_str d = p) (child_nodes root)")
    case None
    then show ?thesis by (simp add: alias_loop_stuck)
  next
    case (Some d)
    then show ?thesis using Cons.IH [of d] by (subst alias_loop.simps) simp
  qed
qed

text \<open>C34: \<^verbatim>\<open>node_by_alias\<close> on an alias with a zero byte at its end. It finds the node that the path leads to, taking at every
  step the first child of that name; without a slash in the alias it reports that there is none; but a path that
  leads nowhere makes it loop forever instead of reporting that.\<close>

theorem node_by_alias_correct:
  shows "node_by_alias root (alias @ [0]) =
    (let path = tl (split_bytes (of_char (CHR ''/'')) (utf8_lossy alias)) in
     if path = [] then Some None else map_option Some (node_at root path))"
  by (simp add: node_by_alias_def slice_opt_def alias_loop_spec Let_def drop_Suc)

lemma check_compatible_join:
  assumes "0 \<notin> set s"
  shows "check_compatible (s @ 0 # rest) compatible \<longleftrightarrow> s = compatible \<or> check_compatible rest compatible"
proof -
  have t: "takeWhile (\<lambda>x. x \<noteq> 0) (s @ 0 # rest) = s" using assms by (subst takeWhile_append2) auto
  show ?thesis by (subst check_compatible.simps) (auto simp: t Let_def)
qed

text \<open>The value of a \<^verbatim>\<open>compatible\<close> property is a list of strings with a zero byte after each.\<close>

lemma check_compatible_correct:
  assumes "\<forall>s \<in> set ss. 0 \<notin> set s"
  shows "check_compatible (concat (map (\<lambda>s. s @ [0]) ss)) compatible \<longleftrightarrow> compatible \<in> set ss"
  using assms
proof (induction ss)
  case Nil
  then show ?case by (subst check_compatible.simps) simp
next
  case (Cons s ss)
  then show ?case using check_compatible_join [of s "concat (map (\<lambda>s. s @ [0]) ss)" compatible] by auto
qed

end
