(* ===== verification/Uart.thy ===== *)
theory Uart
  imports Devfs
begin

text \<open>
  Character devices: the provided methods of the trait \<^verbatim>\<open>CharDev\<close> (\<^verbatim>\<open>src/src/device.rs\<close>) and the two serial drivers
  (\<^verbatim>\<open>src/src/device/uart.rs\<close>).

  A driver is the address of its registers. Writes to them are kept in their order, as pairs of address and byte; a byte read from
  a register is an argument. The locale \<open>char_dev\<close> is what printing needs of a device; both drivers and the list of bytes
  that stands for a device in \<open>Devfs\<close> interpret it.
\<close>

section \<open>The drivers\<close>

datatype Uart = NS16550 nat | PL011 nat

type_synonym mmio = "(nat \<times> u8) list"

fun uart_addr :: "Uart \<Rightarrow> nat" where
  "uart_addr (NS16550 a) = a"
| "uart_addr (PL011 a) = a"

definition can_read :: "Uart \<Rightarrow> bool" where
  "can_read u = False"

definition can_write :: "Uart \<Rightarrow> bool" where
  "can_write u = True"

fun put_char :: "Uart \<Rightarrow> u8 \<Rightarrow> mmio \<Rightarrow> mmio" where
  "put_char (NS16550 a) c io = io @ [(a, c)]"
| "put_char (PL011 a) c io = io @ [(a, c)]"

definition get_char :: "Uart \<Rightarrow> mmio \<Rightarrow> (u8 \<times> mmio) option" where
  \<comment> \<open>\<open>unimplemented!()\<close>\<close>
  "get_char u io = None"

text \<open>\<open>lcr\<close> is what the line control register gives when it is read.\<close>

fun uart_init :: "Uart \<Rightarrow> u8 \<Rightarrow> mmio \<Rightarrow> mmio" where
  "uart_init (NS16550 ptr) lcr io = (let
     io = io @ [(ptr + 3, 8), (ptr + 2, 1), (ptr + 1, 1)];
     divisor = 592 :: nat;
     divisor_low = of_nat (divisor mod 256);
     divisor_high = of_nat (divisor div 256)
     in io @ [(ptr + 3, lcr OR push_bit 7 1), (ptr + 0, divisor_low), (ptr + 1, divisor_high), (ptr + 3, lcr)])"
| "uart_init (PL011 ptr) lcr io = io"

section \<open>The provided methods of \<^verbatim>\<open>CharDev\<close>\<close>

definition print_with :: "(u8 \<Rightarrow> 'd \<Rightarrow> 'd) \<Rightarrow> u8 list \<Rightarrow> 'd \<Rightarrow> 'd" where
  "print_with put s dev = fold put s dev"

partial_function (option) input_loop :: "('d \<Rightarrow> (u8 \<times> 'd) option) \<Rightarrow> u8 list \<Rightarrow> 'd \<Rightarrow> (u8 list \<times> 'd) option" where
  "input_loop get input dev = do {
     (c, dev) \<leftarrow> get dev;
     if c = 10 then Some (utf8_lossy input, dev) else input_loop get (input @ [c]) dev
   }"

definition input_str :: "('d \<Rightarrow> (u8 \<times> 'd) option) \<Rightarrow> 'd \<Rightarrow> (u8 list \<times> 'd) option" where
  "input_str get dev = input_loop get [] dev"

section \<open>Printing\<close>

locale char_dev =
  fixes put :: "u8 \<Rightarrow> 'd \<Rightarrow> 'd" and out :: "'d \<Rightarrow> u8 list"
  assumes put_out: "out (put c d) = out d @ [c]"
begin

lemma print_out: "out (print_with put s d) = out d @ s"
  by (induction s arbitrary: d) (simp_all add: print_with_def put_out)

end

text \<open>What a driver has put on its data register.\<close>

definition sent :: "nat \<Rightarrow> mmio \<Rightarrow> u8 list" where
  "sent a io = map snd (filter (\<lambda>(r, _). r = a) io)"

interpretation uart: char_dev "put_char u" "sent (uart_addr u)" for u
  by unfold_locales (cases u; simp add: sent_def)

interpretation list_dev: char_dev "\<lambda>c d. d @ [c]" id
  by unfold_locales simp

lemma print_str_print: "print_str dev s = print_with (\<lambda>c d. d @ [c]) s dev"
  by (simp add: print_str_def print_with_def foldl_conv_fold)

lemma print_str_eq: "print_str dev s = dev @ s"
  using list_dev.print_out [of s dev] by (simp add: print_str_print)

lemma uart_prints: "print_with (put_char u) s io = io @ map (Pair (uart_addr u)) s"
  by (induction s arbitrary: io; cases u) (simp_all add: print_with_def)

section \<open>Reading a line\<close>

text \<open>A device that has delivered a line up to its end.\<close>

fun delivers :: "('d \<Rightarrow> (u8 \<times> 'd) option) \<Rightarrow> 'd \<Rightarrow> u8 list \<Rightarrow> 'd \<Rightarrow> bool" where
  "delivers get d [] d' \<longleftrightarrow> d = d'"
| "delivers get d (c # cs) d' \<longleftrightarrow> (\<exists>d1. get d = Some (c, d1) \<and> delivers get d1 cs d')"

lemma input_loop_line:
  "delivers get d (line @ [10]) d' \<Longrightarrow> 10 \<notin> set line \<Longrightarrow> input_loop get input d = Some (utf8_lossy (input @ line), d')"
proof (induction line arbitrary: d input)
  case Nil
  then show ?case by (subst input_loop.simps) simp
next
  case (Cons c line)
  then obtain d1 where d1: "get d = Some (c, d1)" "delivers get d1 (line @ [10]) d'" by auto
  then show ?case using Cons.IH [OF d1(2), of "input @ [c]"] Cons.prems(2) by (subst input_loop.simps) simp
qed

text \<open>A line is read up to its end, which is dropped; neither driver can deliver one.\<close>

lemma input_str_line: "delivers get d (line @ [10]) d' \<Longrightarrow> 10 \<notin> set line \<Longrightarrow> input_str get d = Some (utf8_lossy line, d')"
  using input_loop_line [of get d line d' "[]"] by (simp add: input_str_def)

lemma uart_no_input: "input_str (get_char u) io = None"
  unfolding input_str_def by (subst input_loop.simps) (simp add: get_char_def)

end
