(* ===== verification/Boot.thy ===== *)
theory Boot
  imports Kernel_Paging Trap Dtb Uart
begin

text \<open>
  The start of the kernel (\<^verbatim>\<open>src/src/main.rs\<close>) and the parts of the architectures it calls (\<^verbatim>\<open>src/src/trap.rs\<close>,
  \<^verbatim>\<open>src/src/arch/riscv64{.rs,/cpu.rs,/trap.rs}\<close>, \<^verbatim>\<open>src/src/arch/arm64{.rs,/cpu.rs,/gic.rs}\<close>).

  The control registers that only the start writes are records of their own beside those of \<open>Trap\<close>. What differs between the
  architectures is collected in \<open>BootArch\<close>, as \<^verbatim>\<open>target_arch\<close> selects it. The memory of a device tree is read at the
  address the boot loader gives, which the kernel maps to itself. \<open>kernel_main\<close> ends in the panic with which the source ends;
  its value is the system at that point.
\<close>

section \<open>RISC-V\<close>

record rv_mregs =
  mideleg :: u64
  medeleg :: u64
  sie :: u64
  mie :: u64
  menvcfg :: u64
  mcounteren :: u64
  mepc :: u64
  sscratch :: u64

definition MEDELEG_ILLEGAL_INS :: u64 where "MEDELEG_ILLEGAL_INS = push_bit 2 1"
definition MEDELEG_ECALL_U :: u64 where "MEDELEG_ECALL_U = push_bit 8 1"
definition MCAUSE_ECALL_U :: u64 where "MCAUSE_ECALL_U = 8"
definition MCAUSE_ECALL_S :: u64 where "MCAUSE_ECALL_S = 9"
definition MCAUSE_ECALL_M :: u64 where "MCAUSE_ECALL_M = 11"

text \<open>\<open>m_mode\<close> is the feature \<^verbatim>\<open>riscv_m_mode\<close>.\<close>

definition rv_cpu_init :: "bool \<Rightarrow> rv_mregs \<Rightarrow> rv_mregs" where
  "rv_cpu_init m_mode r = (if m_mode then r\<lparr>mideleg := 0xffff, medeleg := MEDELEG_ILLEGAL_INS OR MEDELEG_ECALL_U\<rparr> else r)"

definition rv_enable_timer :: "bool \<Rightarrow> rv_mregs \<Rightarrow> rv_regs \<Rightarrow> Machine \<Rightarrow> (rv_mregs \<times> rv_regs \<times> Machine) option" where
  "rv_enable_timer m_mode mr r m = do {
     t \<leftarrow> usize_add (timer_at m (reads m)) TIMER_INTERVAL;
     let mr = mr\<lparr>sie := sie mr OR push_bit 5 1\<rparr>;
     let mr = (if m_mode then mr\<lparr>mie := mie mr OR push_bit 5 1, menvcfg := menvcfg mr OR push_bit 63 1, mcounteren := mcounteren mr OR 2\<rparr> else mr);
     Some (mr, r\<lparr>stimecmp := t\<rparr>, m\<lparr>reads := reads m + 1\<rparr>)
   }"

definition mtrap_handler :: "u64 \<Rightarrow> rv_mregs \<Rightarrow> rv_mregs option" where
  "mtrap_handler mcause mr =
     (if mcause = MCAUSE_ECALL_M \<or> mcause = MCAUSE_ECALL_S \<or> mcause = MCAUSE_ECALL_U then do {
        pc \<leftarrow> usize_add (unat (mepc mr)) 4;
        Some (mr\<lparr>mepc := of_nat pc\<rparr>)
      }
      else Some mr)"

definition rv_enable_interrupts :: "rv_regs \<Rightarrow> rv_regs" where
  "rv_enable_interrupts r = r\<lparr>sstatus := sstatus r OR 2\<rparr>"

definition rv_disable_interrupts :: "rv_regs \<Rightarrow> rv_regs" where
  "rv_disable_interrupts r = r\<lparr>sstatus := sstatus r AND NOT 2\<rparr>"

definition rv_trap_stack_init :: "nat \<Rightarrow> rv_mregs \<Rightarrow> rv_mregs option" where
  "rv_trap_stack_init stk mr = do {
     top \<leftarrow> usize_add stk 16;
     Some (mr\<lparr>sscratch := push_bit PAGE_BITS (of_nat top)\<rparr>)
   }"

section \<open>ARM\<close>

record arm_sysregs =
  tcr_el1 :: u64
  mair_el1 :: u64
  vbar_el1 :: u64
  cntv_ctl :: u64
  cpacr_el1 :: u64
  irq_masked :: bool

definition TCR_T0SZ :: u64 where "TCR_T0SZ = 16"
definition TCR_TG0_4KB :: u64 where "TCR_TG0_4KB = push_bit 6 0"
definition TCR_IRGN0 :: u64 where "TCR_IRGN0 = push_bit 8 1"
definition TCR_ORGN0 :: u64 where "TCR_ORGN0 = push_bit 10 1"
definition TCR_T1SZ :: u64 where "TCR_T1SZ = push_bit 16 16"
definition TCR_TG1_4KB :: u64 where "TCR_TG1_4KB = push_bit 30 2"
definition TCR_IRGN1 :: u64 where "TCR_IRGN1 = push_bit 24 1"
definition TCR_ORGN1 :: u64 where "TCR_ORGN1 = push_bit 26 1"
definition MAIR_NORMAL_WB :: u64 where "MAIR_NORMAL_WB = 0xff"
definition MAIR_ATTR0_OFF :: nat where "MAIR_ATTR0_OFF = 0"

definition arm_cpu_init :: "nat \<Rightarrow> arm_sysregs \<Rightarrow> arm_regs \<Rightarrow> arm_sysregs \<times> arm_regs" where
  "arm_cpu_init vector_table sr r =
     (sr\<lparr>tcr_el1 := TCR_T0SZ OR TCR_TG0_4KB OR TCR_IRGN0 OR TCR_ORGN0 OR TCR_T1SZ OR TCR_TG1_4KB OR TCR_IRGN1 OR TCR_ORGN1,
        mair_el1 := push_bit MAIR_ATTR0_OFF MAIR_NORMAL_WB, vbar_el1 := of_nat vector_table, cntv_ctl := 1, cpacr_el1 := push_bit 20 3\<rparr>,
      arm_set_timer r)"

definition arm_enable_interrupts :: "arm_sysregs \<Rightarrow> arm_sysregs" where
  "arm_enable_interrupts sr = sr\<lparr>irq_masked := False\<rparr>"

definition arm_disable_interrupts :: "arm_sysregs \<Rightarrow> arm_sysregs" where
  "arm_disable_interrupts sr = sr\<lparr>irq_masked := True\<rparr>"

section \<open>Registers of devices\<close>

text \<open>The loops that map the ranges of a \<^verbatim>\<open>reg\<close> property to themselves.\<close>

fun map_regs :: "Mapper \<Rightarrow> table \<Rightarrow> (nat \<times> nat) list \<Rightarrow> Machine \<Rightarrow> Machine option" where
  "map_regs M root [] m = Some m"
| "map_regs M root ((reg_addr, reg_size) # rs) m = do {
     m \<leftarrow> map_data M m root (reg_addr div PAGE_SIZE) (reg_addr div PAGE_SIZE) (div_ceil reg_size PAGE_SIZE);
     map_regs M root rs m
   }"

definition kernel_root :: "Machine \<Rightarrow> table option" where
  "kernel_root m = map_option PageMapper_from_root (virt_from_phys PAGE_OFFSET (kernel_pt m))"

definition is_gic :: "u8 list \<Rightarrow> bool" where
  "is_gic compatible \<longleftrightarrow> check_compatible compatible (string_bytes ''arm,cortex-a15-gic'') \<or>
     check_compatible compatible (string_bytes ''arm,gic-400'') \<or> check_compatible compatible (string_bytes ''arm,gic-v3'')"

definition init_gic_regs :: "Node \<Rightarrow> arm_regs \<Rightarrow> Machine \<Rightarrow> ((string + unit) \<times> arm_regs \<times> Machine) option" where
  "init_gic_regs d r m =
     (case (get_property d (string_bytes ''compatible''), get_property d (string_bytes ''reg'')) of
        (Some compatible, Some reg) \<Rightarrow>
          (if is_gic compatible then do {
             root \<leftarrow> kernel_root m;
             rs \<leftarrow> parse_reg reg (address_cells d) (size_cells d);
             (gicd, _) \<leftarrow> nth_opt rs 0;
             (gicc, _) \<leftarrow> nth_opt rs 1;
             m \<leftarrow> map_regs Arm64Mapper root rs m;
             Some (Inr (), r\<lparr>gicd_base := gicd mod 2 ^ 32, gicc_base := gicc mod 2 ^ 32\<rparr>, m)
           }
           else Some (Inl ''No compatible GIC node found'', r, m))
      | _ \<Rightarrow> Some (Inl ''No compatible GIC node found'', r, m))"

definition is_intc :: "Node \<Rightarrow> bool" where
  "is_intc d \<longleftrightarrow> node_name (node_str d) = string_bytes ''intc'' \<or> node_name (node_str d) = string_bytes ''interrupt-controller''"

text \<open>The loop of \<^verbatim>\<open>soc_init\<close> stops at the first interrupt controller, a child of the root or of a node \<^verbatim>\<open>soc\<close>.\<close>

fun find_intc :: "Node list \<Rightarrow> Node option" where
  "find_intc [] = None"
| "find_intc (d # ds) =
     (if is_intc d then Some d
      else if node_name (node_str d) = string_bytes ''soc'' then
        (case find is_intc (child_nodes d) of Some i \<Rightarrow> Some i | None \<Rightarrow> find_intc ds)
      else find_intc ds)"

definition arm_soc_init :: "DeviceTree \<Rightarrow> arm_regs \<Rightarrow> Machine \<Rightarrow> (arm_regs \<times> Machine) option" where
  "arm_soc_init dtb r m = do {
     (r, m) \<leftarrow> (case find_intc (child_nodes (dt_root dtb)) of
         Some d \<Rightarrow> do { (res, r, m) \<leftarrow> init_gic_regs d r m; (case res of Inl _ \<Rightarrow> None | Inr _ \<Rightarrow> Some (r, m)) }
       | None \<Rightarrow> Some (r, m));
     r \<leftarrow> gic_init r;
     Some (r, m)
   }"

section \<open>The console\<close>

record 'c Console =
  c_glob :: Globals
  c_vfs :: "DevFS VirtualFileSystem"
  c_sched :: "'c Scheduler"
  c_mach :: Machine
  c_uarts :: "Uart list"

text \<open>One branch of \<^verbatim>\<open>setup_by_serial0_node\<close>: the driver becomes the output of the log and the device \<^verbatim>\<open>tty0\<close>. The output of
  the log is a device of its own at the same address.\<close>

definition add_console :: "Uart \<Rightarrow> 'c Console \<Rightarrow> 'c Console option" where
  "add_console u c = do {
     let e = c_glob c;
     let e = e\<lparr>g_kmsg := (g_kmsg e)\<lparr>output_handler := Some []\<rparr>\<rparr>;
     let (dev, e) = register_char_dev e [];
     (i, fs) \<leftarrow> get_fs_mut (c_vfs c) ''/dev'';
     (r, fs) \<leftarrow> fs_mknod DevFS_ops fs ''tty0'' CharDev (CHAR_DEV_MAJOR, dev);
     (case r of Inl _ \<Rightarrow> None | Inr _ \<Rightarrow> Some (c\<lparr>c_glob := e, c_vfs := set_fs i fs (c_vfs c), c_uarts := c_uarts c @ [u]\<rparr>))
   }"

definition try_console :: "(nat \<Rightarrow> Uart) \<Rightarrow> string \<Rightarrow> Node \<Rightarrow> 'c Console \<Rightarrow> 'c Console option" where
  "try_console driver name d c =
     (case (get_property d (string_bytes ''compatible''), get_property d (string_bytes ''reg'')) of
        (Some compatible, Some reg) \<Rightarrow>
          (if check_compatible compatible (string_bytes name) then do {
             rs \<leftarrow> parse_reg reg (address_cells d) (size_cells d);
             (reg_addr, _) \<leftarrow> nth_opt rs 0;
             add_console (driver reg_addr) c
           }
           else Some c)
      | _ \<Rightarrow> Some c)"

definition setup_by_serial0_node :: "'c Arch \<Rightarrow> Node \<Rightarrow> 'c Console \<Rightarrow> 'c Console option" where
  "setup_by_serial0_node A d c = do {
     c \<leftarrow> try_console PL011 ''arm,pl011'' d c;
     c \<leftarrow> try_console NS16550 ''ns16550a'' d c;
     (case get_property d (string_bytes ''reg'') of
        Some reg \<Rightarrow> do {
          rs \<leftarrow> parse_reg reg (address_cells d) (size_cells d);
          t \<leftarrow> current_task (c_sched c);
          m \<leftarrow> map_regs (arch_mapper A) (task_page t) rs (c_mach c);
          Some (c\<lparr>c_mach := m\<rparr>)
        }
      | None \<Rightarrow> Some c)
   }"

fun setup_console_loop :: "'c Arch \<Rightarrow> Node \<Rightarrow> Node list \<Rightarrow> 'c Console \<Rightarrow> 'c Console option" where
  "setup_console_loop A root [] c = Some c"
| "setup_console_loop A root (d # ds) c =
     (if node_name (node_str d) = string_bytes ''serial0'' then setup_by_serial0_node A d c
      else if node_str d = string_bytes ''aliases'' then
        (case get_property d (string_bytes ''serial0'') of
           Some serial0 \<Rightarrow> do { found \<leftarrow> node_by_alias root serial0; d \<leftarrow> found; setup_by_serial0_node A d c }
         | None \<Rightarrow> setup_console_loop A root ds c)
      else setup_console_loop A root ds c)"

definition setup_console :: "'c Arch \<Rightarrow> DeviceTree \<Rightarrow> 'c Console \<Rightarrow> 'c Console option" where
  "setup_console A dtb c = setup_console_loop A (dt_root dtb) (child_nodes (dt_root dtb)) c"

section \<open>The start\<close>

definition STACK_SIZE :: nat where "STACK_SIZE = 64 * 4096"

definition clear_bss :: "Linker \<Rightarrow> Machine \<Rightarrow> Machine option" where
  "clear_bss lds m = do {
     let bss_start = BSS_START lds + STACK_SIZE;
     n \<leftarrow> usize_sub (BSS_END lds) bss_start;
     Some (m\<lparr>ram := write_ram (ram m) bss_start (replicate n 0)\<rparr>)
   }"

definition read_mem :: "Machine \<Rightarrow> nat \<Rightarrow> nat \<Rightarrow> u8 list" where
  "read_mem m a n = map (ram m) [a..<a + n]"

definition load_dtb :: "Mapper \<Rightarrow> nat \<Rightarrow> Machine \<Rightarrow> ((ParseError + DeviceTree) \<times> Machine) option" where
  "load_dtb M dtb_addr m = do {
     root \<leftarrow> kernel_root m;
     let page = drop_bit PAGE_BITS dtb_addr;
     m \<leftarrow> map_rodata M m root page page 1;
     dtb_size \<leftarrow> detect_totalsize (read_mem m dtb_addr 8);
     n \<leftarrow> usize_sub (div_ceil dtb_size PAGE_SIZE) 1;
     m \<leftarrow> map_rodata M m root (page + 1) (page + 1) n;
     dtb \<leftarrow> DeviceTree_parse (read_mem m dtb_addr dtb_size);
     Some (dtb, m)
   }"

record ('c, 'r) BootArch =
  b_arch :: "'c Arch"
  b_cpu_init :: "'r \<Rightarrow> Machine \<Rightarrow> ('r \<times> Machine) option"
  b_soc_init :: "DeviceTree \<Rightarrow> 'r \<Rightarrow> Machine \<Rightarrow> ('r \<times> Machine) option"
  b_switch_to :: "table \<Rightarrow> 'r \<Rightarrow> 'r option"
  b_trap_stack :: "nat \<Rightarrow> 'r \<Rightarrow> 'r option"
  b_enable_irqs :: "'r \<Rightarrow> 'r"

definition rv_boot :: "bool \<Rightarrow> (riscv_context, rv_mregs \<times> rv_regs) BootArch" where
  "rv_boot m_mode = \<lparr>b_arch = riscv64_arch,
     b_cpu_init = (\<lambda>(mr, r) m. do { (mr, r, m) \<leftarrow> rv_enable_timer m_mode (rv_cpu_init m_mode mr) r m; Some ((mr, r), m) }),
     b_soc_init = (\<lambda>dtb r m. Some (r, m)),
     b_switch_to = (\<lambda>root (mr, r). map_option (Pair mr) (rv_switch_to root r)),
     b_trap_stack = (\<lambda>stk (mr, r). map_option (\<lambda>mr. (mr, r)) (rv_trap_stack_init stk mr)),
     b_enable_irqs = (\<lambda>(mr, r). (mr, rv_enable_interrupts r))\<rparr>"

definition arm_boot :: "nat \<Rightarrow> nat \<Rightarrow> (arm64_context, arm_sysregs \<times> arm_regs) BootArch" where
  "arm_boot freq vector_table = \<lparr>b_arch = arm64_arch freq,
     b_cpu_init = (\<lambda>(sr, r) m. Some (arm_cpu_init vector_table sr r, m)),
     b_soc_init = (\<lambda>dtb (sr, r) m. do { (r, m) \<leftarrow> arm_soc_init dtb r m; Some ((sr, r), m) }),
     b_switch_to = (\<lambda>root (sr, r). map_option (Pair sr) (arm_switch_to root r)),
     b_trap_stack = (\<lambda>stk r. Some r),
     b_enable_irqs = (\<lambda>(sr, r). (arm_enable_interrupts sr, r))\<rparr>"

text \<open>The part of \<^verbatim>\<open>kernel_main\<close> that sets the memory up: the page allocator and the page table of the kernel.\<close>

definition init_memory :: "Linker \<Rightarrow> ('c, 'r) BootArch \<Rightarrow> StaticPageAllocator \<Rightarrow> 'r \<Rightarrow> Machine \<Rightarrow> ('r \<times> Machine) option" where
  "init_memory lds B st r m = do {
     b \<leftarrow> add_zone (buddy_init (buddy m)) (drop_bit PAGE_BITS (HEAP_START lds)) (drop_bit PAGE_BITS MEM_SIZE);
     (k, p, st) \<leftarrow> kernel_pt_init lds (arch_mapper (b_arch B)) (pts m) st;
     let m = m\<lparr>buddy := b, pts := p, kernel_pt := k\<rparr>;
     root \<leftarrow> kernel_root m;
     r \<leftarrow> b_switch_to B root r;
     Some (r, m)
   }"

text \<open>The part after that: the scheduler, the random generator, the file systems, the devices and the console.\<close>

definition rand_init :: "MT19937 option" where
  "rand_init = MT19937_new SEED"

definition device_init :: "u8 list list" where
  "device_init = []"

definition init_services :: "('c, 'r) BootArch \<Rightarrow> ParseError + DeviceTree \<Rightarrow> 'r \<Rightarrow> Machine \<Rightarrow> ('r \<times> 'c Console) option" where
  "init_services B dtb r m = do {
     (s, m) \<leftarrow> task_init (b_arch B) m;
     r \<leftarrow> b_trap_stack B (trap_stack s) r;
     rng \<leftarrow> rand_init;
     v \<leftarrow> vfs_init;
     let c = \<lparr>c_glob = \<lparr>g_kmsg = KernelMessage_default, g_rng = rng, char_devs = device_init\<rparr>, c_vfs = v, c_sched = s, c_mach = m, c_uarts = []\<rparr>;
     c \<leftarrow> (case dtb of Inr dtb \<Rightarrow> setup_console (b_arch B) dtb c | Inl _ \<Rightarrow> Some c);
     Some (b_enable_irqs B r, c)
   }"

definition kernel_main :: "Linker \<Rightarrow> ('c, 'r) BootArch \<Rightarrow> StaticPageAllocator \<Rightarrow> nat \<Rightarrow> 'r \<Rightarrow> Machine \<Rightarrow> ('r \<times> 'c Console) option" where
  "kernel_main lds B st dtb_addr r m = do {
     m \<leftarrow> clear_bss lds m;
     (r, m) \<leftarrow> b_cpu_init B r m;
     (r, m) \<leftarrow> init_memory lds B st r m;
     (dtb, m) \<leftarrow> load_dtb (arch_mapper (b_arch B)) dtb_addr m;
     (r, m) \<leftarrow> (case dtb of Inr d \<Rightarrow> b_soc_init B d r m | Inl _ \<Rightarrow> Some (r, m));
     init_services B dtb r m
   }"

text \<open>The panic handler writes one message to the log and waits for ever.\<close>

definition panic_handler :: "string option \<Rightarrow> string \<Rightarrow> nat \<Rightarrow> KernelMessage \<Rightarrow> KernelMessage option" where
  "panic_handler location msg now k = add_message k now None Fatal
     (case location of Some l \<Rightarrow> msg @ '' at '' @ l @ [char_of (10 :: nat)] | None \<Rightarrow> msg @ [char_of (10 :: nat)])"

section \<open>Memory at the start\<close>

lemma clear_bss_zeroes:
  assumes "clear_bss lds m = Some m'"
  shows "ram m' a = (if BSS_START lds + STACK_SIZE \<le> a \<and> a < BSS_END lds then 0 else ram m a)"
  using assms by (auto simp: clear_bss_def Let_def bind_eq_Some_conv usize_sub_def write_ram_def split: if_splits)

text \<open>A header that gives the size 0 is a panic, not the error with which the start would go on.\<close>

lemma load_dtb_empty:
  assumes "map (ram m) [a + 4..<a + 8] = [0, 0, 0, 0]"
  shows "load_dtb M a m = None"
proof -
  have "detect_totalsize (read_mem m' a 8) = Some 0" if "ram m' = ram m" for m'
  proof -
    have "[a..<a + 8] = [a..<a + 4] @ [a + 4..<a + 8]" using upt_add_eq_append [of a "a + 4" 4] by (simp add: add.commute)
    then have "read_mem m' a 8 = map (ram m) [a..<a + 4] @ [0, 0, 0, 0]" using assms(1) that by (simp add: read_mem_def)
    then show ?thesis by (simp add: detect_totalsize_def u32_at_def slice_opt_def from_be_bytes_def be_nat_def)
  qed
  moreover have "map_rodata M m root p q n = Some m' \<Longrightarrow> ram m' = ram m" for m' root p q n
    by (auto simp: map_rodata_def page_map_def bind_eq_Some_conv)
  ultimately show ?thesis by (auto simp: load_dtb_def Let_def bind_eq_None_conv div_ceil_def usize_sub_def)
qed

section \<open>What the start leaves\<close>

text \<open>The invariant of the console: the device file system is mounted as at boot, every node in it is a registered device, and
  the random generator is seeded.\<close>

definition console_ok :: "'c Console \<Rightarrow> bool" where
  "console_ok c \<longleftrightarrow> (\<exists>dv. c_vfs c = boot_vfs dv \<and> devfs_ok (length (char_devs (c_glob c))) dv \<and> bt_sorted (devs dv)) \<and>
     (\<exists>sd j. mt_ok sd j (g_rng (c_glob c)))"

definition with_tty :: "nat \<Rightarrow> DevFS \<Rightarrow> DevFS" where
  "with_tty i dv = dv\<lparr>devs := bt_insert ''tty0'' (CHAR_DEV_MAJOR, i) (devs dv)\<rparr>"

definition with_output :: "Globals \<Rightarrow> Globals" where
  "with_output e = e\<lparr>g_kmsg := (g_kmsg e)\<lparr>output_handler := Some []\<rparr>, char_devs := char_devs e @ [[]]\<rparr>"

lemma add_console_boot:
  assumes "c_vfs c = boot_vfs dv"
  shows "add_console u c = Some (c\<lparr>c_glob := with_output (c_glob c), c_vfs := boot_vfs (with_tty (length (char_devs (c_glob c))) dv),
    c_uarts := c_uarts c @ [u]\<rparr>)"
proof -
  have "get_fs_mut (boot_vfs dv) ''/dev'' = Some (0, dv)"
    by (simp add: get_fs_mut_def find_mount_def boot_vfs_def path_starts_with_def)
  moreover have "devfs_mknod dv ''tty0'' CharDev x = Some (Inr (), dv\<lparr>devs := bt_insert ''tty0'' x (devs dv)\<rparr>)" for x
    by (simp add: devfs_mknod_def path_iter_def split_on_none)
  ultimately show ?thesis
    using assms by (simp add: add_console_def register_char_dev_def boot_set_fs with_tty_def with_output_def Let_def)
qed

lemma with_tty_ok:
  assumes "devfs_ok n dv" "bt_sorted (devs dv)"
  shows "devfs_ok (Suc n) (with_tty n dv)" "bt_sorted (devs (with_tty n dv))"
  using assms by (auto simp: devfs_ok_def with_tty_def bt_insert_lookup bt_insert_sorted intro: less_SucI)

lemma add_console_ok:
  assumes "add_console u c = Some c'" "console_ok c"
  shows "console_ok c' \<and> c_sched c' = c_sched c"
proof -
  obtain dv where dv: "c_vfs c = boot_vfs dv" "devfs_ok (length (char_devs (c_glob c))) dv" "bt_sorted (devs dv)"
    using assms(2) unfolding console_ok_def by blast
  show ?thesis using assms add_console_boot [OF dv(1), of u] with_tty_ok [OF dv(2,3)]
    by (auto simp: console_ok_def with_output_def) blast
qed

lemma try_console_ok: "try_console drv name d c = Some c' \<Longrightarrow> console_ok c \<Longrightarrow> console_ok c' \<and> c_sched c' = c_sched c"
  by (auto simp: try_console_def bind_eq_Some_conv add_console_ok split: option.splits if_splits)

lemma setup_by_serial0_node_ok:
  assumes "setup_by_serial0_node A d c = Some c'" "console_ok c"
  shows "console_ok c' \<and> c_sched c' = c_sched c"
proof -
  obtain c1 c2 where c: "try_console PL011 ''arm,pl011'' d c = Some c1" "try_console NS16550 ''ns16550a'' d c1 = Some c2"
    "c' = c2 \<or> (\<exists>m. c' = c2\<lparr>c_mach := m\<rparr>)"
    using assms(1) by (auto simp: setup_by_serial0_node_def bind_eq_Some_conv split: option.splits) blast+
  have "console_ok c2 \<and> c_sched c2 = c_sched c" using try_console_ok [OF c(2)] try_console_ok [OF c(1) assms(2)] by simp
  then show ?thesis using c(3) by (auto simp: console_ok_def) blast+
qed

lemma setup_console_loop_ok:
  "setup_console_loop A root ds c = Some c' \<Longrightarrow> console_ok c \<Longrightarrow> console_ok c' \<and> c_sched c' = c_sched c"
  by (induction A root ds c rule: setup_console_loop.induct)
    (auto simp: bind_eq_Some_conv setup_by_serial0_node_ok split: if_splits option.splits)


definition demo_sysregs :: "arm_sysregs \<times> arm_regs" where
  "demo_sysregs = (\<lparr>tcr_el1 = 0, mair_el1 = 0, vbar_el1 = 0, cntv_ctl = 0, cpacr_el1 = 0, irq_masked = True\<rparr>, regs demo_arm_system)"


text \<open>The new device through the virtual file system.\<close>

lemma tty_prints:
  assumes "devfs_ok i dv" "bt_sorted (devs dv)" "i = length (char_devs e)"
  shows "\<exists>f dv'. vfs_open DevFS_ops (boot_vfs (with_tty i dv)) ''/dev/tty0'' = Some (Inr f, boot_vfs dv') \<and> vf_offset f = 0 \<and> vf_fs_id f = 0 \<and>
    (\<forall>bs. length bs < 2 ^ 64 \<longrightarrow> vfs_write DevFS_ops (with_output e) (boot_vfs dv') f bs =
      Some (Inr (length bs), f\<lparr>vf_offset := length bs\<rparr>, boot_vfs dv', (with_output e)\<lparr>char_devs := char_devs e @ [utf8_lossy bs]\<rparr>))"
proof -
  let ?dv = "with_tty i dv"
  have tty: "map_of (devs ?dv) ''tty0'' = Some (CHAR_DEV_MAJOR, i)" using assms(2) by (simp add: with_tty_def bt_insert_lookup)
  define dv' where "dv' = ?dv\<lparr>fds := bt_insert (length (fds ?dv)) ''tty0'' (fds ?dv)\<rparr>"
  define f where "f = \<lparr>vf_file = \<lparr>file_fd = length (fds ?dv), file_type = CharDev\<rparr>, vf_offset = 0, vf_fs_id = 0\<rparr>"
  have "nth_opt (path_iter ''/tty0'') 1 = Some ''tty0''" by (simp add: path_iter_abs)
  from devfs_open_name [OF this, of ?dv] tty have "vfs_open DevFS_ops (boot_vfs ?dv) ''/dev/tty0'' = Some (Inr f, boot_vfs dv')"
    by (simp add: vfs_open_def find_mount_def boot_vfs_def is_absolute_def path_starts_with_def strip_prefix_def set_fs_def f_def dv'_def)
  moreover have "map_of (fds dv') (length (fds ?dv)) = Some ''tty0''"
    using assms(1) by (simp add: dv'_def with_tty_def bt_insert_lookup devfs_ok_def)
  then have "vfs_write DevFS_ops (with_output e) (boot_vfs dv') f bs =
      Some (Inr (length bs), f\<lparr>vf_offset := length bs\<rparr>, boot_vfs dv', (with_output e)\<lparr>char_devs := char_devs e @ [utf8_lossy bs]\<rparr>)"
    if "length bs < 2 ^ 64" for bs
    using tty that assms(3)
    by (simp add: vfs_write_def boot_vfs_def f_def devfs_write_def dv'_def with_output_def print_str_eq nth_opt_def set_fs_def usize_add_def)
  ultimately show ?thesis by (auto simp: f_def)
qed

text \<open>C39: A node with the registers of exactly one of the two serial ports becomes the console. Its driver at the first address of
  the node is the output of the log and, under \<^verbatim>\<open>/dev/tty0\<close>, a new device: bytes written to that file through the virtual file system are
  put, as text and in their order, on the data register of that driver.\<close>

theorem console_ready:
  assumes "console_ok c" "current_task (c_sched c) = Some t"
    "(driver, name, other) \<in> {(PL011, ''arm,pl011'', ''ns16550a''), (NS16550, ''ns16550a'', ''arm,pl011'')}"
    "get_property d (string_bytes ''compatible'') = Some cs" "check_compatible cs (string_bytes name)" "\<not> check_compatible cs (string_bytes other)"
    "get_property d (string_bytes ''reg'') = Some reg" "parse_reg reg (address_cells d) (size_cells d) = Some ((a, n) # rs)"
    "map_regs (arch_mapper A) (task_page t) ((a, n) # rs) (c_mach c) = Some m" "length bs < 2 ^ 64"
  shows "\<exists>c' f v f' v' e. setup_by_serial0_node A d c = Some c' \<and> console_ok c' \<and> c_mach c' = m \<and> c_uarts c' = c_uarts c @ [driver a] \<and>
    output_handler (g_kmsg (c_glob c')) = Some [] \<and>
    vfs_open DevFS_ops (c_vfs c') ''/dev/tty0'' = Some (Inr f, v) \<and>
    vfs_write DevFS_ops (c_glob c') v f bs = Some (Inr (length bs), f', v', e) \<and>
    char_devs e = char_devs (c_glob c) @ [utf8_lossy bs] \<and>
    print_with (put_char (driver a)) (last (char_devs e)) io = io @ map (Pair a) (utf8_lossy bs)"
proof -
  let ?i = "length (char_devs (c_glob c))"
  obtain dv where dv: "c_vfs c = boot_vfs dv" "devfs_ok ?i dv" "bt_sorted (devs dv)" using assms(1) unfolding console_ok_def by blast
  define c1 where "c1 = c\<lparr>c_glob := with_output (c_glob c), c_vfs := boot_vfs (with_tty ?i dv), c_uarts := c_uarts c @ [driver a]\<rparr>"
  have add: "try_console driver name d c = Some c1" "try_console drv other d c' = Some c'" for drv and c' :: "'a Console"
    using assms add_console_boot [OF dv(1), of "driver a"] by (simp_all add: try_console_def c1_def nth_opt_def)
  have rest: "do {
      rs \<leftarrow> parse_reg reg (address_cells d) (size_cells d);
      t \<leftarrow> current_task (c_sched c1);
      m \<leftarrow> map_regs (arch_mapper A) (task_page t) rs (c_mach c1);
      Some (c1\<lparr>c_mach := m\<rparr>) } = Some (c1\<lparr>c_mach := m\<rparr>)"
    using assms(2,8,9) by (simp add: c1_def)
  have set: "setup_by_serial0_node A d c = Some (c1\<lparr>c_mach := m\<rparr>)"
    using assms(3,7) add rest by (auto simp: setup_by_serial0_node_def)
  then have ok: "console_ok (c1\<lparr>c_mach := m\<rparr>)" using setup_by_serial0_node_ok assms(1) by blast
  obtain f dv' where tty: "vfs_open DevFS_ops (boot_vfs (with_tty ?i dv)) ''/dev/tty0'' = Some (Inr f, boot_vfs dv')"
    "vfs_write DevFS_ops (with_output (c_glob c)) (boot_vfs dv') f bs =
      Some (Inr (length bs), f\<lparr>vf_offset := length bs\<rparr>, boot_vfs dv', (with_output (c_glob c))\<lparr>char_devs := char_devs (c_glob c) @ [utf8_lossy bs]\<rparr>)"
    using tty_prints [OF dv(2,3) refl] assms(10) by blast
  have "print_with (put_char (driver a)) (utf8_lossy bs) io = io @ map (Pair a) (utf8_lossy bs)"
    using assms(3) by (auto simp: uart_prints)
  then show ?thesis using set ok tty by (fastforce simp: c1_def with_output_def)
qed

text \<open>A port at page 5 of a machine whose tables reach that page.\<close>

definition demo_port :: Node where
  "demo_port = Node (string_bytes ''serial0'')
     [\<lparr>prop_name = string_bytes ''compatible'', prop_value = string_bytes ''ns16550a'' @ [0]\<rparr>,
      \<lparr>prop_name = string_bytes ''reg'', prop_value = [0, 0, 0x50, 0, 0, 0, 1, 0]\<rparr>] [] 1 1"

definition demo_console :: "MT19937 \<Rightarrow> riscv_context Console" where
  "demo_console rng = \<lparr>c_glob = \<lparr>g_kmsg = KernelMessage_default, g_rng = rng, char_devs = []\<rparr>, c_vfs = boot_vfs DevFS_default,
     c_sched = \<lparr>tasks = [(0, (demo_sched_task 0 0 None)\<lparr>task_page := demo_root\<rparr>)], vruntime = [(0, 0)], current_pid = 0, max_pid = 0, trap_stack = 0\<rparr>,
     c_mach = (demo_machine 0)\<lparr>pts := demo_mem\<rparr>, c_uarts = []\<rparr>"

lemma demo_console_ok: "mt_ok sd j rng \<Longrightarrow> console_ok (demo_console rng)"
  by (auto simp: console_ok_def demo_console_def devfs_ok_def DevFS_default_def)

lemma demo_port_props:
  "get_property demo_port (string_bytes ''compatible'') = Some (string_bytes ''ns16550a'' @ [0])"
  "get_property demo_port (string_bytes ''reg'') = Some [0, 0, 0x50, 0, 0, 0, 1, 0]"
  "parse_reg [0, 0, 0x50, 0, 0, 0, 1, 0] (address_cells demo_port) (size_cells demo_port) = Some [(0x5000, 0x100)]"
  by (simp_all add: demo_port_def get_property_def string_bytes_def parse_reg_def rust_assert_def slice_opt_def slice_from_def be_nat_def)

lemma demo_port_compatible: "check_compatible (string_bytes ''ns16550a'' @ [0]) x \<longleftrightarrow> x = string_bytes ''ns16550a''"
  using check_compatible_correct [of "[string_bytes ''ns16550a'']" x] by (auto simp: string_bytes_def)

theorem console_ready_witness:
  "\<exists>rng c f v f' v' e. setup_by_serial0_node riscv64_arch demo_port (demo_console rng) = Some c \<and> c_uarts c = [NS16550 0x5000] \<and>
     vfs_open DevFS_ops (c_vfs c) ''/dev/tty0'' = Some (Inr f, v) \<and>
     vfs_write DevFS_ops (c_glob c) v f [104, 105] = Some (Inr 2, f', v', e) \<and> char_devs e = [utf8_lossy [104, 105]]"
proof -
  obtain rng where rng: "MT19937_new SEED = Some rng" "mt_ok SEED 0 rng" using MT19937_new_ok by blast
  let ?c = "demo_console rng" and ?t = "(demo_sched_task 0 0 None)\<lparr>task_page := demo_root\<rparr>"
  obtain p where "map_4k Sv39Mapper buddy_alloc_pages demo_root 5 5 RW demo_mem BuddyAllocator_default = Some (p, BuddyAllocator_default)"
    using demo_map by blast
  then have map: "map_regs (arch_mapper riscv64_arch) (task_page ?t) [(0x5000, 0x100)] (c_mach ?c) = Some ((c_mach ?c)\<lparr>pts := p\<rparr>)"
    by (simp add: map_data_def page_map_def riscv64_arch_def demo_console_def demo_machine_def PAGE_SIZE_def PAGE_BITS_def div_ceil_def usize_add_def)
  have names: "\<not> check_compatible (string_bytes ''ns16550a'' @ [0]) (string_bytes ''arm,pl011'')"
    unfolding demo_port_compatible by (simp add: string_bytes_def)
  have cur: "current_task (c_sched ?c) = Some ?t" by (simp add: demo_console_def current_task_def)
  have "check_compatible (string_bytes ''ns16550a'' @ [0]) (string_bytes ''ns16550a'')" unfolding demo_port_compatible ..
  from console_ready [OF demo_console_ok [OF rng(2)] cur _ demo_port_props(1) this names demo_port_props(2,3) map, of NS16550 "[104, 105]" "[]"]
  obtain c f v f' v' e where c: "setup_by_serial0_node riscv64_arch demo_port ?c = Some c" "c_uarts c = c_uarts ?c @ [NS16550 0x5000]"
    "vfs_open DevFS_ops (c_vfs c) ''/dev/tty0'' = Some (Inr f, v)"
    "vfs_write DevFS_ops (c_glob c) v f [104, 105] = Some (Inr (length [104 :: u8, 105]), f', v', e)"
    "char_devs e = char_devs (c_glob ?c) @ [utf8_lossy [104, 105]]"
    by auto
  moreover have "c_uarts ?c = []" "char_devs (c_glob ?c) = []" "length [104 :: u8, 105] = 2" by (simp_all add: demo_console_def)
  ultimately have "c_uarts c = [NS16550 0x5000]" "char_devs e = [utf8_lossy [104, 105]]"
    "vfs_write DevFS_ops (c_glob c) v f [104, 105] = Some (Inr 2, f', v', e)" by simp_all
  with c(1,3) show ?thesis by blast
qed

end
