(* ===== verification/Mcache.thy ===== *)
theory Mcache
  imports Buddy_Correctness
begin

text \<open>
  The heap of the kernel (\<^verbatim>\<open>src/src/mcache.rs\<close>): objects in cells of caches, caches in the slots of managers, and the page
  allocator for large objects.

  The structures live in the memory they manage, so the state is a store: the words at the starts of cells (the next free
  cell, or the manager of an object), the \<^verbatim>\<open>CachePage\<close> and \<^verbatim>\<open>CacheManager\<close> structures under their addresses, and the page
  allocator. A null pointer is 0; an \<^verbatim>\<open>Option<NonNull>\<close> is an option of an address. The operations of the page allocator are the
  parameters \<open>al\<close> and \<open>fr\<close>; the kernel has the buddy allocator there, and the proofs use the contract
  \<open>block_allocator\<close> that it interprets.
\<close>

definition SLOT_NUM :: nat where "SLOT_NUM = 1024"
definition SIZE_CLASS_COUNT :: nat where "SIZE_CLASS_COUNT = 14"
definition PTR_SIZE :: nat where "PTR_SIZE = 8"

record CachePage =
  page_start :: nat
  page_count :: nat
  cell_size :: nat
  free_count :: nat
  used_count :: nat
  free_list_head :: nat

definition size_of_CachePage :: nat where "size_of_CachePage = 6 * 8"

record CacheManager =
  caches :: "nat option list"
  mgr_next :: "nat option"
  mgr_prev :: "nat option"
  next_partial_free :: "nat option list"
  partial_counts :: "nat list"
  next_free :: "nat option"
  used_slots :: nat

definition size_of_CacheManager :: nat where
  "size_of_CacheManager = SLOT_NUM * 8 + 8 + 8 + SIZE_CLASS_COUNT * 8 + SIZE_CLASS_COUNT * 8 + 8 + 8"

definition CacheManager_default :: CacheManager where
  "CacheManager_default = \<lparr>caches = replicate SLOT_NUM None, mgr_next = None, mgr_prev = None,
     next_partial_free = replicate SIZE_CLASS_COUNT None, partial_counts = replicate SIZE_CLASS_COUNT 0, next_free = None, used_slots = 0\<rparr>"

record 's Heap =
  words :: "nat \<Rightarrow> nat"
  cpages :: "nat \<Rightarrow> CachePage"
  managers :: "nat \<Rightarrow> CacheManager"
  page_alloc :: 's

type_synonym 's al_op = "'s \<Rightarrow> nat \<Rightarrow> ((AllocError + nat) \<times> 's) option"
type_synonym 's fr_op = "'s \<Rightarrow> nat \<Rightarrow> nat \<Rightarrow> 's option"

section \<open>Sizes\<close>

definition CACHE_SIZE :: "(nat \<times> nat) list" where
  "CACHE_SIZE = [(64, 1024), (128, 512), (256, 256), (512, 128), (1024, 64), (2 * 1024, 32), (4 * 1024, 16), (8 * 1024, 8),
     (16 * 1024, 8), (32 * 1024, 8), (64 * 1024, 8), (128 * 1024, 8), (256 * 1024, 4), (512 * 1024, 2)]"

fun position :: "('a \<Rightarrow> bool) \<Rightarrow> 'a list \<Rightarrow> nat option" where
  "position P [] = None"
| "position P (x # xs) = (if P x then Some 0 else map_option Suc (position P xs))"

definition size_to_class :: "nat \<Rightarrow> ((nat \<times> nat) \<times> nat) option" where
  "size_to_class sz = map_option (\<lambda>idx. (CACHE_SIZE ! idx, idx)) (position (\<lambda>(objsize, _). sz \<le> objsize) CACHE_SIZE)"

definition calc_header_padding :: "nat \<Rightarrow> nat" where
  "calc_header_padding align = (align - PTR_SIZE mod align) mod align"

section \<open>Caches\<close>

definition object_ptr :: "nat \<Rightarrow> nat \<Rightarrow> nat" where
  "object_ptr ptr padding = ptr + (padding + PTR_SIZE)"

definition write_word :: "nat \<Rightarrow> nat \<Rightarrow> 's Heap \<Rightarrow> 's Heap" where
  \<comment> \<open>\<open>write_head\<close> and \<open>write_next\<close>\<close>
  "write_word ptr v h = h\<lparr>words := (words h)(ptr := v)\<rparr>"

definition set_cache :: "nat \<Rightarrow> CachePage \<Rightarrow> 's Heap \<Rightarrow> 's Heap" where
  "set_cache a c h = h\<lparr>cpages := (cpages h)(a := c)\<rparr>"

definition set_mgr :: "nat \<Rightarrow> CacheManager \<Rightarrow> 's Heap \<Rightarrow> 's Heap" where
  "set_mgr a mgr h = h\<lparr>managers := (managers h)(a := mgr)\<rparr>"

definition init_cells :: "CachePage \<Rightarrow> nat \<Rightarrow> 's Heap \<Rightarrow> 's Heap option" where
  "init_cells c offset h = do {
     n \<leftarrow> usize_sub (free_count c) 1;
     let h = fold (\<lambda>i. write_word (page_start c + (offset + i) * cell_size c) (page_start c + (offset + i + 1) * cell_size c)) [0..<n] h;
     Some (write_word (page_start c + (page_count c * PAGE_SIZE - cell_size c)) 0 h)
   }"

definition CachePage_allocate :: "'s al_op \<Rightarrow> nat \<Rightarrow> nat \<Rightarrow> 's Heap \<Rightarrow> (nat \<times> 's Heap) option" where
  "CachePage_allocate al sz cell_count h = do {
     bytes \<leftarrow> usize_mul cell_count sz;
     count \<leftarrow> ceil_to_power_2 (bytes div PAGE_SIZE);
     let offset = div_ceil size_of_CachePage sz;
     (r, s) \<leftarrow> al (page_alloc h) count;
     page \<leftarrow> (case r of Inl _ \<Rightarrow> None | Inr page \<Rightarrow> Some page);
     cache_addr \<leftarrow> usize_mul PAGE_SIZE page;
     total \<leftarrow> usize_mul count PAGE_SIZE;
     n \<leftarrow> usize_sub (total div sz) offset;
     let c = \<lparr>page_start = cache_addr, page_count = count, cell_size = sz, free_count = n, used_count = 0,
       free_list_head = cache_addr + offset * sz\<rparr>;
     h \<leftarrow> init_cells c offset (h\<lparr>page_alloc := s\<rparr>);
     Some (cache_addr, set_cache cache_addr c h)
   }"

definition alloc_obj :: "nat \<Rightarrow> 's Heap \<Rightarrow> (nat option \<times> 's Heap) option" where
  "alloc_obj a h = (let c = cpages h a in
     if free_count c = 0 then Some (None, h)
     else do {
       used \<leftarrow> usize_add (used_count c) 1;
       let next_ptr = words h (free_list_head c);
       Some (Some (free_list_head c), set_cache a (c\<lparr>free_count := free_count c - 1, used_count := used, free_list_head := next_ptr\<rparr>) h)
     })"

definition free_obj :: "nat \<Rightarrow> nat \<Rightarrow> 's Heap \<Rightarrow> 's Heap option" where
  "free_obj a ptr h = (let c = cpages h a in do {
     used \<leftarrow> usize_sub (used_count c) 1;
     unused \<leftarrow> usize_add (free_count c) 1;
     Some (set_cache a (c\<lparr>used_count := used, free_count := unused, free_list_head := ptr\<rparr>) (write_word ptr (free_list_head c) h))
   })"

definition in_range :: "CachePage \<Rightarrow> nat \<Rightarrow> bool" where
  "in_range c ptr \<longleftrightarrow> page_start c \<le> ptr \<and> ptr < page_start c + page_count c * PAGE_SIZE"

definition cache_deallocate :: "'s fr_op \<Rightarrow> nat \<Rightarrow> 's Heap \<Rightarrow> 's Heap option" where
  "cache_deallocate fr a h = (let c = cpages h a in do {
     s \<leftarrow> fr (page_alloc h) (drop_bit PAGE_BITS (page_start c)) (page_count c);
     Some (h\<lparr>page_alloc := s\<rparr>)
   })"

section \<open>Managers\<close>

definition nonnull :: "nat \<Rightarrow> nat option" where
  "nonnull p = (if p = 0 then None else Some p)"

partial_function (option) first_mgr :: "'s Heap \<Rightarrow> nat \<Rightarrow> nat option" where
  "first_mgr h a = (case mgr_prev (managers h a) of None \<Rightarrow> Some a | Some p \<Rightarrow> first_mgr h p)"

definition is_slots_full :: "CacheManager \<Rightarrow> bool" where
  "is_slots_full mgr \<longleftrightarrow> used_slots mgr = SLOT_NUM"

definition is_global_allocator :: "CacheManager \<Rightarrow> bool" where
  "is_global_allocator mgr \<longleftrightarrow> mgr_prev mgr = None"

definition add_cache :: "nat \<Rightarrow> nat \<Rightarrow> 's Heap \<Rightarrow> 's Heap option" where
  "add_cache this cache_ptr h = (let mgr = managers h this in
     case position (\<lambda>c. c = None) (caches mgr) of
       None \<Rightarrow> Some h
     | Some i \<Rightarrow> do {
         n \<leftarrow> usize_add (used_slots mgr) 1;
         Some (set_mgr this (mgr\<lparr>caches := (caches mgr)[i := nonnull cache_ptr], used_slots := n\<rparr>) h)
       })"

text \<open>The loop of \<^verbatim>\<open>cache_alloc\<close> over the caches: the first one of the size that has a free cell.\<close>

fun find_cell :: "nat \<Rightarrow> nat list \<Rightarrow> 's Heap \<Rightarrow> ((nat \<times> nat) option \<times> 's Heap) option" where
  "find_cell sz [] h = Some (None, h)"
| "find_cell sz (c # cs) h =
     (if cell_size (cpages h c) = sz then do {
        (r, h) \<leftarrow> alloc_obj c h;
        (case r of Some ptr \<Rightarrow> Some (Some (c, ptr), h) | None \<Rightarrow> find_cell sz cs h)
      }
      else find_cell sz cs h)"

definition cache_alloc :: "nat \<Rightarrow> nat \<Rightarrow> nat \<Rightarrow> nat \<Rightarrow> 's Heap \<Rightarrow> (nat option \<times> 's Heap) option" where
  "cache_alloc this sz idx padding h = do {
     n \<leftarrow> nth_opt (partial_counts (managers h this)) idx;
     if n = 0 then Some (None, h)
     else do {
       (r, h) \<leftarrow> find_cell sz (List.map_filter id (caches (managers h this))) h;
       (case r of
          None \<Rightarrow> Some (None, h)
        | Some (c, ptr) \<Rightarrow> do {
            h \<leftarrow> (if free_count (cpages h c) = 0 then do {
                   n \<leftarrow> usize_sub n 1;
                   let mgr = managers h this;
                   let mgr = mgr\<lparr>partial_counts := (partial_counts mgr)[idx := n]\<rparr>;
                   let h = set_mgr this mgr h;
                   if n = 0 then do {
                     f \<leftarrow> first_mgr h this;
                     nx \<leftarrow> nth_opt (next_partial_free mgr) idx;
                     let first = managers h f;
                     Some (set_mgr f (first\<lparr>next_partial_free := (next_partial_free first)[idx := nx]\<rparr>) h)
                   }
                   else Some h
                 }
                 else Some h);
            Some (Some (object_ptr ptr padding), write_word ptr this h)
          })
     }
   }"

text \<open>\<^verbatim>\<open>new_cache_alloc\<close> after \<^verbatim>\<open>try_init_next\<close>.\<close>

definition new_cache :: "'s al_op \<Rightarrow> nat \<Rightarrow> nat \<Rightarrow> nat \<Rightarrow> nat \<Rightarrow> nat \<Rightarrow> 's Heap \<Rightarrow> (nat \<times> 's Heap) option" where
  "new_cache al this sz cell_count idx padding h = do {
     (cache_addr, h) \<leftarrow> CachePage_allocate al sz cell_count h;
     (r, h) \<leftarrow> alloc_obj cache_addr h;
     ptr \<leftarrow> r;
     let mgr = managers h this;
     n \<leftarrow> nth_opt (partial_counts mgr) idx;
     h \<leftarrow> (if \<not> is_global_allocator mgr \<and> n = 0 then do {
             f \<leftarrow> first_mgr h this;
             nx \<leftarrow> nth_opt (next_partial_free (managers h f)) idx;
             let h = set_mgr this (mgr\<lparr>next_partial_free := (next_partial_free mgr)[idx := nx]\<rparr>) h;
             let first = managers h f;
             Some (set_mgr f (first\<lparr>next_partial_free := (next_partial_free first)[idx := nonnull this]\<rparr>) h)
           }
           else Some h);
     h \<leftarrow> add_cache this cache_addr h;
     let mgr = managers h this;
     n \<leftarrow> nth_opt (partial_counts mgr) idx;
     n \<leftarrow> usize_add n 1;
     let h = set_mgr this (mgr\<lparr>partial_counts := (partial_counts mgr)[idx := n]\<rparr>) h;
     h \<leftarrow> (if is_slots_full (managers h this) then do {
             f \<leftarrow> first_mgr h this;
             Some (set_mgr f ((managers h f)\<lparr>next_free := next_free (managers h this)\<rparr>) h)
           }
           else Some h);
     Some (object_ptr ptr padding, write_word ptr this h)
   }"

text \<open>The part of \<^verbatim>\<open>alloc\<close> for objects in caches; \<open>nca\<close> is \<^verbatim>\<open>new_cache_alloc\<close>, which \<^verbatim>\<open>alloc\<close> and \<^verbatim>\<open>try_init_next\<close> call.\<close>

definition alloc_class ::
  "(nat \<Rightarrow> nat \<Rightarrow> nat \<Rightarrow> nat \<Rightarrow> nat \<Rightarrow> 's Heap \<Rightarrow> (nat \<times> 's Heap) option) \<Rightarrow>
   nat \<Rightarrow> nat \<Rightarrow> nat \<Rightarrow> nat \<Rightarrow> nat \<Rightarrow> 's Heap \<Rightarrow> (nat \<times> 's Heap) option" where
  "alloc_class nca this sz cell_count idx padding h = do {
     (r, h) \<leftarrow> cache_alloc this sz idx padding h;
     (case r of
        Some ptr \<Rightarrow> Some (ptr, h)
      | None \<Rightarrow>
          (if \<not> is_slots_full (managers h this) then nca this sz cell_count idx padding h
           else do {
             pf \<leftarrow> nth_opt (next_partial_free (managers h this)) idx;
             (case pf of
                Some m \<Rightarrow> do { (r, h) \<leftarrow> cache_alloc m sz idx padding h; ptr \<leftarrow> r; Some (ptr, h) }
              | None \<Rightarrow> do { m \<leftarrow> next_free (managers h this); nca m sz cell_count idx padding h })
           }))
   }"

lemma alloc_class_mono [partial_function_mono]:
  assumes "\<And>this sz cell_count idx padding h. mono_option (\<lambda>f. nca f this sz cell_count idx padding h)"
  shows "mono_option (\<lambda>f. alloc_class (nca f) this sz cell_count idx padding h)"
proof -
  have nxt: "mono_option (\<lambda>f. case pf of Some m \<Rightarrow> P m | None \<Rightarrow> do { m \<leftarrow> q; nca f m sz cell_count idx padding h })" for pf P q h
    by (cases pf) (auto intro!: partial_function_mono assms)
  show ?thesis unfolding alloc_class_def
  proof (intro partial_function_mono)
    fix y :: "nat option \<times> 'a Heap"
    obtain r k where y: "y = (r, k)" by (cases y)
    show "mono_option (\<lambda>f. case y of (r, h) \<Rightarrow> (case r of
        Some ptr \<Rightarrow> Some (ptr, h)
      | None \<Rightarrow>
          (if \<not> is_slots_full (managers h this) then nca f this sz cell_count idx padding h
           else do {
             pf \<leftarrow> nth_opt (next_partial_free (managers h this)) idx;
             (case pf of
                Some m \<Rightarrow> do { (r, h) \<leftarrow> cache_alloc m sz idx padding h; ptr \<leftarrow> r; Some (ptr, h) }
              | None \<Rightarrow> do { m \<leftarrow> next_free (managers h this); nca f m sz cell_count idx padding h })
           })))" unfolding y prod.case
      by (cases r) (auto intro!: partial_function_mono nxt assms)
  qed
qed

text \<open>The next manager is an object of the heap itself; its size is that of a class of cells.\<close>

definition manager_class :: "((nat \<times> nat) \<times> nat) option" where
  "manager_class = size_to_class (size_of_CacheManager + calc_header_padding 8 + PTR_SIZE)"

definition try_init_next ::
  "(nat \<Rightarrow> nat \<Rightarrow> nat \<Rightarrow> nat \<Rightarrow> nat \<Rightarrow> 's Heap \<Rightarrow> (nat \<times> 's Heap) option) \<Rightarrow> nat \<Rightarrow> 's Heap \<Rightarrow> 's Heap option" where
  "try_init_next nca this h =
     (if mgr_next (managers h this) = None then do {
        let h = set_mgr this ((managers h this)\<lparr>mgr_next := Some 8\<rparr>) h;
        ((msize, mcount), midx) \<leftarrow> manager_class;
        (nx, h) \<leftarrow> alloc_class nca this msize mcount midx (calc_header_padding 8) h;
        let h = set_mgr this ((managers h this)\<lparr>mgr_next := nonnull nx\<rparr>) h;
        f \<leftarrow> first_mgr h this;
        let h = set_mgr nx (CacheManager_default\<lparr>mgr_prev := nonnull this, next_free := next_free (managers h f)\<rparr>) h;
        f \<leftarrow> first_mgr h this;
        Some (set_mgr f ((managers h f)\<lparr>next_free := nonnull nx\<rparr>) h)
      }
      else Some h)"

lemma try_init_next_mono [partial_function_mono]:
  assumes "\<And>this sz cell_count idx padding h. mono_option (\<lambda>f. nca f this sz cell_count idx padding h)"
  shows "mono_option (\<lambda>f. try_init_next (nca f) this h)"
  unfolding try_init_next_def Let_def case_prod_beta by (cases "mgr_next (managers h this) = None") (auto intro!: partial_function_mono assms)

partial_function (option) new_cache_alloc ::
  "'s al_op \<Rightarrow> nat \<Rightarrow> nat \<Rightarrow> nat \<Rightarrow> nat \<Rightarrow> nat \<Rightarrow> 's Heap \<Rightarrow> (nat \<times> 's Heap) option" where
  "new_cache_alloc al this sz cell_count idx padding h = do {
     h \<leftarrow> try_init_next (new_cache_alloc al) this h;
     new_cache al this sz cell_count idx padding h
   }"

record Layout =
  layout_size :: nat
  layout_align :: nat

definition mgr_alloc :: "'s al_op \<Rightarrow> nat \<Rightarrow> Layout \<Rightarrow> 's Heap \<Rightarrow> (nat \<times> 's Heap) option" where
  "mgr_alloc al this layout h = do {
     let padding = calc_header_padding (layout_align layout);
     alloc_size \<leftarrow> usize_add (layout_size layout) padding;
     alloc_size \<leftarrow> usize_add alloc_size PTR_SIZE;
     (case size_to_class alloc_size of
        Some ((sz, cell_count), idx) \<Rightarrow> alloc_class (new_cache_alloc al) this sz cell_count idx padding h
      | None \<Rightarrow> do {
          (r, s) \<leftarrow> al (page_alloc h) (div_ceil (layout_size layout) PAGE_SIZE);
          page \<leftarrow> (case r of Inl _ \<Rightarrow> None | Inr page \<Rightarrow> Some page);
          ptr \<leftarrow> usize_mul PAGE_SIZE page;
          Some (ptr, h\<lparr>page_alloc := s\<rparr>)
        })
   }"

text \<open>The search in the list of managers with free slots for the one before \<open>mgr\<close>.\<close>

partial_function (option) find_prev_free :: "'s Heap \<Rightarrow> nat \<Rightarrow> nat \<Rightarrow> nat option" where
  "find_prev_free h mgr prev_free =
     (case next_free (managers h prev_free) of
        Some nx \<Rightarrow> (if nx \<noteq> mgr then find_prev_free h mgr nx else Some prev_free)
      | None \<Rightarrow> Some prev_free)"

text \<open>The steps of \<^verbatim>\<open>dealloc\<close> for a cache that was full, and for one that has become empty.\<close>

definition mark_partial :: "nat \<Rightarrow> nat \<Rightarrow> bool \<Rightarrow> nat \<Rightarrow> nat \<Rightarrow> 's Heap \<Rightarrow> 's Heap option" where
  "mark_partial first mgr_ptr is_global idx c h =
     (if free_count (cpages h c) = 0 then do {
        n \<leftarrow> nth_opt (partial_counts (managers h mgr_ptr)) idx;
        h \<leftarrow> (if \<not> is_global \<and> n = 0 then do {
               nx \<leftarrow> nth_opt (next_partial_free (managers h first)) idx;
               let mgr = managers h mgr_ptr;
               let h = set_mgr mgr_ptr (mgr\<lparr>next_partial_free := (next_partial_free mgr)[idx := nx]\<rparr>) h;
               let f = managers h first;
               Some (set_mgr first (f\<lparr>next_partial_free := (next_partial_free f)[idx := nonnull mgr_ptr]\<rparr>) h)
             }
             else Some h);
        n \<leftarrow> usize_add n 1;
        let mgr = managers h mgr_ptr;
        Some (set_mgr mgr_ptr (mgr\<lparr>partial_counts := (partial_counts mgr)[idx := n]\<rparr>) h)
      }
      else Some h)"

definition release_cache :: "'s fr_op \<Rightarrow> nat \<Rightarrow> nat \<Rightarrow> bool \<Rightarrow> nat \<Rightarrow> nat \<Rightarrow> nat \<Rightarrow> 's Heap \<Rightarrow> 's Heap option" where
  "release_cache fr first mgr_ptr is_global idx i c h = do {
     h \<leftarrow> cache_deallocate fr c h;
     let mgr = managers h mgr_ptr;
     let h = set_mgr mgr_ptr (mgr\<lparr>caches := (caches mgr)[i := None]\<rparr>) h;
     let h = (if \<not> is_global \<and> is_slots_full (managers h mgr_ptr) then
         let h = set_mgr mgr_ptr ((managers h mgr_ptr)\<lparr>next_free := next_free (managers h first)\<rparr>) h
         in set_mgr first ((managers h first)\<lparr>next_free := nonnull mgr_ptr\<rparr>) h
       else h);
     let mgr = managers h mgr_ptr;
     slots \<leftarrow> usize_sub (used_slots mgr) 1;
     n \<leftarrow> nth_opt (partial_counts mgr) idx;
     n \<leftarrow> usize_sub n 1;
     Some (set_mgr mgr_ptr (mgr\<lparr>used_slots := slots, partial_counts := (partial_counts mgr)[idx := n]\<rparr>) h)
   }"

text \<open>\<^verbatim>\<open>dealloc\<close>; the slot is the first whose cache has the object. \<open>self\<close> is only where the search for the first manager starts.\<close>

partial_function (option) mgr_dealloc :: "'s fr_op \<Rightarrow> nat \<Rightarrow> nat \<Rightarrow> Layout \<Rightarrow> 's Heap \<Rightarrow> 's Heap option" where
  "mgr_dealloc fr this ptr layout h = do {
     let padding = calc_header_padding (layout_align layout);
     alloc_size \<leftarrow> usize_add (layout_size layout) padding;
     alloc_size \<leftarrow> usize_add alloc_size PTR_SIZE;
     first \<leftarrow> first_mgr h this;
     (case size_to_class alloc_size of
        Some (_, idx) \<Rightarrow> do {
          let cell_ptr = ptr - (padding + PTR_SIZE);
          let mgr_ptr = words h cell_ptr;
          let is_global = is_global_allocator (managers h mgr_ptr);
          (case position (\<lambda>c. case c of Some a \<Rightarrow> in_range (cpages h a) ptr | None \<Rightarrow> False) (caches (managers h mgr_ptr)) of
             None \<Rightarrow> Some h
           | Some i \<Rightarrow> do {
               c \<leftarrow> caches (managers h mgr_ptr) ! i;
               h \<leftarrow> mark_partial first mgr_ptr is_global idx c h;
               h \<leftarrow> free_obj c cell_ptr h;
               if used_count (cpages h c) = 0 then do {
                 h \<leftarrow> release_cache fr first mgr_ptr is_global idx i c h;
                 (case mgr_prev (managers h mgr_ptr) of
                    Some prev \<Rightarrow>
                      (if used_slots (managers h mgr_ptr) = 0 then do {
                         let h = set_mgr prev ((managers h prev)\<lparr>mgr_next := mgr_next (managers h mgr_ptr)\<rparr>) h;
                         head \<leftarrow> next_free (managers h first);
                         prev_free \<leftarrow> find_prev_free h mgr_ptr head;
                         let h = set_mgr prev_free ((managers h prev_free)\<lparr>next_free := next_free (managers h mgr_ptr)\<rparr>) h;
                         mgr_dealloc fr this mgr_ptr \<lparr>layout_size = size_of_CacheManager, layout_align = 8\<rparr> h
                       }
                       else Some h)
                  | None \<Rightarrow> Some h)
               }
               else Some h
             })
        }
      | None \<Rightarrow> do {
          s \<leftarrow> fr (page_alloc h) (drop_bit PAGE_BITS ptr) (div_ceil (layout_size layout) PAGE_SIZE);
          Some (h\<lparr>page_alloc := s\<rparr>)
        })
   }"

section \<open>Size classes\<close>

lemma position_SomeD: "position P xs = Some i \<Longrightarrow> i < length xs \<and> P (xs ! i) \<and> (\<forall>j < i. \<not> P (xs ! j))"
proof (induction xs arbitrary: i)
  case (Cons x xs)
  show ?case
  proof (cases "P x")
    case False
    then obtain k where "i = Suc k" "position P xs = Some k" using Cons.prems by auto
    then show ?thesis using Cons.IH [of k] False by (auto simp: less_Suc_eq_0_disj)
  qed (use Cons.prems in auto)
qed simp

lemma position_None: "position P xs = None \<longleftrightarrow> (\<forall>x \<in> set xs. \<not> P x)"
  by (induction xs) auto

text \<open>Every class has whole pages, as many as a power of two, room for two cells at least, and cells of a power of two that hold
  more than the header of a cache.\<close>

lemma class_facts:
  assumes "(sz, n) \<in> set CACHE_SIZE"
  shows "\<exists>j. sz = 2 ^ (j + 6)" "\<exists>k. n * sz = 2 ^ k * PAGE_SIZE \<and> k < 9" "2 \<le> n" "64 \<le> sz" "n * sz \<le> 2 ^ 20" "n \<le> 1024"
proof -
  have P: "PAGE_SIZE = 2 ^ 12" by (simp add: PAGE_SIZE_def PAGE_BITS_def)
  have "(\<exists>j \<in> {0..<14}. sz = 2 ^ (j + 6)) \<and> (\<exists>k \<in> {0..<9}. n * sz = 2 ^ k * 4096) \<and> 2 \<le> n \<and> 64 \<le> sz \<and> n * sz \<le> 2 ^ 20 \<and> n \<le> 1024"
    using assms unfolding CACHE_SIZE_def by (auto simp: atLeastLessThan_nat_numeral)
  then show "\<exists>j. sz = 2 ^ (j + 6)" "\<exists>k. n * sz = 2 ^ k * PAGE_SIZE \<and> k < 9" "2 \<le> n" "64 \<le> sz" "n * sz \<le> 2 ^ 20" "n \<le> 1024"
    unfolding P by auto
qed

lemma CACHE_SIZE_length: "length CACHE_SIZE = SIZE_CLASS_COUNT"
  by (simp add: CACHE_SIZE_def SIZE_CLASS_COUNT_def)

lemma CACHE_SIZE_sizes: "distinct (map fst CACHE_SIZE)"
  by (simp add: CACHE_SIZE_def)

lemma class_pages:
  assumes "(sz, n) \<in> set CACHE_SIZE"
  obtains k where "n * sz = 2 ^ k * PAGE_SIZE" "usize_mul n sz = Some (n * sz)" "ceil_to_power_2 (n * sz div PAGE_SIZE) = Some (2 ^ k)"
    "next_power_of_two (2 ^ k) = Some (2 ^ k)" "usize_mul (2 ^ k) PAGE_SIZE = Some (n * sz)" "k < 9"
proof -
  obtain k where k: "n * sz = 2 ^ k * PAGE_SIZE" "k < 9" using class_facts(2) [OF assms] by blast
  have small: "n * sz < 2 ^ 64" using class_facts(5) [OF assms] by (rule le_less_trans) simp
  have div: "n * sz div PAGE_SIZE = 2 ^ k" unfolding k(1) by (simp add: PAGE_SIZE_def)
  have pow: "next_power_of_two (2 ^ k) = Some (2 ^ k)" using k(2) by simp
  have "usize_mul n sz = Some (n * sz)" using small by (simp add: usize_mul_def)
  moreover have "usize_mul (2 ^ k) PAGE_SIZE = Some (n * sz)" using small by (simp only: usize_mul_def k(1) if_True)
  moreover have "ceil_to_power_2 (n * sz div PAGE_SIZE) = Some (2 ^ k)" unfolding div ceil_to_power_2_def by (rule pow)
  ultimately show ?thesis using that k pow by blast
qed

section \<open>One cache\<close>

fun free_chain :: "(nat \<Rightarrow> nat) \<Rightarrow> nat \<Rightarrow> nat list \<Rightarrow> bool" where
  "free_chain w p [] \<longleftrightarrow> p = 0"
| "free_chain w p (x # xs) \<longleftrightarrow> p = x \<and> x \<noteq> 0 \<and> free_chain w (w x) xs"

definition cell_at :: "CachePage \<Rightarrow> nat \<Rightarrow> nat" where
  "cell_at c i = page_start c + i * cell_size c"

definition cells :: "CachePage \<Rightarrow> nat \<Rightarrow> nat set" where
  "cells c n = cell_at c ` {1..<n}"

text \<open>A cache of \<open>n\<close> cells, the first one under its own structure, with the free cells \<open>fl\<close> in a chain.\<close>

definition cache_ok :: "(nat \<Rightarrow> nat) \<Rightarrow> nat \<Rightarrow> CachePage \<Rightarrow> nat list \<Rightarrow> bool" where
  "cache_ok w a c fl \<longleftrightarrow> page_start c = a \<and> PAGE_SIZE dvd a \<and> a \<noteq> 0 \<and>
     (\<exists>n. (cell_size c, n) \<in> set CACHE_SIZE \<and> page_count c * PAGE_SIZE = n * cell_size c \<and> set fl \<subseteq> cells c n \<and>
       used_count c + free_count c = n - 1) \<and>
     free_chain w (free_list_head c) fl \<and> distinct fl \<and> free_count c = length fl"

lemma free_chain_frame: "free_chain w p fl \<Longrightarrow> (\<And>x. x \<in> set fl \<Longrightarrow> w' x = w x) \<Longrightarrow> free_chain w' p fl"
  by (induction fl arbitrary: p) auto

lemma cache_ok_frame: "cache_ok w a c fl \<Longrightarrow> (\<And>x. x \<in> set fl \<Longrightarrow> w' x = w x) \<Longrightarrow> cache_ok w' a c fl"
  using free_chain_frame [of w "free_list_head c" fl w'] unfolding cache_ok_def by blast

text \<open>The class of a cell size has one number of cells.\<close>

lemma class_count: "(sz, n) \<in> set CACHE_SIZE \<Longrightarrow> (sz, n') \<in> set CACHE_SIZE \<Longrightarrow> n = n'"
  using CACHE_SIZE_sizes by (meson eq_key_imp_eq_value)

lemma write_words:
  "words (fold (\<lambda>i. write_word (f i) (f i + s)) [0..<n] h) = (\<lambda>p. if \<exists>i < n. p = f i then p + s else words h p)"
proof (induction n)
  case (Suc n)
  have "(\<exists>i < Suc n. p = f i) \<longleftrightarrow> p = f n \<or> (\<exists>i < n. p = f i)" for p by (auto simp: less_Suc_eq)
  then show ?case using Suc by (auto simp: write_word_def fun_eq_iff)
qed simp

lemma write_words_rest:
  "cpages (fold (\<lambda>i. write_word (f i) (g i)) xs h) = cpages h" "managers (fold (\<lambda>i. write_word (f i) (g i)) xs h) = managers h"
  "page_alloc (fold (\<lambda>i. write_word (f i) (g i)) xs h) = page_alloc h"
  by (induction xs arbitrary: h) (simp_all add: write_word_def)

lemma free_chain_upt:
  assumes "\<And>i. m \<le> i \<Longrightarrow> i < n \<Longrightarrow> w (b + i * s) = (if Suc i < n then b + Suc i * s else 0)" "m < n" "b \<noteq> 0"
  shows "free_chain w (b + m * s) (map (\<lambda>i. b + i * s) [m..<n])"
  using assms
proof (induction "n - m" arbitrary: m)
  case (Suc d)
  have cons: "[m..<n] = m # [Suc m..<n]" using Suc.prems(2) by (rule upt_conv_Cons)
  have w: "w (b + m * s) = (if Suc m < n then b + Suc m * s else 0)" using Suc.prems(1,2) by simp
  show ?case
  proof (cases "Suc m < n")
    case True
    then show ?thesis using Suc.hyps(1) [of "Suc m"] Suc.hyps(2) Suc.prems unfolding cons by (simp add: w)
  next
    case False
    then show ?thesis using Suc.prems unfolding cons by (simp add: w)
  qed
qed simp

lemma cells_card:
  assumes "0 < cell_size c"
  shows "card (cells c n) = n - 1" "finite (cells c n)" "inj (cell_at c)"
proof -
  show inj: "inj (cell_at c)" using assms by (auto simp: inj_on_def cell_at_def)
  show "card (cells c n) = n - 1" "finite (cells c n)" unfolding cells_def by (simp_all add: card_image inj_on_subset [OF inj])
qed

text \<open>The words that \<^verbatim>\<open>init\<close> writes: every cell points to the one behind it, the last one nowhere.\<close>

lemma init_words:
  assumes "w = (\<lambda>p. if p = a + Suc m * sz then 0 else if \<exists>i < m. p = a + (1 + i) * sz then p + sz else w0 p)" "0 < sz" "(a :: nat) \<noteq> 0"
  shows "free_chain w (a + 1 * sz) (map (\<lambda>i. a + i * sz) [1..<Suc (Suc m)])" "p \<notin> (\<lambda>i. a + i * sz) ` {1..<Suc (Suc m)} \<Longrightarrow> w p = w0 p"
proof -
  have "w (a + i * sz) = (if Suc i < Suc (Suc m) then a + Suc i * sz else 0)" if i: "1 \<le> i" "i < Suc (Suc m)" for i
  proof (cases "i = Suc m")
    case False
    then obtain j where j: "i = Suc j" "j < m" using i by (cases i) auto
    then have "a + i * sz \<noteq> a + Suc m * sz" using assms(2) by (simp del: mult_Suc)
    moreover have "\<exists>l < m. a + i * sz = a + (1 + l) * sz" using j by (intro exI [of _ j]) simp
    ultimately have "w (a + i * sz) = a + i * sz + sz" unfolding assms(1) by (simp only: if_True if_False)
    then show ?thesis using j by simp
  qed (simp add: assms(1))
  then show "free_chain w (a + 1 * sz) (map (\<lambda>i. a + i * sz) [1..<Suc (Suc m)])" using assms(3) by (intro free_chain_upt) auto
  assume p: "p \<notin> (\<lambda>i. a + i * sz) ` {1..<Suc (Suc m)}"
  have "a + Suc i * sz \<in> (\<lambda>i. a + i * sz) ` {1..<Suc (Suc m)}" if "i \<le> m" for i using that by (intro imageI) simp
  then have "p \<noteq> a + Suc i * sz" if "i \<le> m" for i using that p by blast
  then have "p \<noteq> a + Suc m * sz" "\<not> (\<exists>i < m. p = a + (1 + i) * sz)" by (auto simp del: mult_Suc)
  then show "w p = w0 p" unfolding assms(1) by (simp only: if_False)
qed

text \<open>A new cache: all its cells are free, and no other word of memory has changed.\<close>

lemma CachePage_allocate_ok:
  assumes "(sz, n) \<in> set CACHE_SIZE" "n * sz = 2 ^ k * PAGE_SIZE" "al (page_alloc h) (2 ^ k) = Some (Inr page, s)" "0 < page" "page < 2 ^ 52"
  obtains h' c fl where "CachePage_allocate al sz n h = Some (PAGE_SIZE * page, h')"
    "cpages h' = (cpages h)(PAGE_SIZE * page := c)" "managers h' = managers h" "page_alloc h' = s" "cache_ok (words h') (PAGE_SIZE * page) c fl"
    "cell_size c = sz" "page_count c = 2 ^ k" "set fl = cells c n" "\<And>p. p \<notin> cells c n \<Longrightarrow> words h' p = words h p"
proof -
  define a where "a = PAGE_SIZE * page"
  note cf = class_facts [OF assms(1)]
  obtain k' where k': "n * sz = 2 ^ k' * PAGE_SIZE" "usize_mul n sz = Some (n * sz)" "ceil_to_power_2 (n * sz div PAGE_SIZE) = Some (2 ^ k')"
    "usize_mul (2 ^ k') PAGE_SIZE = Some (n * sz)" using class_pages [OF assms(1)] by blast
  have P: "0 < PAGE_SIZE" by (simp add: PAGE_SIZE_def)
  then have "(2 :: nat) ^ k' = 2 ^ k" using k'(1) assms(2) by auto
  then have k: "ceil_to_power_2 (n * sz div PAGE_SIZE) = Some (2 ^ k)" "usize_mul (2 ^ k) PAGE_SIZE = Some (n * sz)" using k' by simp_all
  have off: "div_ceil size_of_CachePage sz = 1" using cf(4) by (simp add: div_ceil_def size_of_CachePage_def)
  have mul: "usize_mul PAGE_SIZE page = Some a" using assms(5) by (simp add: usize_mul_def PAGE_SIZE_def PAGE_BITS_def a_def)
  obtain m where m: "n = Suc (Suc m)" using cf(3) by (metis add_2_eq_Suc le_Suc_ex)
  define c where "c = \<lparr>page_start = a, page_count = 2 ^ k, cell_size = sz, free_count = Suc m, used_count = 0, free_list_head = a + 1 * sz\<rparr>"
  define h1 where "h1 = fold (\<lambda>i. write_word (a + (1 + i) * sz) (a + (1 + i) * sz + sz)) [0..<m] (h\<lparr>page_alloc := s\<rparr>)"
  define h' where "h' = set_cache a c (write_word (a + Suc m * sz) 0 h1)"
  have size: "2 ^ k * PAGE_SIZE - sz = Suc m * sz" using assms(2) by (simp add: m flip: assms(2))
  have run: "CachePage_allocate al sz n h = Some (a, h')"
    using k k'(2) off mul assms(3) cf(3,4) size
    by (simp add: CachePage_allocate_def init_cells_def m c_def [symmetric] h'_def h1_def) (simp add: c_def algebra_simps)
  have w: "words h' = (\<lambda>p. if p = a + Suc m * sz then 0 else if \<exists>i < m. p = a + (1 + i) * sz then p + sz else words h p)"
  proof -
    have "words h1 = (\<lambda>p. if \<exists>i < m. p = a + (1 + i) * sz then p + sz else words h p)" unfolding h1_def write_words by (intro ext) auto
    then show ?thesis by (auto simp: h'_def set_cache_def write_word_def fun_eq_iff)
  qed
  have pos: "0 < sz" using cf(4) by simp
  define fl where "fl = map (\<lambda>i. a + i * sz) [1..<n]"
  have a0: "a \<noteq> 0" using assms(4) P by (simp add: a_def)
  note iw = init_words [OF w pos a0]
  then have chain: "free_chain (words h') (a + 1 * sz) fl" by (simp add: fl_def m)
  have cells: "set fl = cells c n" by (auto simp: fl_def cells_def cell_at_def c_def)
  have "distinct fl" using pos by (simp add: fl_def distinct_map inj_on_def)
  then have ok: "cache_ok (words h') a c fl"
    using chain cells assms(1,2,4) P unfolding cache_ok_def by (auto simp: c_def a_def m fl_def)
  have "words h' p = words h p" if "p \<notin> cells c n" for p using iw(2) [of p] that by (simp add: cells_def cell_at_def [abs_def] c_def m)
  then show thesis using that run ok cells
    by (simp add: a_def [symmetric] c_def h'_def set_cache_def write_word_def h1_def write_words_rest)
qed

lemma alloc_obj_ok:
  assumes "cache_ok (words h) a (cpages h a) (x # fl)"
  obtains c' where "alloc_obj a h = Some (Some x, set_cache a c' h)" "cache_ok (words h) a c' fl" "cell_size c' = cell_size (cpages h a)"
    "page_count c' = page_count (cpages h a)" "page_start c' = page_start (cpages h a)"
proof -
  let ?c = "cpages h a"
  obtain n where n: "(cell_size ?c, n) \<in> set CACHE_SIZE" "page_count ?c * PAGE_SIZE = n * cell_size ?c" "set (x # fl) \<subseteq> cells ?c n"
    "used_count ?c + free_count ?c = n - 1" using assms unfolding cache_ok_def by blast
  have h: "free_list_head ?c = x" "free_chain (words h) (words h x) fl" "distinct fl" "free_count ?c = Suc (length fl)"
    "page_start ?c = a" "PAGE_SIZE dvd a" "a \<noteq> 0" using assms by (auto simp: cache_ok_def)
  define c' where "c' = ?c\<lparr>free_count := length fl, used_count := used_count ?c + 1, free_list_head := words h x\<rparr>"
  have "cells c' n = cells ?c n" by (simp add: cells_def cell_at_def c'_def)
  then have ok: "cache_ok (words h) a c' fl" using h n unfolding cache_ok_def by (auto simp: c'_def intro!: exI [of _ n])
  have "used_count ?c + 1 < 2 ^ 64" using n(4) class_facts(6) [OF n(1)] h(4) by simp
  then have "alloc_obj a h = Some (Some x, set_cache a c' h)" using h by (simp add: alloc_obj_def c'_def Let_def)
  then show thesis using that ok by (simp add: c'_def)
qed

lemma free_obj_ok:
  assumes "cache_ok (words h) a (cpages h a) fl" "(cell_size (cpages h a), n) \<in> set CACHE_SIZE" "x \<in> cells (cpages h a) n" "x \<notin> set fl"
  obtains c' where "free_obj a x h = Some (set_cache a c' (write_word x (free_list_head (cpages h a)) h))"
    "cache_ok (words (write_word x (free_list_head (cpages h a)) h)) a c' (x # fl)" "cell_size c' = cell_size (cpages h a)"
    "page_count c' = page_count (cpages h a)" "page_start c' = page_start (cpages h a)" "used_count c' + length (x # fl) = n - 1"
proof -
  let ?c = "cpages h a" and ?h = "write_word x (free_list_head (cpages h a)) h"
  have n: "page_count ?c * PAGE_SIZE = n * cell_size ?c" "set fl \<subseteq> cells ?c n" "used_count ?c + free_count ?c = n - 1"
    using assms(1) class_count [OF assms(2)] unfolding cache_ok_def by blast+
  have h: "free_chain (words h) (free_list_head ?c) fl" "distinct fl" "free_count ?c = length fl" "page_start ?c = a" "PAGE_SIZE dvd a" "a \<noteq> 0"
    using assms(1) by (auto simp: cache_ok_def)
  note cf = class_facts [OF assms(2)]
  have pos: "0 < cell_size ?c" using cf(4) by simp
  have "card (insert x (set fl)) \<le> card (cells ?c n)" using assms(3) n(2) cells_card [OF pos] by (intro card_mono) auto
  then have used: "length fl < n - 1" using assms(4) h(2) cells_card(1) [OF pos, of n] by (simp add: distinct_card)
  define c' where "c' = ?c\<lparr>used_count := used_count ?c - 1, free_count := length fl + 1, free_list_head := x\<rparr>"
  have cells: "cells c' n = cells ?c n" by (simp add: cells_def cell_at_def c'_def)
  have "x \<noteq> 0" using assms(3) h(4,6) by (auto simp: cells_def cell_at_def)
  moreover have "free_chain (words ?h) (free_list_head ?c) fl" using assms(4) by (intro free_chain_frame [OF h(1)]) (auto simp: write_word_def)
  ultimately have ok: "cache_ok (words ?h) a c' (x # fl)"
    using h n used assms(2-4) cells unfolding cache_ok_def by (auto simp: c'_def write_word_def intro!: exI [of _ n])
  have "length fl + 1 < 2 ^ 64" using used cf(6) by simp
  then have "free_obj a x h = Some (set_cache a c' ?h)" using h(3) n(3) used by (simp add: free_obj_def c'_def usize_sub_def Let_def)
  then show thesis using that ok n(3) h(3) used by (simp add: c'_def)
qed

end
