(* ===== verification/Mcache_Heap.thy ===== *)
theory Mcache_Heap
  imports Mcache
begin

text \<open>
  The correctness of the kernel heap of \<^verbatim>\<open>src/src/mcache.rs\<close>, for the first manager.

  \<open>heap_ok\<close> is the invariant: the slots hold well-formed caches in pages of their own, none of them free, the counters of
  caches with free cells are right, and every cell in use starts with the address of its manager. \<open>live\<close> is the set of the
  cells in use. The operations are proved over the contract \<open>block_allocator\<close> of the page allocator, and the properties
  follow for the buddy allocator, which interprets it.
\<close>

section \<open>The heap of the first manager\<close>

definition slots :: "'s Heap \<Rightarrow> nat \<Rightarrow> nat multiset" where
  "slots h g = mset (List.map_filter id (caches (managers h g)))"

definition cache_pages :: "CachePage \<Rightarrow> nat set" where
  "cache_pages c = {page_start c div PAGE_SIZE..<page_start c div PAGE_SIZE + page_count c}"

text \<open>The cells in use, with their sizes; \<open>fls\<close> are the free cells of each cache.\<close>

definition live :: "'s Heap \<Rightarrow> nat \<Rightarrow> (nat \<Rightarrow> nat list) \<Rightarrow> (nat \<times> nat) set" where
  "live h g fls = {(x, cell_size (cpages h a)) | x a n. a \<in># slots h g \<and> (cell_size (cpages h a), n) \<in> set CACHE_SIZE \<and>
     x \<in> cells (cpages h a) n - set (fls a)}"

lemma live_iff: "(x, m) \<in> live h g fls \<longleftrightarrow> (\<exists>a n. a \<in># slots h g \<and> m = cell_size (cpages h a) \<and> (m, n) \<in> set CACHE_SIZE \<and>
    x \<in> cells (cpages h a) n - set (fls a))"
  unfolding live_def by blast

definition mgr_shape :: "CacheManager \<Rightarrow> bool" where
  "mgr_shape mgr \<longleftrightarrow> mgr_prev mgr = None \<and> length (caches mgr) = SLOT_NUM \<and> length (partial_counts mgr) = SIZE_CLASS_COUNT \<and>
     length (next_partial_free mgr) = SIZE_CLASS_COUNT"

definition partials :: "'s Heap \<Rightarrow> nat \<Rightarrow> (nat \<Rightarrow> nat list) \<Rightarrow> nat \<Rightarrow> nat" where
  "partials h g fls i = size {#a \<in># slots h g. cell_size (cpages h a) = fst (CACHE_SIZE ! i) \<and> fls a \<noteq> []#}"

text \<open>The counters are right for every class but the last. A cache of the last class has one cell, so it is full or gone, but
  \<^verbatim>\<open>new_cache_alloc\<close> counts it all the same.\<close>

definition partials_ok :: "'s Heap \<Rightarrow> nat \<Rightarrow> (nat \<Rightarrow> nat list) \<Rightarrow> bool" where
  "partials_ok h g fls \<longleftrightarrow> (\<forall>i < SIZE_CLASS_COUNT - 1. partial_counts (managers h g) ! i = partials h g fls i) \<and>
     partials h g fls (SIZE_CLASS_COUNT - 1) = 0"

definition heap_ok :: "('s \<Rightarrow> nat multiset \<Rightarrow> bool) \<Rightarrow> 's Heap \<Rightarrow> nat \<Rightarrow> (nat \<Rightarrow> nat list) \<Rightarrow> nat multiset \<Rightarrow> bool" where
  "heap_ok rep h g fls F \<longleftrightarrow> rep (page_alloc h) F \<and> 0 \<notin># F \<and> mgr_shape (managers h g) \<and>
     used_slots (managers h g) = size (slots h g) \<and> (\<forall>a. count (slots h g) a \<le> 1) \<and>
     (\<forall>a. a \<in># slots h g \<longrightarrow> cache_ok (words h) a (cpages h a) (fls a) \<and> cache_pages (cpages h a) \<inter> set_mset F = {}) \<and>
     (\<forall>a b. a \<in># slots h g \<and> b \<in># slots h g \<and> a \<noteq> b \<longrightarrow> cache_pages (cpages h a) \<inter> cache_pages (cpages h b) = {}) \<and>
     partials_ok h g fls \<and> (\<forall>x n. (x, n) \<in> live h g fls \<longrightarrow> words h x = g) \<and>
     g div PAGE_SIZE \<notin># F \<and> (\<forall>a. a \<in># slots h g \<longrightarrow> g div PAGE_SIZE \<notin> cache_pages (cpages h a))"

lemma heap_okD:
  assumes "heap_ok rep h g fls F"
  shows "rep (page_alloc h) F" "0 \<notin># F" "mgr_shape (managers h g)" "used_slots (managers h g) = size (slots h g)" "count (slots h g) a \<le> 1"
    "a \<in># slots h g \<Longrightarrow> cache_ok (words h) a (cpages h a) (fls a)" "a \<in># slots h g \<Longrightarrow> cache_pages (cpages h a) \<inter> set_mset F = {}"
    "a \<in># slots h g \<Longrightarrow> b \<in># slots h g \<Longrightarrow> a \<noteq> b \<Longrightarrow> cache_pages (cpages h a) \<inter> cache_pages (cpages h b) = {}"
    "partials_ok h g fls" "(x, n) \<in> live h g fls \<Longrightarrow> words h x = g" "g div PAGE_SIZE \<notin># F" "a \<in># slots h g \<Longrightarrow> g div PAGE_SIZE \<notin> cache_pages (cpages h a)"
  using assms unfolding heap_ok_def by blast+

lemma slots_in: "a \<in># slots h g \<longleftrightarrow> Some a \<in> set (caches (managers h g))"
  by (force simp: slots_def map_filter_def)

lemma first_mgr_first: "mgr_prev (managers h g) = None \<Longrightarrow> first_mgr h g = Some g"
  by (subst first_mgr.simps) simp

text \<open>The bytes of a cell lie in the pages of its cache.\<close>

lemma cell_bounds:
  assumes "cache_ok w a c fl" "(cell_size c, n) \<in> set CACHE_SIZE" "x \<in> cells c n"
  shows "a \<le> x" "x + cell_size c \<le> a + page_count c * PAGE_SIZE" "page_count c * PAGE_SIZE = n * cell_size c" "page_start c = a"
    "\<And>p. a \<le> p \<Longrightarrow> p < a + page_count c * PAGE_SIZE \<Longrightarrow> p div PAGE_SIZE \<in> cache_pages c" "0 < cell_size c"
proof -
  show n: "page_count c * PAGE_SIZE = n * cell_size c" "page_start c = a"
    using assms(1) class_count [OF assms(2)] unfolding cache_ok_def by blast+
  obtain i where i: "x = a + i * cell_size c" "1 \<le> i" "i < n" using assms(3) n(2) by (force simp: cells_def cell_at_def)
  show "a \<le> x" by (simp add: i)
  have "Suc i * cell_size c \<le> n * cell_size c" using i(3) by (intro mult_le_mono1) simp
  then show "x + cell_size c \<le> a + page_count c * PAGE_SIZE" by (simp add: i n(1))
  show "0 < cell_size c" using class_facts(4) [OF assms(2)] by simp
  fix p assume p: "a \<le> p" "p < a + page_count c * PAGE_SIZE"
  obtain q where q: "a = q * PAGE_SIZE" using assms(1) by (auto simp: cache_ok_def dvd_def mult.commute)
  have P: "0 < PAGE_SIZE" by (simp add: PAGE_SIZE_def)
  have "q \<le> p div PAGE_SIZE" using p(1) P by (simp add: q less_eq_div_iff_mult_less_eq)
  moreover have "p div PAGE_SIZE < q + page_count c" using p(2) P by (simp add: q div_less_iff_less_mult algebra_simps)
  ultimately show "p div PAGE_SIZE \<in> cache_pages c" using P by (simp add: cache_pages_def n(2) q)
qed

text \<open>Cells of different caches differ.\<close>

lemma cells_apart:
  assumes "heap_ok rep h g fls F" "a \<in># slots h g" "b \<in># slots h g" "a \<noteq> b"
    "(cell_size (cpages h a), n) \<in> set CACHE_SIZE" "(cell_size (cpages h b), m) \<in> set CACHE_SIZE" "x \<in> cells (cpages h a) n" "y \<in> cells (cpages h b) m"
  shows "x + cell_size (cpages h a) \<le> y \<or> y + cell_size (cpages h b) \<le> x"
proof (rule ccontr)
  assume not: "\<not> (x + cell_size (cpages h a) \<le> y \<or> y + cell_size (cpages h b) \<le> x)"
  note ca = cell_bounds [OF heap_okD(6) [OF assms(1,2)] assms(5,7)] and cb = cell_bounds [OF heap_okD(6) [OF assms(1,3)] assms(6,8)]
  define p where "p = max x y"
  have p: "x \<le> p" "y \<le> p" "p < x + cell_size (cpages h a)" "p < y + cell_size (cpages h b)" using not ca(6) cb(6) by (auto simp: p_def)
  have "p div PAGE_SIZE \<in> cache_pages (cpages h a)" "p div PAGE_SIZE \<in> cache_pages (cpages h b)"
    using ca(1,2) cb(1,2) p by (auto intro!: ca(5) cb(5))
  then show False using heap_okD(8) [OF assms(1-4)] by blast
qed

lemma cells_same_apart:
  assumes "x \<in> cells c n" "y \<in> cells c n" "x \<noteq> y"
  shows "x + cell_size c \<le> y \<or> y + cell_size c \<le> x"
proof -
  obtain i j where ij: "x = page_start c + i * cell_size c" "y = page_start c + j * cell_size c" "i \<noteq> j"
    using assms by (auto simp: cells_def cell_at_def)
  then have "Suc i * cell_size c \<le> j * cell_size c \<or> Suc j * cell_size c \<le> i * cell_size c"
    by (metis Suc_leI linorder_neqE_nat mult_le_mono1)
  then show ?thesis by (auto simp: ij)
qed

text \<open>Objects in use never overlap.\<close>

lemma live_apart:
  assumes "heap_ok rep h g fls F" "(x, m) \<in> live h g fls" "(y, n) \<in> live h g fls" "(x, m) \<noteq> (y, n)"
  shows "x + m \<le> y \<or> y + n \<le> x"
proof -
  obtain a i where a: "a \<in># slots h g" "m = cell_size (cpages h a)" "(cell_size (cpages h a), i) \<in> set CACHE_SIZE" "x \<in> cells (cpages h a) i"
    using assms(2) by (auto simp: live_def)
  obtain b j where b: "b \<in># slots h g" "n = cell_size (cpages h b)" "(cell_size (cpages h b), j) \<in> set CACHE_SIZE" "y \<in> cells (cpages h b) j"
    using assms(3) by (auto simp: live_def)
  show ?thesis
  proof (cases "a = b")
    case True
    then show ?thesis using cells_same_apart [of x "cpages h a" i y] a b assms(4) class_count [OF a(3)] by auto
  qed (use cells_apart [OF assms(1) a(1) b(1) _ a(3) b(3) a(4) b(4)] a(2) b(2) in simp)
qed

subsection \<open>A change to one cache\<close>

definition same_geometry :: "CachePage \<Rightarrow> CachePage \<Rightarrow> bool" where
  "same_geometry c c' \<longleftrightarrow> page_start c' = page_start c \<and> page_count c' = page_count c \<and> cell_size c' = cell_size c"

lemma same_geometry_cells: "same_geometry c c' \<Longrightarrow> cells c' n = cells c n \<and> cache_pages c' = cache_pages c \<and> cell_size c' = cell_size c"
  by (auto simp: same_geometry_def cells_def cell_at_def cache_pages_def)

text \<open>What the live cells are after the free cells of one cache have changed.\<close>

lemma live_update:
  assumes "slots h' g = slots h g" "cpages h' = (cpages h)(a := c')" "same_geometry (cpages h a) c'"
  shows "(x, m) \<in> live h' g (fls(a := fl)) \<longleftrightarrow> (\<exists>b n. b \<in># slots h g \<and> m = cell_size (cpages h b) \<and> (m, n) \<in> set CACHE_SIZE \<and>
    x \<in> cells (cpages h b) n - set ((fls(a := fl)) b))"
proof -
  have g: "cell_size (cpages h' b) = cell_size (cpages h b)" "cells (cpages h' b) n = cells (cpages h b) n" for b n
    using assms(2) same_geometry_cells [OF assms(3)] by auto
  show ?thesis unfolding live_def mem_Collect_eq Pair_inject g assms(1) by blast
qed

lemma heap_ok_update:
  assumes "heap_ok rep h g fls F" "a \<in># slots h g" "same_geometry (cpages h a) c'" "cpages h' = (cpages h)(a := c')"
    and "cache_ok (words h') a c' fl" "x \<in> cells (cpages h a) n" "(cell_size (cpages h a), n) \<in> set CACHE_SIZE"
    and "\<And>p. p \<noteq> x \<Longrightarrow> words h' p = words h p" "x \<notin> set fl \<Longrightarrow> words h' x = g" "set (fls a) - {x} \<subseteq> set fl"
    and "page_alloc h' = page_alloc h" "mgr_shape (managers h' g)" "slots h' g = slots h g" "used_slots (managers h' g) = used_slots (managers h g)"
    and "partials_ok h' g (fls(a := fl))"
  shows "heap_ok rep h' g (fls(a := fl)) F"
proof -
  have pages: "cache_pages (cpages h' b) = cache_pages (cpages h b)" for b
    using same_geometry_cells [OF assms(3)] assms(4) by auto
  have other: "cache_ok (words h') b (cpages h' b) ((fls(a := fl)) b)" if b: "b \<in># slots h g" for b
  proof (cases "b = a")
    case False
    have ok: "cache_ok (words h) b (cpages h b) (fls b)" using heap_okD(6) [OF assms(1) b] .
    then obtain k where k: "(cell_size (cpages h b), k) \<in> set CACHE_SIZE" "set (fls b) \<subseteq> cells (cpages h b) k" unfolding cache_ok_def by blast
    have "words h' y = words h y" if "y \<in> set (fls b)" for y
    proof (rule assms(8))
      have "y \<in> cells (cpages h b) k" using k(2) that by blast
      from cells_apart [OF assms(1,2) b False [symmetric] assms(7) k(1) assms(6) this] show "y \<noteq> x"
        using class_facts(4) [OF k(1)] class_facts(4) [OF assms(7)] by auto
    qed
    from cache_ok_frame [OF ok this] show ?thesis using False assms(4) by simp
  qed (use assms(4,5) in simp)
  have heads: "words h' y = g" if y: "(y, m) \<in> live h' g (fls(a := fl))" for y m
  proof (cases "y = x")
    case False
    obtain b k where b: "b \<in># slots h g" "m = cell_size (cpages h b)" "(m, k) \<in> set CACHE_SIZE" "y \<in> cells (cpages h b) k - set ((fls(a := fl)) b)"
      using y live_update [OF assms(13,4,3)] by blast
    then have "y \<notin> set (fls b)" using False assms(10) by (auto split: if_splits)
    then have "(y, m) \<in> live h g fls" using b unfolding live_def by auto
    then show ?thesis using heap_okD(10) [OF assms(1)] assms(8) [OF False] by simp
  next
    case True
    obtain b k where b: "b \<in># slots h g" "m = cell_size (cpages h b)" "(m, k) \<in> set CACHE_SIZE" "x \<in> cells (cpages h b) k" "x \<notin> set ((fls(a := fl)) b)"
      using y live_update [OF assms(13,4,3)] True by blast
    have "b = a" using cells_apart [OF assms(1,2) b(1) _ assms(7) _ assms(6) b(4)] b(2,3) class_facts(4) [OF b(3)] class_facts(4) [OF assms(7)] by fastforce
    then show ?thesis using b(5) assms(9) True by simp
  qed
  show ?thesis unfolding heap_ok_def assms(11,13,14) pages
    using heap_okD(1-8,11,12) [OF assms(1)] assms(12,15) other heads by simp
qed

text \<open>How the number of caches with free cells changes with one of them.\<close>

lemma partials_one:
  assumes "heap_ok rep h g fls F" "a \<in># slots h g" "same_geometry (cpages h a) c'" "cpages h' = (cpages h)(a := c')" "slots h' g = slots h g"
    "cell_size (cpages h a) = fst (CACHE_SIZE ! idx)" "idx < SIZE_CLASS_COUNT" "i < SIZE_CLASS_COUNT"
  shows "partials h' g (fls(a := fl)) i + (if i = idx \<and> fls a \<noteq> [] then 1 else 0) =
    partials h g fls i + (if i = idx \<and> fl \<noteq> [] then 1 else 0)"
proof -
  define R where "R = slots h g - {#a#}"
  have cs: "slots h g = add_mset a R" "a \<notin># R"
    using assms(2) heap_okD(5) [OF assms(1), of a] by (simp_all add: R_def not_in_iff)
  have neq: "fst (CACHE_SIZE ! idx) = fst (CACHE_SIZE ! i) \<longleftrightarrow> i = idx"
    using CACHE_SIZE_sizes assms(7,8) CACHE_SIZE_length by (metis length_map nth_eq_iff_index_eq nth_map)
  define Q Q' where "Q b \<longleftrightarrow> cell_size (cpages h b) = fst (CACHE_SIZE ! i) \<and> fls b \<noteq> []"
    and "Q' b \<longleftrightarrow> cell_size (cpages h' b) = fst (CACHE_SIZE ! i) \<and> (fls(a := fl)) b \<noteq> []" for b
  have "filter_mset Q' R = filter_mset Q R" using cs(2) assms(4) by (intro filter_mset_cong) (auto simp: Q_def Q'_def)
  moreover have "Q a \<longleftrightarrow> i = idx \<and> fls a \<noteq> []" using assms(6) neq by (simp add: Q_def)
  moreover have "Q' a \<longleftrightarrow> i = idx \<and> fl \<noteq> []" using assms(3,4,6) neq by (simp add: Q'_def same_geometry_def)
  moreover have "partials h g fls i = size (filter_mset Q (slots h g))" unfolding partials_def Q_def ..
  ultimately have "size (filter_mset Q' (slots h' g)) + (if i = idx \<and> fls a \<noteq> [] then 1 else 0) =
    partials h g fls i + (if i = idx \<and> fl \<noteq> [] then 1 else 0)" unfolding assms(5) cs(1) by simp
  then show ?thesis unfolding partials_def Q'_def .
qed

text \<open>An object leaves the free cells of a cache, and a manager pointer goes into its first word.\<close>

lemma heap_ok_take:
  assumes "heap_ok rep h g fls F" "a \<in># slots h g" "fls a = x # fl" "same_geometry (cpages h a) c'" "cache_ok (words h) a c' fl"
    and "cpages h' = (cpages h)(a := c')" "words h' = (words h)(x := g)" "page_alloc h' = page_alloc h" "mgr_shape (managers h' g)"
    and "caches (managers h' g) = caches (managers h g)" "used_slots (managers h' g) = used_slots (managers h g)"
    and "(cell_size (cpages h a), n) = CACHE_SIZE ! idx" "idx < SIZE_CLASS_COUNT"
    and "partial_counts (managers h' g) =
      (if fl = [] then (partial_counts (managers h g))[idx := partial_counts (managers h g) ! idx - 1] else partial_counts (managers h g))"
  shows "heap_ok rep h' g (fls(a := fl)) F" "live h' g (fls(a := fl)) = insert (x, cell_size (cpages h a)) (live h g fls)"
    "(x, cell_size (cpages h a)) \<notin> live h g fls" "x \<in> cells (cpages h a) n" "page_start (cpages h a) = a"
proof -
  have cl: "(cell_size (cpages h a), n) \<in> set CACHE_SIZE" using assms(12,13) CACHE_SIZE_length by (metis nth_mem)
  have ok: "cache_ok (words h) a (cpages h a) (x # fl)" using heap_okD(6) [OF assms(1,2)] assms(3) by simp
  then have x: "x \<in> cells (cpages h a) n" "x \<notin> set fl" "page_start (cpages h a) = a"
    using class_count [OF cl] unfolding cache_ok_def by auto
  show "x \<in> cells (cpages h a) n" "page_start (cpages h a) = a" by fact+
  have slots: "slots h' g = slots h g" by (simp add: slots_def assms(10))
  have ok': "cache_ok (words h') a c' fl" using x(2) assms(7) by (intro cache_ok_frame [OF assms(5)]) auto
  have idx: "cell_size (cpages h a) = fst (CACHE_SIZE ! idx)" using assms(12) by (metis fst_conv)
  have one: "partials h' g (fls(a := fl)) i + (if i = idx then 1 else 0) = partials h g fls i + (if i = idx \<and> fl \<noteq> [] then 1 else 0)"
    if "i < SIZE_CLASS_COUNT" for i
    using partials_one [OF assms(1,2,4,6) slots idx assms(13) that, of fl] assms(3) by simp
  have pc: "\<And>i. i < SIZE_CLASS_COUNT - 1 \<Longrightarrow> partial_counts (managers h g) ! i = partials h g fls i" "partials h g fls (SIZE_CLASS_COUNT - 1) = 0"
    using heap_okD(9) [OF assms(1)] unfolding partials_ok_def by blast+
  have len: "idx < length (partial_counts (managers h g))" using heap_okD(3) [OF assms(1)] assms(13) by (simp add: mgr_shape_def)
  have last: "SIZE_CLASS_COUNT - 1 < SIZE_CLASS_COUNT" by (simp add: SIZE_CLASS_COUNT_def)
  have "partial_counts (managers h' g) ! i = partials h' g (fls(a := fl)) i" if i: "i < SIZE_CLASS_COUNT - 1" for i
    using one [OF less_trans [OF i last]] pc(1) [OF i] len assms(14) by (auto simp: nth_list_update)
  moreover have "partials h' g (fls(a := fl)) (SIZE_CLASS_COUNT - 1) = 0" using one [OF last] pc(2) by (auto split: if_splits)
  ultimately have partials: "partials_ok h' g (fls(a := fl))" unfolding partials_ok_def by blast
  show "heap_ok rep h' g (fls(a := fl)) F"
    by (rule heap_ok_update [OF assms(1,2,4,6) ok' x(1) cl]) (use assms(3,7-9,11) slots partials in auto)
  have other: "x \<notin> cells (cpages h b) k" if "b \<in># slots h g" "b \<noteq> a" "(cell_size (cpages h b), k) \<in> set CACHE_SIZE" for b k
    using cells_apart [OF assms(1,2) that(1) _ cl that(3) x(1)] that(2) class_facts(4) [OF cl] class_facts(4) [OF that(3)] by fastforce
  show "(x, cell_size (cpages h a)) \<notin> live h g fls"
  proof
    assume "(x, cell_size (cpages h a)) \<in> live h g fls"
    then obtain b k where b: "b \<in># slots h g" "(cell_size (cpages h b), k) \<in> set CACHE_SIZE" "x \<in> cells (cpages h b) k" "x \<notin> set (fls b)"
      unfolding live_def by auto
    then show False using other [OF b(1) _ b(2)] assms(3) by (cases "b = a") simp_all
  qed
  have "(y, m) \<in> live h' g (fls(a := fl)) \<longleftrightarrow> (y, m) = (x, cell_size (cpages h a)) \<or> (y, m) \<in> live h g fls" (is "?l \<longleftrightarrow> ?r") for y m
  proof
    assume ?l
    then obtain b k where b: "b \<in># slots h g" "m = cell_size (cpages h b)" "(m, k) \<in> set CACHE_SIZE" "y \<in> cells (cpages h b) k" "y \<notin> set ((fls(a := fl)) b)"
      unfolding live_update [OF slots assms(6,4)] by blast
    then have "(y, m) = (x, cell_size (cpages h a)) \<or> y \<notin> set (fls b)" using assms(3) by (cases "b = a") auto
    then show ?r using b unfolding live_iff by blast
  next
    assume ?r
    then show ?l
    proof
      assume "(y, m) = (x, cell_size (cpages h a))"
      then show ?l unfolding live_update [OF slots assms(6,4)] using x cl assms(2) by (intro exI [of _ a] exI [of _ n]) simp
    next
      assume "(y, m) \<in> live h g fls"
      then obtain b k where b: "b \<in># slots h g" "m = cell_size (cpages h b)" "(m, k) \<in> set CACHE_SIZE" "y \<in> cells (cpages h b) k" "y \<notin> set (fls b)"
        unfolding live_iff by blast
      then have "y \<notin> set ((fls(a := fl)) b)" using assms(3) by (cases "b = a") auto
      then show ?l unfolding live_update [OF slots assms(6,4)] using b by blast
    qed
  qed
  then show "live h' g (fls(a := fl)) = insert (x, cell_size (cpages h a)) (live h g fls)" by auto
qed

lemma alloc_obj_full: "cache_ok w a (cpages h a) [] \<Longrightarrow> alloc_obj a h = Some (None, h)"
  by (simp add: alloc_obj_def cache_ok_def Let_def)

lemma find_cell_spec:
  assumes "\<And>a. a \<in> set cs \<Longrightarrow> cache_ok (words h) a (cpages h a) (fls a)" "\<exists>a \<in> set cs. cell_size (cpages h a) = sz \<and> fls a \<noteq> []"
  obtains a x fl c' where "a \<in> set cs" "cell_size (cpages h a) = sz" "fls a = x # fl" "find_cell sz cs h = Some (Some (a, x), set_cache a c' h)"
    "cache_ok (words h) a c' fl" "same_geometry (cpages h a) c'"
proof -
  have "\<exists>a x fl c'. a \<in> set cs \<and> cell_size (cpages h a) = sz \<and> fls a = x # fl \<and> find_cell sz cs h = Some (Some (a, x), set_cache a c' h) \<and>
    cache_ok (words h) a c' fl \<and> same_geometry (cpages h a) c'" using assms
  proof (induction cs)
    case (Cons c cs)
    show ?case
    proof (cases "cell_size (cpages h c) = sz \<and> fls c \<noteq> []")
      case True
      then obtain x fl where x: "fls c = x # fl" by (cases "fls c") auto
      have "cache_ok (words h) c (cpages h c) (x # fl)" using Cons.prems(1) [of c] x by simp
      from alloc_obj_ok [OF this] obtain c' where "alloc_obj c h = Some (Some x, set_cache c c' h)" "cache_ok (words h) c c' fl"
        "same_geometry (cpages h c) c'" unfolding same_geometry_def by blast
      then show ?thesis using True x by (intro exI [of _ c] exI [of _ x] exI [of _ fl] exI [of _ c']) simp
    next
      case False
      have "alloc_obj c h = Some (None, h)" if "fls c = []" using that Cons.prems(1) [of c] by (auto intro: alloc_obj_full)
      then have "find_cell sz (c # cs) h = find_cell sz cs h" using False by auto
      moreover have "\<exists>a \<in> set cs. cell_size (cpages h a) = sz \<and> fls a \<noteq> []" using Cons.prems(2) False by auto
      ultimately show ?thesis using Cons.IH Cons.prems(1) by auto
    qed
  qed simp
  then show thesis using that by blast
qed

text \<open>An allocation that a cache with a free cell serves.\<close>

lemma cache_alloc_ok:
  assumes "heap_ok rep h g fls F" "(sz, n) = CACHE_SIZE ! idx" "idx < SIZE_CLASS_COUNT" "partials h g fls idx \<noteq> 0"
  obtains h' fls' x a where "cache_alloc g sz idx padding h = Some (Some (object_ptr x padding), h')" "heap_ok rep h' g fls' F"
    "live h' g fls' = insert (x, sz) (live h g fls)" "(x, sz) \<notin> live h g fls" "PAGE_SIZE dvd a" "x \<in> (\<lambda>i. a + i * sz) ` {1..<n}"
    "slots h' g = slots h g" "mgr_next (managers h' g) = mgr_next (managers h g)" "page_alloc h' = page_alloc h"
    "partial_counts (managers h' g) ! (SIZE_CLASS_COUNT - 1) = partial_counts (managers h g) ! (SIZE_CLASS_COUNT - 1)"
proof -
  let ?m = "managers h g" and ?cs = "List.map_filter id (caches (managers h g))"
  note D = heap_okD [OF assms(1)]
  have shape: "mgr_prev ?m = None" "length (partial_counts ?m) = SIZE_CLASS_COUNT" "length (next_partial_free ?m) = SIZE_CLASS_COUNT"
    "length (caches ?m) = SLOT_NUM" using D(3) by (simp_all add: mgr_shape_def)
  have mem: "b \<in> set ?cs \<longleftrightarrow> b \<in># slots h g" for b by (simp add: slots_def)
  have "{#b \<in># slots h g. cell_size (cpages h b) = sz \<and> fls b \<noteq> []#} \<noteq> {#}"
    using assms(2,4) unfolding partials_def by (metis fst_conv size_empty)
  then have "\<exists>b \<in> set ?cs. cell_size (cpages h b) = sz \<and> fls b \<noteq> []" unfolding filter_mset_eq_mempty_iff Bex_def mem by blast
  then obtain a x fl c' where a: "a \<in># slots h g" "cell_size (cpages h a) = sz" "fls a = x # fl" "find_cell sz ?cs h = Some (Some (a, x), set_cache a c' h)"
    "cache_ok (words h) a c' fl" "same_geometry (cpages h a) c'" using find_cell_spec [of ?cs h fls sz] D(6) mem by metis
  have last: "idx \<noteq> SIZE_CLASS_COUNT - 1" using D(9) assms(4) by (auto simp: partials_ok_def)
  then have pc: "partial_counts ?m ! idx \<noteq> 0" using D(9) assms(3,4) by (simp add: partials_ok_def)
  define p where "p = (if fl = [] then (partial_counts ?m)[idx := partial_counts ?m ! idx - 1] else partial_counts ?m)"
  define h' where "h' = h\<lparr>words := (words h)(x := g), cpages := (cpages h)(a := c'), managers := (managers h)(g := ?m\<lparr>partial_counts := p\<rparr>)\<rparr>"
  have free: "free_count c' = length fl" using a(5) by (simp add: cache_ok_def)
  have same: "(managers h)(g := ?m) = managers h" "?m\<lparr>partial_counts := q, next_partial_free := next_partial_free ?m\<rparr> = ?m\<lparr>partial_counts := q\<rparr>"
    "?m\<lparr>partial_counts := partial_counts ?m\<rparr> = ?m" for q by simp_all
  have run: "cache_alloc g sz idx padding h = Some (Some (object_ptr x padding), h')"
    using a(4) assms(3) pc shape free
    by (auto simp: cache_alloc_def nth_opt_def usize_sub_def set_mgr_def set_cache_def write_word_def h'_def p_def same Let_def first_mgr_first)
  have ok: "heap_ok rep h' g (fls(a := fl)) F" "live h' g (fls(a := fl)) = insert (x, sz) (live h g fls)" "(x, sz) \<notin> live h g fls"
    "x \<in> cells (cpages h a) n" "page_start (cpages h a) = a"
    using heap_ok_take [OF assms(1) a(1,3,6,5), of h' n idx] assms(2,3) a(2) D(3) by (simp_all add: h'_def p_def mgr_shape_def)
  have dvd: "PAGE_SIZE dvd a" using D(6) [OF a(1)] by (simp add: cache_ok_def)
  have "x \<in> (\<lambda>i. a + i * sz) ` {1..<n}" using ok(4,5) a(2) by (simp add: cells_def cell_at_def)
  then show thesis using that [OF run ok(1-3) dvd] last by (simp add: h'_def p_def slots_def)
qed

text \<open>When no cache of the class has a free cell, \<^verbatim>\<open>cache_alloc\<close> returns nothing and changes nothing.\<close>

lemma find_cell_full: "(\<And>a. a \<in> set cs \<Longrightarrow> cell_size (cpages h a) = sz \<Longrightarrow> free_count (cpages h a) = 0) \<Longrightarrow> find_cell sz cs h = Some (None, h)"
  by (induction cs) (simp_all add: alloc_obj_def Let_def)

lemma find_cell_none:
  "(\<And>a. a \<in> set cs \<Longrightarrow> cache_ok (words h) a (cpages h a) (fls a)) \<Longrightarrow> (\<And>a. a \<in> set cs \<Longrightarrow> cell_size (cpages h a) = sz \<Longrightarrow> fls a = []) \<Longrightarrow>
   find_cell sz cs h = Some (None, h)"
  by (rule find_cell_full) (simp add: cache_ok_def)

lemma cache_alloc_none:
  assumes "heap_ok rep h g fls F" "(sz, n) = CACHE_SIZE ! idx" "idx < SIZE_CLASS_COUNT" "partials h g fls idx = 0"
  shows "cache_alloc g sz idx padding h = Some (None, h)"
proof -
  have "{#a \<in># slots h g. cell_size (cpages h a) = sz \<and> fls a \<noteq> []#} = {#}" using assms(4) unfolding partials_def assms(2) [symmetric] by simp
  then have "\<not> (cell_size (cpages h a) = sz \<and> fls a \<noteq> [])" if "a \<in># slots h g" for a using that unfolding filter_mset_eq_mempty_iff by blast
  moreover have "a \<in># slots h g" if "a \<in> set (List.map_filter id (caches (managers h g)))" for a using that by (simp add: slots_def)
  ultimately have "find_cell sz (List.map_filter id (caches (managers h g))) h = Some (None, h)"
    using heap_okD(6) [OF assms(1)] by (intro find_cell_none [of _ _ fls]) blast+
  moreover have "length (partial_counts (managers h g)) = SIZE_CLASS_COUNT" using heap_okD(3) [OF assms(1)] by (simp add: mgr_shape_def)
  ultimately show ?thesis using assms(3) by (simp add: cache_alloc_def nth_opt_def)
qed

text \<open>The manager is not inside an object.\<close>

lemma live_not_mgr:
  assumes "heap_ok rep h g fls F" "(x, m) \<in> live h g fls" "x \<le> p" "p < x + m"
  shows "p \<noteq> g"
proof -
  obtain a n where a: "a \<in># slots h g" "m = cell_size (cpages h a)" "(cell_size (cpages h a), n) \<in> set CACHE_SIZE" "x \<in> cells (cpages h a) n"
    using assms(2) unfolding live_iff by blast
  note cb = cell_bounds [OF heap_okD(6) [OF assms(1) a(1)] a(3,4)]
  have "p div PAGE_SIZE \<in> cache_pages (cpages h a)" using cb(1,2) assms(3,4) a(2) by (intro cb(5)) simp_all
  then show ?thesis using heap_okD(12) [OF assms(1) a(1)] by blast
qed

subsection \<open>A new cache\<close>

lemma cache_first_page: "cache_ok w a c fl \<Longrightarrow> a div PAGE_SIZE \<in> cache_pages c"
proof -
  assume ok: "cache_ok w a c fl"
  then obtain n where n: "(cell_size c, n) \<in> set CACHE_SIZE" "page_count c * PAGE_SIZE = n * cell_size c" "page_start c = a" unfolding cache_ok_def by blast
  have "0 < page_count c * PAGE_SIZE" unfolding n(2) using class_facts(3,4) [OF n(1)] by simp
  then show ?thesis by (simp add: cache_pages_def n(3))
qed

lemma cell_page: "cache_ok w a c fl \<Longrightarrow> (cell_size c, n) \<in> set CACHE_SIZE \<Longrightarrow> x \<in> cells c n \<Longrightarrow> x div PAGE_SIZE \<in> cache_pages c"
  using cell_bounds [of w a c fl n x] by simp

text \<open>The pages of a cache that comes out of the free pages are those of no other cache.\<close>

lemma fresh_cache:
  assumes "heap_ok rep h g fls F" "cache_pages c \<subseteq> set_mset F" "cache_ok w a c fl"
  shows "a \<notin># slots h g" "b \<in># slots h g \<Longrightarrow> cache_pages (cpages h b) \<inter> cache_pages c = {}" "g div PAGE_SIZE \<notin> cache_pages c"
    "b \<in># slots h g \<Longrightarrow> (cell_size (cpages h b), m) \<in> set CACHE_SIZE \<Longrightarrow> (cell_size c, n) \<in> set CACHE_SIZE \<Longrightarrow> cells (cpages h b) m \<inter> cells c n = {}"
proof -
  show apart: "cache_pages (cpages h b) \<inter> cache_pages c = {}" if "b \<in># slots h g" for b using heap_okD(7) [OF assms(1) that] assms(2) by blast
  show "a \<notin># slots h g" using apart [of a] cache_first_page [OF assms(3)] cache_first_page [OF heap_okD(6) [OF assms(1), of a]] by blast
  show "g div PAGE_SIZE \<notin> cache_pages c" using heap_okD(11) [OF assms(1)] assms(2) by blast
  show "cells (cpages h b) m \<inter> cells c n = {}"
    if "b \<in># slots h g" "(cell_size (cpages h b), m) \<in> set CACHE_SIZE" "(cell_size c, n) \<in> set CACHE_SIZE"
    using apart [OF that(1)] cell_page [OF assms(3) that(3)] cell_page [OF heap_okD(6) [OF assms(1) that(1)] that(2)] by blast
qed

lemma partials_add:
  assumes "a \<notin># slots h g" "slots h' g = add_mset a (slots h g)" "cpages h' = (cpages h)(a := c)" "cell_size c = fst (CACHE_SIZE ! idx)"
    "idx < SIZE_CLASS_COUNT" "i < SIZE_CLASS_COUNT"
  shows "partials h' g (fls(a := fl)) i = partials h g fls i + (if i = idx \<and> fl \<noteq> [] then 1 else 0)"
proof -
  have neq: "fst (CACHE_SIZE ! idx) = fst (CACHE_SIZE ! i) \<longleftrightarrow> i = idx"
    using CACHE_SIZE_sizes assms(5,6) CACHE_SIZE_length by (metis length_map nth_eq_iff_index_eq nth_map)
  define Q Q' where "Q b \<longleftrightarrow> cell_size (cpages h b) = fst (CACHE_SIZE ! i) \<and> fls b \<noteq> []"
    and "Q' b \<longleftrightarrow> cell_size (cpages h' b) = fst (CACHE_SIZE ! i) \<and> (fls(a := fl)) b \<noteq> []" for b
  have "filter_mset Q' (slots h g) = filter_mset Q (slots h g)" using assms(1,3) by (intro filter_mset_cong) (auto simp: Q_def Q'_def)
  moreover have "Q' a \<longleftrightarrow> i = idx \<and> fl \<noteq> []" using assms(3,4) neq by (simp add: Q'_def)
  ultimately have "size (filter_mset Q' (slots h' g)) = size (filter_mset Q (slots h g)) + (if i = idx \<and> fl \<noteq> [] then 1 else 0)"
    unfolding assms(2) by simp
  then show ?thesis unfolding partials_def Q_def Q'_def .
qed

lemma live_add:
  assumes "heap_ok rep h g fls F" "cache_pages c \<subseteq> set_mset F" "cache_ok w a c fl" "slots h' g = add_mset a (slots h g)" "cpages h' = (cpages h)(a := c)"
    and "(cell_size c, n) \<in> set CACHE_SIZE" "cells c n = insert x (set fl)" "x \<notin> set fl"
  shows "live h' g (fls(a := fl)) = insert (x, cell_size c) (live h g fls)" "(x, cell_size c) \<notin> live h g fls"
proof -
  note fresh = fresh_cache [OF assms(1-3)]
  show "(x, cell_size c) \<notin> live h g fls"
  proof
    assume "(x, cell_size c) \<in> live h g fls"
    then obtain b k where b: "b \<in># slots h g" "(cell_size (cpages h b), k) \<in> set CACHE_SIZE" "x \<in> cells (cpages h b) k" unfolding live_iff by auto
    then show False using fresh(4) [OF b(1,2) assms(6)] assms(7) by blast
  qed
  have "(y, m) \<in> live h' g (fls(a := fl)) \<longleftrightarrow> (y, m) = (x, cell_size c) \<or> (y, m) \<in> live h g fls" (is "?l \<longleftrightarrow> ?r") for y m
  proof
    assume ?l
    then obtain b k where b: "b \<in># slots h' g" "m = cell_size (cpages h' b)" "(m, k) \<in> set CACHE_SIZE" "y \<in> cells (cpages h' b) k" "y \<notin> set ((fls(a := fl)) b)"
      unfolding live_iff by blast
    show ?r
    proof (cases "b = a")
      case True
      then show ?thesis using b assms(5,7) class_count [OF assms(6)] by auto
    next
      case False
      then show ?thesis using b assms(4,5) unfolding live_iff by auto
    qed
  next
    assume ?r
    then show ?l
    proof
      assume "(y, m) = (x, cell_size c)"
      then show ?l unfolding live_iff using assms(4-8) by (intro exI [of _ a] exI [of _ n]) simp
    next
      assume "(y, m) \<in> live h g fls"
      then obtain b k where b: "b \<in># slots h g" "m = cell_size (cpages h b)" "(m, k) \<in> set CACHE_SIZE" "y \<in> cells (cpages h b) k" "y \<notin> set (fls b)"
        unfolding live_iff by blast
      then have "b \<noteq> a" using fresh(1) by blast
      then show ?l using b assms(4,5) unfolding live_iff by (intro exI [of _ b] exI [of _ k]) simp
    qed
  qed
  then show "live h' g (fls(a := fl)) = insert (x, cell_size c) (live h g fls)" by auto
qed

lemma pages_taken:
  assumes "F' + mset_set P \<subseteq># F" "\<And>p. count F p \<le> 1" "finite P"
  shows "set_mset F' \<subseteq> set_mset F" "P \<subseteq> set_mset F" "P \<inter> set_mset F' = {}"
proof -
  have le: "count F' p + (if p \<in> P then 1 else 0) \<le> count F p" for p using mset_subset_eq_count [OF assms(1), of p] assms(3) by (cases "p \<in> P") simp_all
  have pos: "0 < count F p" if "p \<in># F' \<or> p \<in> P" for p using le [of p] that by (auto simp flip: count_greater_zero_iff split: if_splits)
  show "set_mset F' \<subseteq> set_mset F" "P \<subseteq> set_mset F" using pos unfolding count_greater_zero_iff by blast+
  have "p \<notin># F'" if "p \<in> P" for p using le [of p] assms(2) [of p] that by (simp add: not_in_iff)
  then show "P \<inter> set_mset F' = {}" by blast
qed

lemma heap_ok_add:
  assumes "heap_ok rep h g fls F" "rep (page_alloc h') F'" "F' + mset_set (cache_pages c) \<subseteq># F" "\<And>p. count F p \<le> 1" "cache_ok (words h') a c fl"
    and "slots h' g = add_mset a (slots h g)" "cpages h' = (cpages h)(a := c)" "(cell_size c, n) = CACHE_SIZE ! idx" "idx < SIZE_CLASS_COUNT"
    and "cells c n = insert x (set fl)" "x \<notin> set fl" "words h' x = g" "\<And>p. p \<notin> cells c n \<Longrightarrow> words h' p = words h p"
    and "mgr_shape (managers h' g)" "used_slots (managers h' g) = Suc (used_slots (managers h g))"
    and "partial_counts (managers h' g) = (partial_counts (managers h g))[idx := Suc (partial_counts (managers h g) ! idx)]"
    and "fl = [] \<longleftrightarrow> idx = SIZE_CLASS_COUNT - 1"
  shows "heap_ok rep h' g (fls(a := fl)) F'"
proof -
  have "finite (cache_pages c)" by (simp add: cache_pages_def)
  note sub = pages_taken [OF assms(3,4) this]
  have cl: "(cell_size c, n) \<in> set CACHE_SIZE" using assms(8,9) CACHE_SIZE_length by (metis nth_mem)
  note fresh = fresh_cache [OF assms(1) sub(2) assms(5)] and D = heap_okD [OF assms(1)]
  have old: "cache_ok (words h') b (cpages h' b) ((fls(a := fl)) b)" if b: "b \<in># slots h g" for b
  proof -
    have ok: "cache_ok (words h) b (cpages h b) (fls b)" using D(6) [OF b] .
    then obtain k where k: "(cell_size (cpages h b), k) \<in> set CACHE_SIZE" "set (fls b) \<subseteq> cells (cpages h b) k" unfolding cache_ok_def by blast
    have "words h' y = words h y" if "y \<in> set (fls b)" for y using fresh(4) [OF b k(1) cl] that k(2) by (intro assms(13)) blast
    from cache_ok_frame [OF ok this] show ?thesis using assms(7) fresh(1) b by auto
  qed
  have heads: "words h' y = g" if y: "(y, m) \<in> live h' g (fls(a := fl))" for y m
  proof -
    have "y = x \<or> (y, m) \<in> live h g fls" using y live_add(1) [OF assms(1) sub(2) assms(5-7) cl assms(10,11)] by auto
    moreover have "y \<notin> cells c n" if yl: "(y, m) \<in> live h g fls"
    proof -
      obtain b k where b: "b \<in># slots h g" "(cell_size (cpages h b), k) \<in> set CACHE_SIZE" "y \<in> cells (cpages h b) k" using yl unfolding live_iff by auto
      then show ?thesis using fresh(4) [OF b(1,2) cl] by blast
    qed
    ultimately show ?thesis using assms(12,13) D(10) by metis
  qed
  have one: "partials h' g (fls(a := fl)) i = partials h g fls i + (if i = idx \<and> fl \<noteq> [] then 1 else 0)" if "i < SIZE_CLASS_COUNT" for i
    using partials_add [OF fresh(1) assms(6,7) _ assms(9) that] assms(8) by (metis fst_conv)
  have len: "length (partial_counts (managers h g)) = SIZE_CLASS_COUNT" using D(3) by (simp add: mgr_shape_def)
  have last: "SIZE_CLASS_COUNT - 1 < SIZE_CLASS_COUNT" by (simp add: SIZE_CLASS_COUNT_def)
  have "partial_counts (managers h' g) ! i = partials h' g (fls(a := fl)) i" if i: "i < SIZE_CLASS_COUNT - 1" for i
    using one [OF less_trans [OF i last]] D(9) i len assms(9,16,17) by (auto simp: partials_ok_def nth_list_update)
  then have partials: "partials_ok h' g (fls(a := fl))" using one [OF last] D(9) assms(17) unfolding partials_ok_def by auto
  have pages: "cache_pages (cpages h' a) = cache_pages c" "b \<noteq> a \<Longrightarrow> cache_pages (cpages h' b) = cache_pages (cpages h b)" for b using assms(7) by simp_all
  have in_slots: "b \<in># slots h' g \<longleftrightarrow> b = a \<or> b \<in># slots h g" for b by (auto simp: assms(6))
  have "cache_ok (words h') b (cpages h' b) ((fls(a := fl)) b) \<and> cache_pages (cpages h' b) \<inter> set_mset F' = {} \<and> g div PAGE_SIZE \<notin> cache_pages (cpages h' b)"
    if "b \<in># slots h' g" for b
    using that old [of b] assms(5,7) pages D(7,12) [of b] fresh(1,3) sub(1,3) unfolding in_slots by (cases "b = a") auto
  moreover have "cache_pages (cpages h' b) \<inter> cache_pages (cpages h' d) = {}" if "b \<in># slots h' g" "d \<in># slots h' g" "b \<noteq> d" for b d
    using that pages(1) pages(2) [of b] pages(2) [of d] fresh(2) [of b] fresh(2) [of d] D(8) [of b d] unfolding in_slots by (cases "b = a"; cases "d = a") auto
  moreover have "count (slots h' g) b \<le> 1" for b using D(5) [of b] fresh(1) by (auto simp: assms(6) not_in_iff)
  moreover have "0 \<notin># F'" "g div PAGE_SIZE \<notin># F'" using D(2,11) sub(1) by blast+
  moreover have "used_slots (managers h' g) = size (slots h' g)" using D(4) by (simp add: assms(6,15))
  ultimately show ?thesis unfolding heap_ok_def using assms(2,14) heads partials by blast
qed

lemma slots_update:
  "i < length xs \<Longrightarrow> xs ! i = None \<Longrightarrow> mset (List.map_filter id (xs[i := Some a])) = add_mset a (mset (List.map_filter id xs))"
  by (induction xs arbitrary: i) (auto simp: map_filter_simps nth_Cons split: nat.splits option.splits)

lemma slots_full: "None \<notin> set xs \<Longrightarrow> length (List.map_filter id xs) = length xs"
proof (induction xs)
  case (Cons a xs)
  then show ?case by (cases a) (auto simp: map_filter_simps)
qed (simp add: map_filter_simps)

lemma last_class:
  assumes "(sz, n) = CACHE_SIZE ! idx" "idx < SIZE_CLASS_COUNT"
  shows "n = 2 \<longleftrightarrow> idx = SIZE_CLASS_COUNT - 1"
proof -
  have "\<forall>i \<in> {0..<14}. snd (CACHE_SIZE ! i) = 2 \<longleftrightarrow> i = 13" by (simp add: atLeastLessThan_nat_numeral CACHE_SIZE_def)
  moreover have "idx \<in> {0..<14}" using assms(2) by (simp add: SIZE_CLASS_COUNT_def)
  ultimately have "snd (CACHE_SIZE ! idx) = 2 \<longleftrightarrow> idx = 13" by (rule bspec)
  then show ?thesis unfolding assms(1) [symmetric] SIZE_CLASS_COUNT_def by simp
qed

lemma add_cache_ok:
  assumes "heap_ok rep h g fls F" "used_slots (managers h g) < SLOT_NUM" "managers h1 g = managers h g" "a \<noteq> 0"
  obtains cs where "add_cache g a h1 = Some (set_mgr g ((managers h g)\<lparr>caches := cs, used_slots := Suc (used_slots (managers h g))\<rparr>) h1)"
    "length cs = SLOT_NUM" "mset (List.map_filter id cs) = add_mset a (slots h g)"
proof -
  let ?m = "managers h g"
  have len: "length (caches ?m) = SLOT_NUM" using heap_okD(3) [OF assms(1)] by (simp add: mgr_shape_def)
  have "size (slots h g) < length (caches ?m)" using heap_okD(4) [OF assms(1)] assms(2) len by simp
  then have "None \<in> set (caches ?m)" using slots_full [of "caches ?m"] by (auto simp: slots_def)
  then obtain i where i: "position (\<lambda>c. c = None) (caches ?m) = Some i" using position_None [of "\<lambda>c. c = None" "caches ?m"] by auto
  have "i < length (caches ?m)" "caches ?m ! i = None" using position_SomeD [OF i] by auto
  from slots_update [OF this] have "mset (List.map_filter id ((caches ?m)[i := Some a])) = add_mset a (slots h g)" by (simp add: slots_def)
  moreover have "used_slots ?m + 1 < 2 ^ 64" using assms(2) by (simp add: SLOT_NUM_def)
  ultimately show thesis using i assms(3,4) len by (intro that [of "(caches ?m)[i := Some a]"]) (simp_all add: add_cache_def nonnull_def Let_def)
qed

text \<open>Fields of managers that the heap of the first manager does not depend on.\<close>

lemma heap_ok_frame:
  assumes "heap_ok rep h g fls F" "words h' = words h" "cpages h' = cpages h" "page_alloc h' = page_alloc h"
    and "managers h' g = (managers h g)\<lparr>mgr_next := nx, next_free := nf\<rparr>"
  shows "heap_ok rep h' g fls F" "live h' g fls = live h g fls" "partials h' g fls = partials h g fls" "slots h' g = slots h g"
proof -
  show slots: "slots h' g = slots h g" by (simp add: slots_def assms(5))
  show live: "live h' g fls = live h g fls" by (simp add: live_def slots assms(3))
  show part: "partials h' g fls = partials h g fls" by (simp add: partials_def fun_eq_iff slots assms(3))
  have "mgr_shape (managers h' g) = mgr_shape (managers h g)" "partials_ok h' g fls = partials_ok h g fls" by (simp_all add: mgr_shape_def partials_ok_def assms(5) part)
  then show "heap_ok rep h' g fls F" using assms(1) unfolding heap_ok_def slots live assms(2-4) by (simp add: assms(5))
qed

lemma slots_le: "length (List.map_filter id xs) \<le> length xs"
  by (induction xs) (auto simp: map_filter_simps split: option.splits)

lemma partials_pos: "a \<in># slots h g \<Longrightarrow> cell_size (cpages h a) = fst (CACHE_SIZE ! i) \<Longrightarrow> fls a \<noteq> [] \<Longrightarrow> 0 < partials h g fls i"
  unfolding partials_def nonempty_has_size [symmetric] filter_mset_eq_mempty_iff by blast

lemma partials_le: "partials h g fls i \<le> size (slots h g)"
  by (simp add: partials_def size_filter_mset_lesseq)

lemma counter_bound:
  assumes "heap_ok rep h g fls F" "i < SIZE_CLASS_COUNT" "partial_counts (managers h g) ! (SIZE_CLASS_COUNT - 1) + 1 < 2 ^ 64"
  shows "partial_counts (managers h g) ! i + 1 < 2 ^ 64"
proof (cases "i = SIZE_CLASS_COUNT - 1")
  case False
  then have "partial_counts (managers h g) ! i \<le> size (slots h g)"
    using heap_okD(9) [OF assms(1)] assms(2) partials_le [of h g fls i] by (simp add: partials_ok_def)
  also have "size (slots h g) \<le> length (caches (managers h g))" using slots_le by (simp add: slots_def)
  also have "length (caches (managers h g)) = SLOT_NUM" using heap_okD(3) [OF assms(1)] by (simp add: mgr_shape_def)
  finally show ?thesis by (simp add: SLOT_NUM_def)
qed (use assms(3) in simp)

text \<open>Blocks of these numbers of pages can be had one after the other.\<close>

fun can_alloc :: "'s al_op \<Rightarrow> 's \<Rightarrow> nat list \<Rightarrow> bool" where
  "can_alloc al s [] = True"
| "can_alloc al s (n # ns) = (case al s n of Some (Inr _, s') \<Rightarrow> can_alloc al s' ns | _ \<Rightarrow> False)"

lemma can_allocD: "can_alloc al s (n # ns) \<Longrightarrow> \<exists>p s'. al s n = Some (Inr p, s') \<and> can_alloc al s' ns"
  by (auto split: option.splits prod.splits sum.splits)

lemma manager_class_eq: "manager_class = Some ((16384, 8), 8)"
  by (simp add: manager_class_def size_to_class_def size_of_CacheManager_def SLOT_NUM_def SIZE_CLASS_COUNT_def calc_header_padding_def PTR_SIZE_def CACHE_SIZE_def)

lemma class8: "(16384, 8) = CACHE_SIZE ! 8" "(8 :: nat) < SIZE_CLASS_COUNT" "(8 :: nat) \<noteq> SIZE_CLASS_COUNT - 1" "(8 :: nat) * 16384 div PAGE_SIZE = 32"
  "calc_header_padding 8 = 0"
  by (simp_all add: CACHE_SIZE_def SIZE_CLASS_COUNT_def PAGE_SIZE_def PAGE_BITS_def calc_header_padding_def PTR_SIZE_def)

subsection \<open>Freeing\<close>

text \<open>A cell goes back to its cache, which keeps other cells in use.\<close>

lemma heap_ok_put:
  assumes "heap_ok rep h g fls F" "a \<in># slots h g" "(cell_size (cpages h a), n) = CACHE_SIZE ! idx" "idx < SIZE_CLASS_COUNT - 1"
    and "x \<in> cells (cpages h a) n" "x \<notin> set (fls a)" "same_geometry (cpages h a) c'" "cache_ok (words h') a c' (x # fls a)"
    and "cpages h' = (cpages h)(a := c')" "\<And>p. p \<noteq> x \<Longrightarrow> words h' p = words h p" "page_alloc h' = page_alloc h" "mgr_shape (managers h' g)"
    and "caches (managers h' g) = caches (managers h g)" "used_slots (managers h' g) = used_slots (managers h g)"
    and "partial_counts (managers h' g) =
      (if fls a = [] then (partial_counts (managers h g))[idx := Suc (partial_counts (managers h g) ! idx)] else partial_counts (managers h g))"
  shows "heap_ok rep h' g (fls(a := x # fls a)) F" "live h' g (fls(a := x # fls a)) = live h g fls - {(x, cell_size (cpages h a))}"
proof -
  let ?fls = "fls(a := x # fls a)"
  have idx: "idx < SIZE_CLASS_COUNT" "cell_size (cpages h a) = fst (CACHE_SIZE ! idx)" using assms(3,4) by (simp, metis fst_conv)
  have cl: "(cell_size (cpages h a), n) \<in> set CACHE_SIZE" using assms(3) idx(1) CACHE_SIZE_length by (metis nth_mem)
  have slots: "slots h' g = slots h g" by (simp add: slots_def assms(13))
  have one: "partials h' g ?fls i + (if i = idx \<and> fls a \<noteq> [] then 1 else 0) = partials h g fls i + (if i = idx then 1 else 0)"
    if "i < SIZE_CLASS_COUNT" for i using partials_one [OF assms(1,2,7,9) slots idx(2,1) that, of "x # fls a"] by simp
  note D = heap_okD [OF assms(1)]
  have pc: "\<And>i. i < SIZE_CLASS_COUNT - 1 \<Longrightarrow> partial_counts (managers h g) ! i = partials h g fls i" "partials h g fls (SIZE_CLASS_COUNT - 1) = 0"
    using D(9) unfolding partials_ok_def by blast+
  have len: "length (partial_counts (managers h g)) = SIZE_CLASS_COUNT" using D(3) by (simp add: mgr_shape_def)
  have last: "SIZE_CLASS_COUNT - 1 < SIZE_CLASS_COUNT" by (simp add: SIZE_CLASS_COUNT_def)
  have "partial_counts (managers h' g) ! i = partials h' g ?fls i" if i: "i < SIZE_CLASS_COUNT - 1" for i
    using one [OF less_trans [OF i last]] pc(1) [OF i] len idx(1) assms(15) by (auto simp: nth_list_update)
  moreover have "partials h' g ?fls (SIZE_CLASS_COUNT - 1) = 0" using one [OF last] pc(2) assms(4) by auto
  ultimately have partials: "partials_ok h' g ?fls" unfolding partials_ok_def by blast
  show "heap_ok rep h' g ?fls F"
    by (rule heap_ok_update [OF assms(1,2,7,9,8,5) cl]) (use assms(10-12,14) slots partials in auto)
  have "(y, m) \<in> live h' g ?fls \<longleftrightarrow> (y, m) \<in> live h g fls \<and> (y, m) \<noteq> (x, cell_size (cpages h a))" (is "?l \<longleftrightarrow> ?r") for y m
  proof
    assume ?l
    then obtain b k where b: "b \<in># slots h g" "m = cell_size (cpages h b)" "(m, k) \<in> set CACHE_SIZE" "y \<in> cells (cpages h b) k" "y \<notin> set (?fls b)"
      unfolding live_update [OF slots assms(9,7)] by blast
    moreover have "y \<noteq> x"
    proof
      assume "y = x"
      then have "b \<noteq> a" using b(5) by auto
      then show False using cells_apart [OF assms(1,2) b(1) _ cl _ assms(5) b(4)] b(2,3) \<open>y = x\<close> class_facts(4) [OF b(3)] class_facts(4) [OF cl] by auto
    qed
    moreover have "y \<notin> set (fls b)" using b(5) by (auto split: if_splits)
    ultimately show ?r unfolding live_iff by blast
  next
    assume r: ?r
    then obtain b k where b: "b \<in># slots h g" "m = cell_size (cpages h b)" "(m, k) \<in> set CACHE_SIZE" "y \<in> cells (cpages h b) k" "y \<notin> set (fls b)"
      unfolding live_iff by blast
    then have "y \<notin> set (?fls b)" using r by auto
    then show ?l unfolding live_update [OF slots assms(9,7)] using b by blast
  qed
  then show "live h' g ?fls = live h g fls - {(x, cell_size (cpages h a))}" by auto
qed

text \<open>The last cell in use of a cache goes back, and the pages of the cache with it.\<close>

lemma live_remove:
  assumes "heap_ok rep h g fls F" "a \<in># slots h g" "(cell_size (cpages h a), n) \<in> set CACHE_SIZE"
    and "x \<in> cells (cpages h a) n" "x \<notin> set (fls a)" "used_count (cpages h a) = 1" "cpages h' = (cpages h)(a := c')" "add_mset a (slots h' g) = slots h g"
  shows "live h' g fls = live h g fls - {(x, cell_size (cpages h a))}" "b \<in># slots h' g \<longleftrightarrow> b \<in># slots h g \<and> b \<noteq> a"
    "b \<in># slots h' g \<Longrightarrow> (cell_size (cpages h b), k) \<in> set CACHE_SIZE \<Longrightarrow> x \<notin> cells (cpages h b) k" "1 + length (fls a) = n - 1"
proof -
  note D = heap_okD [OF assms(1)] and cl = assms(3)
  have "count (slots h g) a \<le> 1" by (rule D(5))
  then have out: "a \<notin># slots h' g" unfolding assms(8) [symmetric] by (simp add: not_in_iff)
  show in_slots: "b \<in># slots h' g \<longleftrightarrow> b \<in># slots h g \<and> b \<noteq> a" for b using out unfolding assms(8) [symmetric] by auto
  have same: "b \<in># slots h' g \<Longrightarrow> cpages h' b = cpages h b" for b using out assms(7) by auto
  have ok: "cache_ok (words h) a (cpages h a) (fls a)" by (rule D(6) [OF assms(2)])
  have fl: "set (fls a) \<subseteq> cells (cpages h a) n" "1 + length (fls a) = n - 1" "distinct (fls a)"
    using ok class_count [OF cl] assms(6) unfolding cache_ok_def by auto
  have pos: "0 < cell_size (cpages h a)" using class_facts(4) [OF cl] by simp
  have cells: "cells (cpages h a) n = insert x (set (fls a))"
    using fl(1,2,3) assms(4,5) cells_card(1,2) [OF pos, of n] by (intro card_subset_eq [symmetric]) (simp_all add: distinct_card)
  show "1 + length (fls a) = n - 1" by (rule fl(2))
  show apart: "x \<notin> cells (cpages h b) k" if "b \<in># slots h' g" "(cell_size (cpages h b), k) \<in> set CACHE_SIZE" for b k
  proof -
    have "b \<in># slots h g" "b \<noteq> a" using that(1) in_slots by auto
    from cells_apart [OF assms(1,2) this(1) _ cl that(2) assms(4)] this(2) show ?thesis using class_facts(4) [OF cl] class_facts(4) [OF that(2)] by fastforce
  qed
  have live: "(y, m) \<in> live h' g fls \<longleftrightarrow> (y, m) \<in> live h g fls \<and> (y, m) \<noteq> (x, cell_size (cpages h a))" (is "?l \<longleftrightarrow> ?r") for y m
  proof
    assume ?l
    then obtain b k where b: "b \<in># slots h' g" "m = cell_size (cpages h' b)" "(m, k) \<in> set CACHE_SIZE" "y \<in> cells (cpages h' b) k - set (fls b)"
      unfolding live_iff by blast
    have "b \<in># slots h g" using b(1) in_slots by blast
    moreover have "y \<noteq> x" using apart [OF b(1), of k] b(2-4) same [OF b(1)] by auto
    ultimately show ?r using b same [OF b(1)] unfolding live_iff by auto
  next
    assume r: ?r
    then obtain b k where b: "b \<in># slots h g" "m = cell_size (cpages h b)" "(m, k) \<in> set CACHE_SIZE" "y \<in> cells (cpages h b) k - set (fls b)"
      unfolding live_iff by blast
    then have "b \<noteq> a" using cells class_count [OF cl] r by auto
    then have "b \<in># slots h' g" using b(1) in_slots by blast
    then show ?l using b same [of b] unfolding live_iff by (intro exI [of _ b] exI [of _ k]) simp
  qed
  then show "live h' g fls = live h g fls - {(x, cell_size (cpages h a))}" by auto
qed

lemma heap_ok_remove:
  assumes "heap_ok rep h g fls F" "a \<in># slots h g" "(cell_size (cpages h a), n) = CACHE_SIZE ! idx" "idx < SIZE_CLASS_COUNT"
    and "x \<in> cells (cpages h a) n" "x \<notin> set (fls a)" "used_count (cpages h a) = 1"
    and "cpages h' = (cpages h)(a := c')" "\<And>p. p \<noteq> x \<Longrightarrow> words h' p = words h p" "rep (page_alloc h') (F + mset_set (cache_pages (cpages h a)))"
    and "mgr_shape (managers h' g)" "add_mset a (slots h' g) = slots h g" "Suc (used_slots (managers h' g)) = used_slots (managers h g)"
    and "partial_counts (managers h' g) = (if idx = SIZE_CLASS_COUNT - 1 then partial_counts (managers h g)
      else (partial_counts (managers h g))[idx := partial_counts (managers h g) ! idx - 1])"
  shows "heap_ok rep h' g fls (F + mset_set (cache_pages (cpages h a)))" "live h' g fls = live h g fls - {(x, cell_size (cpages h a))}"
proof -
  have size: "cell_size (cpages h a) = fst (CACHE_SIZE ! idx)" using assms(3) by (metis fst_conv)
  have cl: "(cell_size (cpages h a), n) \<in> set CACHE_SIZE" using assms(3,4) CACHE_SIZE_length by (metis nth_mem)
  note D = heap_okD [OF assms(1)] and rm = live_remove [OF assms(1,2) cl assms(5-8,12)]
  note in_slots = rm(2) and apart = rm(3)
  show live: "live h' g fls = live h g fls - {(x, cell_size (cpages h a))}" by (rule rm(1))
  have out: "a \<notin># slots h' g" using in_slots by blast
  have same: "b \<in># slots h' g \<Longrightarrow> cpages h' b = cpages h b" for b using out assms(8) by auto
  have pos: "0 < cell_size (cpages h a)" using class_facts(4) [OF cl] by simp
  have fl: "page_start (cpages h a) = a" "a \<noteq> 0" "PAGE_SIZE dvd a" using D(6) [OF assms(2)] unfolding cache_ok_def by auto
  have others: "cache_ok (words h') b (cpages h' b) (fls b)" if b: "b \<in># slots h' g" for b
  proof -
    have okb: "cache_ok (words h) b (cpages h b) (fls b)" using D(6) b in_slots by blast
    then obtain k where k: "(cell_size (cpages h b), k) \<in> set CACHE_SIZE" "set (fls b) \<subseteq> cells (cpages h b) k" unfolding cache_ok_def by blast
    have "words h' y = words h y" if "y \<in> set (fls b)" for y using apart [OF b k(1)] k(2) that by (intro assms(9)) auto
    from cache_ok_frame [OF okb this] show ?thesis using same [OF b] by simp
  qed
  have "cpages h = (cpages h')(a := cpages h a)" using assms(8) by (simp add: fun_eq_iff)
  from partials_add [OF out assms(12) [symmetric] this size assms(4), of _ fls "fls a"]
  have one: "partials h g fls i = partials h' g fls i + (if i = idx \<and> fls a \<noteq> [] then 1 else 0)" if "i < SIZE_CLASS_COUNT" for i
    using that by simp
  have empty: "fls a = [] \<longleftrightarrow> idx = SIZE_CLASS_COUNT - 1" using rm(4) class_facts(3) [OF cl] last_class [OF assms(3,4)] by auto
  have len: "length (partial_counts (managers h g)) = SIZE_CLASS_COUNT" using D(3) by (simp add: mgr_shape_def)
  have last: "SIZE_CLASS_COUNT - 1 < SIZE_CLASS_COUNT" by (simp add: SIZE_CLASS_COUNT_def)
  have "partial_counts (managers h' g) ! i = partials h' g fls i" if i: "i < SIZE_CLASS_COUNT - 1" for i
    using one [OF less_trans [OF i last]] D(9) i len assms(4,14) empty by (auto simp: partials_ok_def nth_list_update)
  then have partials: "partials_ok h' g fls" using one [OF last] D(9) unfolding partials_ok_def by auto
  let ?F = "F + mset_set (cache_pages (cpages h a))"
  have F: "set_mset ?F = set_mset F \<union> cache_pages (cpages h a)" by (simp add: cache_pages_def)
  have "0 < a div PAGE_SIZE" using fl(2,3) by (auto simp: dvd_def)
  then have "0 \<notin># ?F" using D(2) fl(1) unfolding F by (simp add: cache_pages_def)
  moreover have "cache_pages (cpages h' b) \<inter> set_mset ?F = {} \<and> g div PAGE_SIZE \<notin> cache_pages (cpages h' b)" if "b \<in># slots h' g" for b
    using that D(7,12) [of b] D(8) [OF _ assms(2), of b] same [OF that] unfolding F in_slots by auto
  moreover have "g div PAGE_SIZE \<notin># ?F" using D(11) D(12) [OF assms(2)] unfolding F by blast
  moreover have "count (slots h' g) b \<le> 1" for b using D(5) [of b] unfolding assms(12) [symmetric] by (auto split: if_splits)
  moreover have "used_slots (managers h' g) = size (slots h' g)" using D(4) assms(13) unfolding assms(12) [symmetric] by simp
  moreover have "cache_pages (cpages h' b) \<inter> cache_pages (cpages h' d) = {}" if "b \<in># slots h' g" "d \<in># slots h' g" "b \<noteq> d" for b d
    using that D(8) [of b d] same [OF that(1)] same [OF that(2)] unfolding in_slots by auto
  moreover have "words h' y = g" if "(y, m) \<in> live h' g fls" for y m
  proof -
    have y: "(y, m) \<in> live h g fls" "(y, m) \<noteq> (x, cell_size (cpages h a))" using that live by auto
    have "(x, cell_size (cpages h a)) \<in> live h g fls" using assms(2,5,6) cl unfolding live_iff by blast
    then have "y \<noteq> x" using live_apart [OF assms(1) y(1) _ y(2)] y that unfolding live_iff using class_facts(4) pos by fastforce
    then show ?thesis using D(10) [OF y(1)] assms(9) by simp
  qed
  ultimately show "heap_ok rep h' g fls ?F" unfolding heap_ok_def using assms(10,11) others partials by blast
qed

subsection \<open>Alignment\<close>

lemma size_to_classD:
  assumes "size_to_class q = Some ((sz, n), idx)"
  shows "(sz, n) = CACHE_SIZE ! idx" "idx < SIZE_CLASS_COUNT" "q \<le> sz" "(sz, n) \<in> set CACHE_SIZE"
proof -
  have i: "position (\<lambda>(objsize, _). q \<le> objsize) CACHE_SIZE = Some idx" "CACHE_SIZE ! idx = (sz, n)" using assms by (auto simp: size_to_class_def)
  from position_SomeD [OF i(1)] i(2) show "(sz, n) = CACHE_SIZE ! idx" "idx < SIZE_CLASS_COUNT" "q \<le> sz" by (simp_all add: CACHE_SIZE_length)
  then show "(sz, n) \<in> set CACHE_SIZE" using CACHE_SIZE_length by (metis nth_mem)
qed

lemma header_padding: "0 < A \<Longrightarrow> A dvd calc_header_padding A + PTR_SIZE"
proof -
  assume A: "0 < A"
  have "8 mod A \<le> A" using A by (simp add: order_less_imp_le)
  moreover have "8 div A * A + 8 mod A = 8" by (rule div_mult_mod_eq)
  ultimately have "A - 8 mod A + 8 = A + 8 div A * A" by linarith
  then have "(A - 8 mod A + 8) mod A = 0" by simp
  then have "((A - 8 mod A) mod A + 8) mod A = 0" by (simp add: mod_add_left_eq)
  then show ?thesis unfolding calc_header_padding_def PTR_SIZE_def dvd_eq_mod_eq_0 .
qed

lemma object_place:
  assumes "size_to_class (len + calc_header_padding (2 ^ j) + PTR_SIZE) = Some ((sz, n), idx)" "j \<le> 12" "PAGE_SIZE dvd a" "x \<in> (\<lambda>i. a + i * sz) ` {1..<n}"
  shows "2 ^ j dvd object_ptr x (calc_header_padding (2 ^ j))" "x + PTR_SIZE \<le> object_ptr x (calc_header_padding (2 ^ j))"
    "object_ptr x (calc_header_padding (2 ^ j)) + len \<le> x + sz"
proof -
  let ?p = "calc_header_padding (2 ^ j)"
  note cl = size_to_classD [OF assms(1)]
  have dvd: "2 ^ j dvd ?p + PTR_SIZE" by (rule header_padding) simp
  then have "2 ^ j \<le> ?p + PTR_SIZE" by (rule dvd_imp_le) (simp add: PTR_SIZE_def)
  moreover obtain e where e: "sz = 2 ^ (e + 6)" using class_facts(1) [OF cl(4)] by blast
  ultimately have "(2 :: nat) ^ j \<le> 2 ^ (e + 6)" using cl(3) by linarith
  then have "2 ^ j dvd sz" unfolding e by (simp add: le_imp_power_dvd)
  moreover have "2 ^ j dvd PAGE_SIZE" unfolding PAGE_SIZE_def PAGE_BITS_def by (rule le_imp_power_dvd) (rule assms(2))
  ultimately have "2 ^ j dvd x" using assms(3,4) by (auto intro: dvd_trans)
  then show "2 ^ j dvd object_ptr x ?p" using dvd by (simp add: object_ptr_def)
  show "x + PTR_SIZE \<le> object_ptr x ?p" "object_ptr x ?p + len \<le> x + sz" using cl(3) by (simp_all add: object_ptr_def)
qed

subsection \<open>The run of \<^verbatim>\<open>dealloc\<close>\<close>

text \<open>The slot that \<^verbatim>\<open>dealloc\<close> finds is the one of the cache with the object.\<close>

lemma dealloc_slot:
  assumes "heap_ok rep h g fls F" "a \<in># slots h g" "(cell_size (cpages h a), n) \<in> set CACHE_SIZE" "x \<in> cells (cpages h a) n" "x \<le> ptr" "ptr < x + cell_size (cpages h a)"
  obtains i where "position (\<lambda>c. case c of Some b \<Rightarrow> in_range (cpages h b) ptr | None \<Rightarrow> False) (caches (managers h g)) = Some i"
    "i < length (caches (managers h g))" "caches (managers h g) ! i = Some a"
proof -
  let ?P = "\<lambda>c. case c of Some b \<Rightarrow> in_range (cpages h b) ptr | None \<Rightarrow> False"
  have in_pages: "ptr div PAGE_SIZE \<in> cache_pages (cpages h b)" if b: "b \<in># slots h g" "in_range (cpages h b) ptr" for b
  proof -
    have ok: "cache_ok (words h) b (cpages h b) (fls b)" by (rule heap_okD(6) [OF assms(1) b(1)])
    then obtain k where k: "(cell_size (cpages h b), k) \<in> set CACHE_SIZE" "page_start (cpages h b) = b" unfolding cache_ok_def by blast
    have "cell_at (cpages h b) 1 \<in> cells (cpages h b) k" using class_facts(3) [OF k(1)] by (auto simp: cells_def)
    from cell_bounds(5) [OF ok k(1) this] show ?thesis using b(2) k(2) by (simp add: in_range_def)
  qed
  note cb = cell_bounds [OF heap_okD(6) [OF assms(1,2)] assms(3,4)]
  have a: "in_range (cpages h a) ptr" using cb(1,2,4) assms(5,6) by (simp add: in_range_def)
  have "position ?P (caches (managers h g)) \<noteq> None" unfolding position_None using a assms(2) slots_in by force
  then obtain i where i: "position ?P (caches (managers h g)) = Some i" by blast
  from position_SomeD [OF i] obtain b where b: "i < length (caches (managers h g))" "caches (managers h g) ! i = Some b" "in_range (cpages h b) ptr"
    by (auto split: option.splits)
  have "b \<in># slots h g" using b(1,2) slots_in by (metis nth_mem)
  then have "b = a" using in_pages [OF _ b(3)] in_pages [OF assms(2) a] heap_okD(8) [OF assms(1,2)] by blast
  then show thesis using that i b by blast
qed

text \<open>The counters after \<open>mark_partial\<close>.\<close>

definition marked_counts :: "nat list \<Rightarrow> nat \<Rightarrow> nat list \<Rightarrow> nat list" where
  "marked_counts fl idx pc = (if fl = [] then pc[idx := Suc (pc ! idx)] else pc)"

lemma release_counters:
  assumes "heap_ok rep h g fls F" "a \<in># slots h g" "(cell_size (cpages h a), n) = CACHE_SIZE ! idx" "idx < SIZE_CLASS_COUNT" "used_count (cpages h a) = 1"
  defines "pc \<equiv> partial_counts (managers h g)"
  shows "0 < marked_counts (fls a) idx pc ! idx"
    "(marked_counts (fls a) idx pc)[idx := marked_counts (fls a) idx pc ! idx - 1] = (if idx = SIZE_CLASS_COUNT - 1 then pc else pc[idx := pc ! idx - 1])"
proof -
  note D = heap_okD [OF assms(1)]
  have cl: "(cell_size (cpages h a), n) \<in> set CACHE_SIZE" using assms(3,4) CACHE_SIZE_length by (metis nth_mem)
  have "used_count (cpages h a) + length (fls a) = n - 1" using D(6) [OF assms(2)] class_count [OF cl] unfolding cache_ok_def by auto
  then have "fls a = [] \<longleftrightarrow> idx = SIZE_CLASS_COUNT - 1" using assms(5) class_facts(3) [OF cl] last_class [OF assms(3,4)] by auto
  moreover have "0 < pc ! idx" if "fls a \<noteq> []" "idx \<noteq> SIZE_CLASS_COUNT - 1"
  proof -
    have "idx < SIZE_CLASS_COUNT - 1" "cell_size (cpages h a) = fst (CACHE_SIZE ! idx)" using that(2) assms(3,4) by (simp, metis fst_conv)
    then show ?thesis using partials_pos [of a h g idx fls] assms(2) that(1) D(9) unfolding partials_ok_def pc_def by simp
  qed
  moreover have "length pc = SIZE_CLASS_COUNT" using D(3) by (simp add: mgr_shape_def pc_def)
  ultimately show "0 < marked_counts (fls a) idx pc ! idx"
    "(marked_counts (fls a) idx pc)[idx := marked_counts (fls a) idx pc ! idx - 1] = (if idx = SIZE_CLASS_COUNT - 1 then pc else pc[idx := pc ! idx - 1])"
    using assms(4) by (auto simp: marked_counts_def)
qed

lemma release_cache_ok:
  assumes "heap_ok rep h g fls F" "a \<in># slots h g" "(cell_size (cpages h a), n) = CACHE_SIZE ! idx" "idx < SIZE_CLASS_COUNT"
    and "x \<in> cells (cpages h a) n" "x \<notin> set (fls a)" "used_count (cpages h a) = 1" "i < length (caches (managers h g))" "caches (managers h g) ! i = Some a"
    and "same_geometry (cpages h a) c'" "cpages h2 = (cpages h)(a := c')" "\<And>p. p \<noteq> x \<Longrightarrow> words h2 p = words h p" "page_alloc h2 = page_alloc h"
    and "managers h2 = (managers h)(g := (managers h g)\<lparr>partial_counts := marked_counts (fls a) idx (partial_counts (managers h g))\<rparr>)"
    and "fr (page_alloc h) (a div PAGE_SIZE) (page_count (cpages h a)) = Some s" "rep s (F + mset_set (cache_pages (cpages h a)))"
  obtains h3 where "release_cache fr g g True idx i a h2 = Some h3" "mgr_prev (managers h3 g) = None"
    "heap_ok rep h3 g fls (F + mset_set (cache_pages (cpages h a)))" "live h3 g fls = live h g fls - {(x, cell_size (cpages h a))}"
proof -
  let ?m = "managers h g" and ?pc = "marked_counts (fls a) idx (partial_counts (managers h g))"
  note D = heap_okD [OF assms(1)] and pcs = release_counters [OF assms(1-4,7)]
  define h3 where "h3 = h2\<lparr>page_alloc := s,
    managers := (managers h)(g := ?m\<lparr>caches := (caches ?m)[i := None], used_slots := used_slots ?m - 1, partial_counts := ?pc[idx := ?pc ! idx - 1]\<rparr>)\<rparr>"
  have shape: "mgr_prev ?m = None" "length ?pc = SIZE_CLASS_COUNT" using D(3) by (simp_all add: mgr_shape_def marked_counts_def)
  have used: "1 \<le> used_slots ?m" using D(4) assms(2) by (cases "slots h g") auto
  have "page_start (cpages h a) = a" using D(6) [OF assms(2)] by (simp add: cache_ok_def)
  then have "drop_bit PAGE_BITS (page_start c') = a div PAGE_SIZE" "page_count c' = page_count (cpages h a)"
    using assms(10) by (simp_all add: same_geometry_def drop_bit_eq_div PAGE_SIZE_def)
  then have rel: "release_cache fr g g True idx i a h2 = Some h3"
    using assms(4,11,13-15) pcs(1) shape used by (simp add: release_cache_def cache_deallocate_def set_mgr_def nth_opt_def usize_sub_def Let_def h3_def)
  have "i < length ((caches ?m)[i := None])" "(caches ?m)[i := None] ! i = None" using assms(8) by simp_all
  from slots_update [OF this, of a] have slots: "add_mset a (slots h3 g) = slots h g"
    using assms(9) list_update_id [of "caches ?m" i] by (simp add: slots_def h3_def)
  have f: "cpages h3 = (cpages h)(a := c')" "\<And>p. p \<noteq> x \<Longrightarrow> words h3 p = words h p" "rep (page_alloc h3) (F + mset_set (cache_pages (cpages h a)))"
    "mgr_shape (managers h3 g)" "Suc (used_slots (managers h3 g)) = used_slots ?m" "partial_counts (managers h3 g) = ?pc[idx := ?pc ! idx - 1]"
    using assms(11,12,16) used D(3) shape(2) by (simp_all add: h3_def mgr_shape_def)
  have "mgr_prev (managers h3 g) = None" using shape(1) by (simp add: h3_def)
  then show thesis using that rel heap_ok_remove [OF assms(1-7) f(1-4) slots f(5) trans [OF f(6) pcs(2)]] by blast
qed

lemma mgr_dealloc_ok:
  assumes "heap_ok rep h g fls F" "(x, sz) \<in> live h g fls" "layout_align l = 2 ^ j"
    and "size_to_class (layout_size l + calc_header_padding (2 ^ j) + PTR_SIZE) = Some ((sz, n), idx)" "0 < layout_size l"
    and "partial_counts (managers h g) ! (SIZE_CLASS_COUNT - 1) + 1 < 2 ^ 64"
    and "\<And>a. a \<in># slots h g \<Longrightarrow> x \<in> cells (cpages h a) n \<Longrightarrow> used_count (cpages h a) = 1 \<Longrightarrow>
      \<exists>s. fr (page_alloc h) (a div PAGE_SIZE) (page_count (cpages h a)) = Some s \<and> rep s (F + mset_set (cache_pages (cpages h a)))"
  obtains h' fls' F' where "mgr_dealloc fr g (object_ptr x (calc_header_padding (2 ^ j))) l h = Some h'" "heap_ok rep h' g fls' F'"
    "live h' g fls' = live h g fls - {(x, sz)}"
proof -
  let ?p = "calc_header_padding (2 ^ j)" and ?m = "managers h g"
  note cl = size_to_classD [OF assms(4)] and D = heap_okD [OF assms(1)]
  have "sz \<le> 2 ^ 20" using class_facts(3,5) [OF cl(4)] by (metis le_trans mult_le_mono1 mult_1 one_le_numeral)
  then have small: "layout_size l + ?p + PTR_SIZE < 2 ^ 64" using cl(3) by simp
  obtain a where a: "a \<in># slots h g" "sz = cell_size (cpages h a)" "x \<in> cells (cpages h a) n" "x \<notin> set (fls a)"
    using assms(2) class_count [OF cl(4)] unfolding live_iff by blast
  have cla: "(cell_size (cpages h a), n) \<in> set CACHE_SIZE" using cl(4) a(2) by simp
  have "x \<le> object_ptr x ?p" "object_ptr x ?p < x + cell_size (cpages h a)" using cl(3) a(2) assms(5) by (simp_all add: object_ptr_def)
  then obtain i where i: "position (\<lambda>c. case c of Some b \<Rightarrow> in_range (cpages h b) (object_ptr x ?p) | None \<Rightarrow> False) (caches ?m) = Some i"
    "i < length (caches ?m)" "caches ?m ! i = Some a" by (rule dealloc_slot [OF assms(1) a(1) cla a(3)])
  define h1 where "h1 = h\<lparr>managers := (managers h)(g := ?m\<lparr>partial_counts := marked_counts (fls a) idx (partial_counts ?m)\<rparr>)\<rparr>"
  have ok: "cache_ok (words h1) a (cpages h1 a) (fls a)" using D(6) [OF a(1)] by (simp add: h1_def)
  have h1: "cpages h1 = cpages h" "words h1 = words h" "page_alloc h1 = page_alloc h" by (simp_all add: h1_def)
  obtain c' where c': "free_obj a x h1 = Some (set_cache a c' (write_word x (free_list_head (cpages h a)) h1))"
    "cache_ok (words (write_word x (free_list_head (cpages h a)) h1)) a c' (x # fls a)" "same_geometry (cpages h a) c'" "used_count c' + length (x # fls a) = n - 1"
    using free_obj_ok [OF ok, of n x] cla a(3,4) unfolding h1 same_geometry_def by metis
  define h2 where "h2 = set_cache a c' (write_word x (free_list_head (cpages h a)) h1)"
  have free: "free_count (cpages h a) = 0 \<longleftrightarrow> fls a = []" "used_count (cpages h a) + length (fls a) = n - 1" "page_start (cpages h a) = a"
    using D(6) [OF a(1)] class_count [OF cla] unfolding cache_ok_def by auto
  have shape: "mgr_prev ?m = None" "length (partial_counts ?m) = SIZE_CLASS_COUNT" "length (caches ?m) = SLOT_NUM" using D(3) by (simp_all add: mgr_shape_def)
  have head: "words h x = g" by (rule D(10) [OF assms(2)])
  have mark: "mark_partial g g True idx a h = Some h1"
    using free(1) shape(2) cl(2) counter_bound [OF assms(1) cl(2) assms(6)] by (simp add: mark_partial_def h1_def marked_counts_def nth_opt_def set_mgr_def Let_def)
  have run: "used_count c' \<noteq> 0 \<Longrightarrow> mgr_dealloc fr g (object_ptr x ?p) l h = Some h2"
    "used_count c' = 0 \<Longrightarrow> release_cache fr g g True idx i a h2 = Some h' \<Longrightarrow> mgr_prev (managers h' g) = None \<Longrightarrow>
      mgr_dealloc fr g (object_ptr x ?p) l h = Some h'" for h'
    using small assms(4) head i shape c'(1) mark unfolding h2_def by (subst mgr_dealloc.simps,
      simp add: assms(3) object_ptr_def PTR_SIZE_def first_mgr_first is_global_allocator_def set_cache_def)+
  show thesis
  proof (cases "used_count c' = 0")
    case False
    have "n \<noteq> 2" using False c'(4) by auto
    then have idx: "idx < SIZE_CLASS_COUNT - 1" using last_class [OF cl(1,2)] cl(2) by simp
    have "heap_ok rep h2 g (fls(a := x # fls a)) F" "live h2 g (fls(a := x # fls a)) = live h g fls - {(x, sz)}"
      using heap_ok_put [OF assms(1) a(1) _ idx a(3,4) c'(3), of h2] c'(2) cl(1) a(2) D(3)
      by (simp_all add: h2_def h1_def set_cache_def write_word_def marked_counts_def mgr_shape_def)
    then show thesis using that run(1) [OF False] by blast
  next
    case True
    then have used: "used_count (cpages h a) = 1" using c'(4) free(2) by simp
    obtain s where s: "fr (page_alloc h) (a div PAGE_SIZE) (page_count (cpages h a)) = Some s" "rep s (F + mset_set (cache_pages (cpages h a)))"
      using assms(7) [OF a(1,3) used] by blast
    obtain h3 where "release_cache fr g g True idx i a h2 = Some h3" "mgr_prev (managers h3 g) = None"
      "heap_ok rep h3 g fls (F + mset_set (cache_pages (cpages h a)))" "live h3 g fls = live h g fls - {(x, cell_size (cpages h a))}"
      by (rule release_cache_ok [of rep h g fls F a n idx x i c' h2 fr s, OF assms(1) a(1) _ cl(2) a(3,4) used i(2,3) c'(3) _ _ _ _ s])
        (use cl(1) a(2) in \<open>simp_all add: h2_def h1_def set_cache_def write_word_def\<close>)
    then show thesis using that run(2) [OF True] a(2) by metis
  qed
qed

context block_allocator
begin

lemma new_cache_ok:
  assumes "heap_ok rep h g fls F" "(sz, n) = CACHE_SIZE ! idx" "idx < SIZE_CLASS_COUNT" "used_slots (managers h g) < SLOT_NUM"
    "partial_counts (managers h g) ! idx + 1 < 2 ^ 64" "alloc_pages (page_alloc h) (n * sz div PAGE_SIZE) = Some (Inr page, s)"
  obtains h' fls' F' x a where "new_cache alloc_pages g sz n idx padding h = Some (object_ptr x padding, h')" "heap_ok rep h' g fls' F'"
    "live h' g fls' = insert (x, sz) (live h g fls)" "(x, sz) \<notin> live h g fls" "PAGE_SIZE dvd a" "x \<in> (\<lambda>i. a + i * sz) ` {1..<n}"
    "used_slots (managers h' g) = Suc (used_slots (managers h g))" "mgr_next (managers h' g) = mgr_next (managers h g)" "page_alloc h' = s" "F' \<subseteq># F"
    "partial_counts (managers h' g) = (partial_counts (managers h g))[idx := Suc (partial_counts (managers h g) ! idx)]"
proof -
  let ?m = "managers h g" and ?a = "PAGE_SIZE * page"
  note D = heap_okD [OF assms(1)]
  have cl: "(sz, n) \<in> set CACHE_SIZE" using assms(2,3) CACHE_SIZE_length by (metis nth_mem)
  obtain k where k: "n * sz = 2 ^ k * PAGE_SIZE" "next_power_of_two (2 ^ k) = Some (2 ^ k)" using class_pages [OF cl] by metis
  have P: "0 < PAGE_SIZE" by (simp add: PAGE_SIZE_def)
  have al: "alloc_pages (page_alloc h) (2 ^ k) = Some (Inr page, s)" using assms(6) P by (simp add: k(1))
  obtain F' where F': "rep s F'" "F' + block k page \<subseteq># F" using alloc_block [OF D(1) al k(2)] by blast
  have "page \<in># F" using mset_subset_eqD [OF F'(2), of page] by (simp add: block_def)
  then have page: "0 < page" "page < 2 ^ 52" using D(2) free_bound [OF D(1)] by (auto intro: gr0I)
  obtain h1 c0 fl0 where h1: "CachePage_allocate alloc_pages sz n h = Some (?a, h1)" "cpages h1 = (cpages h)(?a := c0)" "managers h1 = managers h"
    "page_alloc h1 = s" "cache_ok (words h1) ?a c0 fl0" "cell_size c0 = sz" "page_count c0 = 2 ^ k" "set fl0 = cells c0 n"
    "\<And>p. p \<notin> cells c0 n \<Longrightarrow> words h1 p = words h p" by (rule CachePage_allocate_ok [of _ _ _ alloc_pages h page s, OF cl k(1) al page]) blast
  have n2: "2 \<le> n" "0 < sz" using class_facts(3,4) [OF cl] by simp_all
  have fl0: "distinct fl0" "length fl0 = n - 1" using h1(5,6,8) cells_card(1) [of c0 n] n2(2) by (auto simp: cache_ok_def simp flip: distinct_card)
  then obtain x fl where fl: "fl0 = x # fl" using n2(1) by (cases fl0) auto
  have "cache_ok (words h1) ?a (cpages h1 ?a) (x # fl)" using h1(2,5) fl by simp
  from alloc_obj_ok [OF this] obtain c where c: "alloc_obj ?a h1 = Some (Some x, set_cache ?a c h1)" "cache_ok (words h1) ?a c fl" "same_geometry c0 c"
    using h1(2) unfolding same_geometry_def by auto
  obtain cs where cs: "add_cache g ?a (set_cache ?a c h1) = Some (set_mgr g (?m\<lparr>caches := cs, used_slots := Suc (used_slots ?m)\<rparr>) (set_cache ?a c h1))"
    "length cs = SLOT_NUM" "mset (List.map_filter id cs) = add_mset ?a (slots h g)"
    by (rule add_cache_ok [OF assms(1,4), of "set_cache ?a c h1" ?a]) (use page(1) P h1(3) in \<open>auto simp: set_cache_def\<close>)
  define p where "p = (partial_counts ?m)[idx := Suc (partial_counts ?m ! idx)]"
  define m' where "m' = ?m\<lparr>caches := cs, used_slots := Suc (used_slots ?m), partial_counts := p\<rparr>"
  define h' where "h' = h1\<lparr>words := (words h1)(x := g), cpages := (cpages h)(?a := c), managers := (managers h)(g := m')\<rparr>"
  have shape: "mgr_prev ?m = None" "length (partial_counts ?m) = SIZE_CLASS_COUNT" using D(3) by (simp_all add: mgr_shape_def)
  have run: "new_cache alloc_pages g sz n idx padding h = Some (object_ptr x padding, h')"
    using h1(1,3) c(1) cs(1) shape assms(3,5) h1(2)
    by (auto simp: new_cache_def nth_opt_def is_global_allocator_def set_mgr_def set_cache_def write_word_def h'_def m'_def p_def Let_def first_mgr_first)
  note geo = same_geometry_cells [OF c(3)]
  have cells: "cells c n = insert x (set fl)" "x \<notin> set fl" "cell_size c = sz" using geo h1(6,8) fl fl0(1) by auto
  have slots: "slots h' g = add_mset ?a (slots h g)" by (simp add: slots_def h'_def m'_def cs(3))
  have ok: "cache_ok (words h') ?a c fl" using cells(2) by (intro cache_ok_frame [OF c(2)]) (auto simp: h'_def)
  have start: "page_start c = ?a" using ok by (simp add: cache_ok_def)
  have "page_count c = 2 ^ k" using c(3) h1(7) by (simp add: same_geometry_def)
  then have pages: "cache_pages c = {page..<page + 2 ^ k}" using P by (simp add: cache_pages_def start)
  then have block: "mset_set (cache_pages c) = block k page" by (simp add: block_def flip: mset_upt)
  have sub: "cache_pages c \<subseteq> set_mset F" using set_mset_mono [OF F'(2)] by (simp add: pages block_def)
  have class13: "fl = [] \<longleftrightarrow> idx = SIZE_CLASS_COUNT - 1" using fl0(2) fl n2(1) last_class [OF assms(2,3)] by auto
  have heap: "heap_ok rep h' g (fls(?a := fl)) F'"
    by (rule heap_ok_add [OF assms(1) _ _ free_once [OF D(1)] ok slots, of F' n idx x])
      (use F' block h1(3,4) cells geo assms(2,3) h1(9) D(3) cs(2) class13 in \<open>auto simp: h'_def m'_def p_def mgr_shape_def\<close>)
  have live: "live h' g (fls(?a := fl)) = insert (x, sz) (live h g fls)" "(x, sz) \<notin> live h g fls"
    using live_add [OF assms(1) sub ok slots, of n x] cells cl by (simp_all add: h'_def)
  have "x \<in> (\<lambda>i. ?a + i * sz) ` {1..<n}" using cells(1,3) by (simp add: cells_def cell_at_def [abs_def] start)
  moreover have "F' \<subseteq># F" using F'(2) by (meson mset_subset_eq_add_left subset_mset.order_trans)
  ultimately show thesis using that [OF run heap live, of ?a] h1(4) by (simp add: h'_def m'_def p_def)
qed

lemma new_cache_alloc_next:
  assumes "mgr_next (managers h g) \<noteq> None"
  shows "new_cache_alloc alloc_pages g sz n idx padding h = new_cache alloc_pages g sz n idx padding h"
  using assms by (subst new_cache_alloc.simps) (simp only: try_init_next_def if_False bind.bind_lunit)

text \<open>The first step of \<^verbatim>\<open>try_init_next\<close>: an object for the next manager, from a free cell or a new cache.\<close>

lemma manager_object:
  assumes "heap_ok rep h g fls F" "used_slots (managers h g) + 2 \<le> SLOT_NUM" "partial_counts (managers h g) ! (SIZE_CLASS_COUNT - 1) + 1 < 2 ^ 64"
    "mgr_next (managers h g) \<noteq> None" "can_alloc alloc_pages (page_alloc h) [m]" "can_alloc alloc_pages (page_alloc h) [32, m]"
  obtains h' fls' F' x where
    "alloc_class (new_cache_alloc alloc_pages) g 16384 8 8 0 h = Some (object_ptr x 0, h')"
    "heap_ok rep h' g fls' F'" "live h' g fls' = insert (x, 16384) (live h g fls)" "(x, 16384) \<notin> live h g fls"
    "used_slots (managers h' g) + 1 \<le> SLOT_NUM" "partial_counts (managers h' g) ! (SIZE_CLASS_COUNT - 1) + 1 < 2 ^ 64"
    "can_alloc alloc_pages (page_alloc h') [m]"
proof (cases "partials h g fls 8 = 0")
  case False
  obtain h' fls' x where
    r: "cache_alloc g 16384 8 0 h = Some (Some (object_ptr x 0), h')" "heap_ok rep h' g fls' F" "live h' g fls' = insert (x, 16384) (live h g fls)"
    "(x, 16384) \<notin> live h g fls" "slots h' g = slots h g" "page_alloc h' = page_alloc h"
    "partial_counts (managers h' g) ! (SIZE_CLASS_COUNT - 1) = partial_counts (managers h g) ! (SIZE_CLASS_COUNT - 1)"
    by (rule cache_alloc_ok [OF assms(1) class8(1,2) False, of 0]) blast
  have "used_slots (managers h' g) = used_slots (managers h g)" using heap_okD(4) [OF assms(1)] heap_okD(4) [OF r(2)] r(5) by simp
  then show thesis using r assms(2,3,5) by (intro that [of x h' fls' F]) (simp_all add: alloc_class_def)
next
  case True
  obtain p s where ps: "alloc_pages (page_alloc h) 32 = Some (Inr p, s)" "can_alloc alloc_pages s [m]" using can_allocD [OF assms(6)] by blast
  have slots: "used_slots (managers h g) < SLOT_NUM" using assms(2) by simp
  have al: "alloc_pages (page_alloc h) (8 * 16384 div PAGE_SIZE) = Some (Inr p, s)" unfolding class8(4) by (rule ps(1))
  obtain h' fls' F' x where
    r: "new_cache alloc_pages g 16384 8 8 0 h = Some (object_ptr x 0, h')" "heap_ok rep h' g fls' F'" "live h' g fls' = insert (x, 16384) (live h g fls)"
    "(x, 16384) \<notin> live h g fls" "used_slots (managers h' g) = Suc (used_slots (managers h g))" "page_alloc h' = s"
    "partial_counts (managers h' g) = (partial_counts (managers h g))[8 := Suc (partial_counts (managers h g) ! 8)]"
    by (rule new_cache_ok [OF assms(1) class8(1,2) slots counter_bound [OF assms(1) class8(2) assms(3)] al, of 0]) blast
  show thesis
    by (rule that [OF _ r(2-4)]) (use cache_alloc_none [OF assms(1) class8(1,2) True] new_cache_alloc_next [OF assms(4)] slots r ps(2) assms(2,3) class8(3)
      in \<open>simp_all add: alloc_class_def is_slots_full_def\<close>)
qed

text \<open>A new cache and an object of it, after the next manager where there is none yet.\<close>

lemma new_cache_alloc_ok:
  assumes "heap_ok rep h g fls F" "(sz, n) = CACHE_SIZE ! idx" "idx < SIZE_CLASS_COUNT" "used_slots (managers h g) + 2 \<le> SLOT_NUM"
    "partial_counts (managers h g) ! (SIZE_CLASS_COUNT - 1) + 1 < 2 ^ 64"
    "can_alloc alloc_pages (page_alloc h) [n * sz div PAGE_SIZE]" "can_alloc alloc_pages (page_alloc h) [32, n * sz div PAGE_SIZE]"
  obtains h' fls' F' x a M where "new_cache_alloc alloc_pages g sz n idx padding h = Some (object_ptr x padding, h')" "heap_ok rep h' g fls' F'"
    "live h' g fls' = insert (x, sz) (M \<union> live h g fls)" "(x, sz) \<notin> M \<union> live h g fls" "PAGE_SIZE dvd a" "x \<in> (\<lambda>i. a + i * sz) ` {1..<n}"
    "M = {} \<or> mgr_next (managers h g) = None \<and> (\<exists>q. mgr_next (managers h' g) = Some q \<and> M = {(q - PTR_SIZE, 16384)})"
proof -
  note goal = that
  have last: thesis if k: "heap_ok rep k g kls G" "used_slots (managers k g) + 1 \<le> SLOT_NUM" "partial_counts (managers k g) ! (SIZE_CLASS_COUNT - 1) + 1 < 2 ^ 64"
    "can_alloc alloc_pages (page_alloc k) [n * sz div PAGE_SIZE]" "new_cache_alloc alloc_pages g sz n idx padding h = new_cache alloc_pages g sz n idx padding k"
    "live k g kls = M \<union> live h g fls" "M = {} \<or> mgr_next (managers h g) = None \<and> (\<exists>q. mgr_next (managers k g) = Some q \<and> M = {(q - PTR_SIZE, 16384)})"
    for k kls G M
  proof -
    have slots: "used_slots (managers k g) < SLOT_NUM" using k(2) by simp
    obtain p s where al: "alloc_pages (page_alloc k) (n * sz div PAGE_SIZE) = Some (Inr p, s)" using can_allocD [OF k(4)] by blast
    obtain h' fls' F' x a where r: "new_cache alloc_pages g sz n idx padding k = Some (object_ptr x padding, h')" "heap_ok rep h' g fls' F'"
      "live h' g fls' = insert (x, sz) (live k g kls)" "(x, sz) \<notin> live k g kls" "PAGE_SIZE dvd a" "x \<in> (\<lambda>i. a + i * sz) ` {1..<n}"
      "mgr_next (managers h' g) = mgr_next (managers k g)"
      by (rule new_cache_ok [OF k(1) assms(2,3) slots counter_bound [OF k(1) assms(3) k(3)] al, of padding]) blast
    show thesis using r(1,3,4,7) k(5-7) by (intro goal [OF _ r(2) _ _ r(5,6), of M]) simp_all
  qed
  show thesis
  proof (cases "mgr_next (managers h g) = None")
    case False
    show thesis by (rule last [OF assms(1), of "{}"]) (use assms(4-6) new_cache_alloc_next [OF False] in auto)
  next
    case True
    define h0 where "h0 = set_mgr g ((managers h g)\<lparr>mgr_next := Some 8\<rparr>) h"
    note f0 = heap_ok_frame [OF assms(1), of h0 "next_free (managers h g)" "Some 8"]
    have ok0: "heap_ok rep h0 g fls F" "live h0 g fls = live h g fls" using f0 by (simp_all add: h0_def set_mgr_def)
    obtain h1 fls1 F1 x where h1: "alloc_class (new_cache_alloc alloc_pages) g 16384 8 8 0 h0 = Some (object_ptr x 0, h1)"
      "heap_ok rep h1 g fls1 F1" "live h1 g fls1 = insert (x, 16384) (live h0 g fls)" "(x, 16384) \<notin> live h0 g fls"
      "used_slots (managers h1 g) + 1 \<le> SLOT_NUM" "partial_counts (managers h1 g) ! (SIZE_CLASS_COUNT - 1) + 1 < 2 ^ 64"
      "can_alloc alloc_pages (page_alloc h1) [n * sz div PAGE_SIZE]"
      by (rule manager_object [OF ok0(1), of "n * sz div PAGE_SIZE"]) (use assms(4-7) in \<open>auto simp: h0_def set_mgr_def\<close>)
    define q where "q = object_ptr x 0"
    have q: "q = x + 8" "q \<noteq> 0" by (simp_all add: q_def object_ptr_def PTR_SIZE_def)
    have "q \<noteq> g" using live_not_mgr [OF h1(2), of x 16384 q] h1(3) q by simp
    define k where "k = h1\<lparr>managers := (managers h1)(q := CacheManager_default\<lparr>mgr_prev := nonnull g, next_free := next_free (managers h1 g)\<rparr>,
      g := (managers h1 g)\<lparr>mgr_next := Some q, next_free := Some q\<rparr>)\<rparr>"
    have prev: "mgr_prev (managers h1 g) = None" using heap_okD(3) [OF h1(2)] by (simp add: mgr_shape_def)
    have run: "new_cache_alloc alloc_pages g sz n idx padding h = new_cache alloc_pages g sz n idx padding k"
      using True h1(1) prev \<open>q \<noteq> g\<close> q(2) unfolding h0_def q_def [symmetric]
      by (subst new_cache_alloc.simps) (simp add: try_init_next_def manager_class_eq class8(5) Let_def nonnull_def set_mgr_def first_mgr_first k_def fun_upd_twist)
    note fk = heap_ok_frame [OF h1(2), of k "Some q" "Some q"]
    have "heap_ok rep k g fls1 F1" "live k g fls1 = insert (x, 16384) (live h g fls)" using fk h1(3) ok0(2) by (simp_all add: k_def)
    then show thesis using h1(5-7) run True q(1) by (intro last [of k fls1 F1 "{(x, 16384)}"]) (simp_all add: k_def PTR_SIZE_def)
  qed
qed

lemma mgr_alloc_ok:
  assumes "heap_ok rep h g fls F" "layout_align l = 2 ^ j" "size_to_class (layout_size l + calc_header_padding (2 ^ j) + PTR_SIZE) = Some ((sz, n), idx)"
    "used_slots (managers h g) + 2 \<le> SLOT_NUM" "partial_counts (managers h g) ! (SIZE_CLASS_COUNT - 1) + 1 < 2 ^ 64"
    "partials h g fls idx = 0 \<Longrightarrow>
      can_alloc alloc_pages (page_alloc h) [n * sz div PAGE_SIZE] \<and> can_alloc alloc_pages (page_alloc h) [32, n * sz div PAGE_SIZE]"
  obtains h' fls' F' x a M where "mgr_alloc alloc_pages g l h = Some (object_ptr x (calc_header_padding (2 ^ j)), h')" "heap_ok rep h' g fls' F'"
    "live h' g fls' = insert (x, sz) (M \<union> live h g fls)" "(x, sz) \<notin> M \<union> live h g fls" "PAGE_SIZE dvd a" "x \<in> (\<lambda>i. a + i * sz) ` {1..<n}"
    "M = {} \<or> mgr_next (managers h g) = None \<and> (\<exists>q. mgr_next (managers h' g) = Some q \<and> M = {(q - PTR_SIZE, 16384)})"
proof -
  let ?p = "calc_header_padding (2 ^ j)"
  note cl = size_to_classD [OF assms(3)]
  have "sz \<le> 2 ^ 20" using class_facts(3,5) [OF cl(4)] by (metis le_trans mult_le_mono1 mult_1 one_le_numeral)
  then have small: "layout_size l + ?p + PTR_SIZE < 2 ^ 64" using cl(3) by simp
  have run: "mgr_alloc alloc_pages g l h = alloc_class (new_cache_alloc alloc_pages) g sz n idx ?p h"
    using assms(3) small by (simp add: mgr_alloc_def assms(2) Let_def PTR_SIZE_def)
  show thesis
  proof (cases "partials h g fls idx = 0")
    case False
    obtain h' fls' x a where r: "cache_alloc g sz idx ?p h = Some (Some (object_ptr x ?p), h')" "heap_ok rep h' g fls' F"
      "live h' g fls' = insert (x, sz) (live h g fls)" "(x, sz) \<notin> live h g fls" "PAGE_SIZE dvd a" "x \<in> (\<lambda>i. a + i * sz) ` {1..<n}"
      by (rule cache_alloc_ok [OF assms(1) cl(1,2) False, of ?p]) blast
    show thesis by (rule that [OF _ r(2) _ _ r(5,6), of "{}"]) (use r(1,3,4) run in \<open>simp_all add: alloc_class_def\<close>)
  next
    case True
    have full: "\<not> is_slots_full (managers h g)" using assms(4) by (simp add: is_slots_full_def)
    have "alloc_class (new_cache_alloc alloc_pages) g sz n idx ?p h = new_cache_alloc alloc_pages g sz n idx ?p h"
      using cache_alloc_none [OF assms(1) cl(1,2) True] full by (simp add: alloc_class_def)
    then have eq: "mgr_alloc alloc_pages g l h = new_cache_alloc alloc_pages g sz n idx ?p h" using run by simp
    show thesis by (rule new_cache_alloc_ok [OF assms(1) cl(1,2) assms(4,5) conjunct1 [OF assms(6) [OF True]] conjunct2 [OF assms(6) [OF True]], of ?p])
      (rule that, unfold eq)
  qed
qed

end

text \<open>C35: an allocation of the kernel heap that fits a size class returns, with the buddy allocator behind it and a slot left
  in the first manager: the object lies in a cell that was not in use and overlaps no other cell in use, it has the alignment
  asked for, it leaves the word in front of it with the pointer to its manager, and the heap is well formed afterwards. The only
  other cell that can be taken is one for the next manager.\<close>

theorem heap_alloc_correct:
  assumes "heap_ok buddy_free h g fls F" "layout_align l = 2 ^ j" "j \<le> 12"
    and "size_to_class (layout_size l + calc_header_padding (2 ^ j) + PTR_SIZE) = Some ((sz, n), idx)"
    and "used_slots (managers h g) + 2 \<le> SLOT_NUM" "partial_counts (managers h g) ! (SIZE_CLASS_COUNT - 1) + 1 < 2 ^ 64"
    and "partials h g fls idx = 0 \<Longrightarrow> can_alloc buddy_alloc_pages (page_alloc h) [n * sz div PAGE_SIZE] \<and>
      can_alloc buddy_alloc_pages (page_alloc h) [32, n * sz div PAGE_SIZE]"
  shows "\<exists>ptr h' fls' F' x M. mgr_alloc buddy_alloc_pages g l h = Some (ptr, h') \<and> heap_ok buddy_free h' g fls' F' \<and>
    live h' g fls' = insert (x, sz) (M \<union> live h g fls) \<and> (\<forall>(y, m) \<in> M \<union> live h g fls. x + sz \<le> y \<or> y + m \<le> x) \<and>
    x + PTR_SIZE \<le> ptr \<and> ptr + layout_size l \<le> x + sz \<and> 2 ^ j dvd ptr \<and> words h' x = g \<and>
    (M = {} \<or> mgr_next (managers h g) = None \<and> (\<exists>q. mgr_next (managers h' g) = Some q \<and> M = {(q - PTR_SIZE, 16384)}))"
proof -
  obtain h' fls' F' x a M where r: "mgr_alloc buddy_alloc_pages g l h = Some (object_ptr x (calc_header_padding (2 ^ j)), h')"
    "heap_ok buddy_free h' g fls' F'" "live h' g fls' = insert (x, sz) (M \<union> live h g fls)" "(x, sz) \<notin> M \<union> live h g fls" "PAGE_SIZE dvd a"
    "x \<in> (\<lambda>i. a + i * sz) ` {1..<n}"
    "M = {} \<or> mgr_next (managers h g) = None \<and> (\<exists>q. mgr_next (managers h' g) = Some q \<and> M = {(q - PTR_SIZE, 16384)})"
    by (rule buddy_block.mgr_alloc_ok [OF assms(1,2,4-7)]) blast
  have "x + sz \<le> y \<or> y + m \<le> x" if "(y, m) \<in> M \<union> live h g fls" for y m
    using live_apart [OF r(2), of x sz y m] r(3,4) that by auto
  moreover have "words h' x = g" using heap_okD(10) [OF r(2), of x sz] r(3) by simp
  ultimately show ?thesis using r(1-3,7) object_place [OF assms(4,3) r(5,6)] by blast
qed

text \<open>A heap with one cache of the class of 256 KiB at page 100, two of its three cells in use.\<close>

definition demo_cache :: CachePage where
  "demo_cache = \<lparr>page_start = 409600, page_count = 256, cell_size = 262144, free_count = 1, used_count = 2, free_list_head = 1196032\<rparr>"

definition demo_mgr :: CacheManager where
  "demo_mgr = CacheManager_default\<lparr>caches := Some 409600 # replicate 1023 None, partial_counts := (replicate 14 0)[12 := 1], used_slots := 1\<rparr>"

definition demo_heap :: "'s \<Rightarrow> 's Heap" where
  "demo_heap s = \<lparr>words = (\<lambda>_. 0)(671744 := 4096, 933888 := 4096), cpages = \<lambda>_. demo_cache, managers = \<lambda>_. demo_mgr, page_alloc = s\<rparr>"

definition demo_free :: "nat \<Rightarrow> nat list" where
  "demo_free _ = [1196032]"

lemma demo_slots: "slots (demo_heap s) 4096 = {#409600#}"
proof -
  have "List.map_filter id (replicate n None) = []" for n :: nat by (induction n) (simp_all add: map_filter_simps)
  then show ?thesis by (simp add: slots_def demo_heap_def demo_mgr_def map_filter_simps)
qed

lemma demo_cells: "(262144, n) \<in> set CACHE_SIZE \<Longrightarrow> n = 4" "cells demo_cache 4 = {671744, 933888, 1196032}"
  by (auto simp: CACHE_SIZE_def cells_def cell_at_def demo_cache_def atLeastLessThan_nat_numeral)

lemma demo_live: "live (demo_heap s) 4096 demo_free = {(671744, 262144), (933888, 262144)}"
proof -
  have simps: "cpages (demo_heap s) a = demo_cache" "cell_size demo_cache = 262144" "set (demo_free a) = {1196032}" for a
    by (simp_all add: demo_heap_def demo_cache_def demo_free_def)
  have "(x, m) \<in> live (demo_heap s) 4096 demo_free \<longleftrightarrow> m = 262144 \<and> (\<exists>n. (262144, n) \<in> set CACHE_SIZE \<and> x \<in> cells demo_cache n - {1196032})" for x m
    unfolding live_iff demo_slots simps by (cases "m = 262144") simp_all
  moreover have "(262144, n) \<in> set CACHE_SIZE \<longleftrightarrow> n = 4" for n using demo_cells(1) by (auto simp: CACHE_SIZE_def)
  moreover have "x \<in> cells demo_cache 4 - {1196032} \<longleftrightarrow> x \<in> {671744, 933888}" for x unfolding demo_cells(2) by auto
  ultimately have "(x, m) \<in> live (demo_heap s) 4096 demo_free \<longleftrightarrow> m = 262144 \<and> x \<in> {671744, 933888}" for x m by simp
  then show ?thesis by auto
qed

lemma demo_partials: "partials (demo_heap s) 4096 demo_free i = (if fst (CACHE_SIZE ! i) = 262144 then 1 else 0)"
  by (simp add: partials_def demo_slots) (simp add: demo_heap_def demo_cache_def demo_free_def)

lemma demo_heap_ok:
  assumes "rep s F" "set_mset F \<subseteq> {16..<24}"
  shows "heap_ok rep (demo_heap s) 4096 demo_free F"
proof -
  have "(262144, 4) \<in> set CACHE_SIZE" by (simp add: CACHE_SIZE_def)
  then have ok: "cache_ok (words (demo_heap s)) 409600 demo_cache (demo_free a)" for a
    unfolding cache_ok_def using demo_cells(2) by (auto simp: demo_cache_def demo_free_def demo_heap_def PAGE_SIZE_def PAGE_BITS_def intro!: exI [of _ 4])
  have pages: "cache_pages demo_cache = {100..<356}" by (simp add: cache_pages_def demo_cache_def PAGE_SIZE_def PAGE_BITS_def)
  have "\<forall>i \<in> {0..<13}. partial_counts demo_mgr ! i = (if fst (CACHE_SIZE ! i) = 262144 then 1 else 0)"
    by (simp add: atLeastLessThan_nat_numeral CACHE_SIZE_def demo_mgr_def)
  then have "partials_ok (demo_heap s) 4096 demo_free" unfolding partials_ok_def demo_partials by (simp add: SIZE_CLASS_COUNT_def demo_heap_def CACHE_SIZE_def)
  moreover have "mgr_shape demo_mgr" by (simp add: mgr_shape_def demo_mgr_def CacheManager_default_def SLOT_NUM_def SIZE_CLASS_COUNT_def)
  ultimately show ?thesis unfolding heap_ok_def demo_slots demo_live using assms ok pages
    by (auto simp: demo_heap_def demo_mgr_def PAGE_SIZE_def PAGE_BITS_def)
qed

theorem heap_alloc_correct_witness:
  "\<exists>a ptr h'. boot8 = Some a \<and> mgr_alloc buddy_alloc_pages 4096 \<lparr>layout_size = 200000, layout_align = 4096\<rparr> (demo_heap a) = Some (ptr, h') \<and> 4096 dvd ptr"
proof -
  obtain a fl where a: "boot8 = Some a" "buddy_rep 0 a [fl] []" "all_free (zones a) [fl] = mset [16..<24]" using boot8_rep by metis
  then have "buddy_free a (mset [16..<24])" unfolding buddy_free_def by metis
  then have ok: "heap_ok buddy_free (demo_heap a) 4096 demo_free (mset [16..<24])" by (rule demo_heap_ok) simp
  have "\<exists>ptr h' fls' F' x M. mgr_alloc buddy_alloc_pages 4096 \<lparr>layout_size = 200000, layout_align = 4096\<rparr> (demo_heap a) = Some (ptr, h') \<and>
    heap_ok buddy_free h' 4096 fls' F' \<and> live h' 4096 fls' = insert (x, 262144) (M \<union> live (demo_heap a) 4096 demo_free) \<and>
    (\<forall>(y, m) \<in> M \<union> live (demo_heap a) 4096 demo_free. x + 262144 \<le> y \<or> y + m \<le> x) \<and>
    x + PTR_SIZE \<le> ptr \<and> ptr + layout_size \<lparr>layout_size = 200000, layout_align = 4096\<rparr> \<le> x + 262144 \<and> 2 ^ 12 dvd ptr \<and> words h' x = 4096 \<and>
    (M = {} \<or> mgr_next (managers (demo_heap a) 4096) = None \<and> (\<exists>q. mgr_next (managers h' 4096) = Some q \<and> M = {(q - PTR_SIZE, 16384)}))"
  proof (rule heap_alloc_correct [OF ok, of _ 12 262144 4 12])
    have "partials (demo_heap a) 4096 demo_free 12 = 1" by (simp add: demo_partials CACHE_SIZE_def)
    then show "can_alloc buddy_alloc_pages (page_alloc (demo_heap a)) [4 * 262144 div PAGE_SIZE] \<and>
      can_alloc buddy_alloc_pages (page_alloc (demo_heap a)) [32, 4 * 262144 div PAGE_SIZE]" if "partials (demo_heap a) 4096 demo_free 12 = 0" using that by simp
  qed (simp_all add: size_to_class_def calc_header_padding_def PTR_SIZE_def CACHE_SIZE_def demo_heap_def demo_mgr_def SLOT_NUM_def SIZE_CLASS_COUNT_def)
  then show ?thesis using a(1) by fastforce
qed



section \<open>The second manager\<close>

text \<open>A manager that is full hands the allocation to the next one with a free slot.\<close>

definition second_serves :: "'s Heap \<Rightarrow> nat \<Rightarrow> nat \<Rightarrow> nat \<Rightarrow> bool" where
  "second_serves h f m idx \<longleftrightarrow> f \<noteq> m \<and> m \<noteq> 0 \<and> mgr_prev (managers h f) = None \<and> mgr_prev (managers h m) = Some f \<and>
     used_slots (managers h f) = SLOT_NUM \<and> next_free (managers h f) = Some m \<and> mgr_next (managers h m) \<noteq> None \<and>
     length (partial_counts (managers h f)) = SIZE_CLASS_COUNT \<and> length (partial_counts (managers h m)) = SIZE_CLASS_COUNT \<and>
     length (next_partial_free (managers h f)) = SIZE_CLASS_COUNT \<and> length (next_partial_free (managers h m)) = SIZE_CLASS_COUNT \<and>
     partial_counts (managers h f) ! idx = 0 \<and> partial_counts (managers h m) ! idx = 0 \<and> next_partial_free (managers h f) ! idx = None \<and>
     None \<in> set (caches (managers h m)) \<and> used_slots (managers h m) < SLOT_NUM \<and>
     (\<forall>c. Some c \<in> set (caches (managers h m)) \<longrightarrow> cell_size (cpages h c) \<noteq> fst (CACHE_SIZE ! idx))"

lemma first_mgr_second: "mgr_prev (managers h m) = Some f \<Longrightarrow> mgr_prev (managers h f) = None \<Longrightarrow> first_mgr h m = Some f"
  by (subst first_mgr.simps) (simp add: first_mgr_first)

text \<open>The new cache of the second manager for the largest class: full, but its manager is the head of the list of managers with a
  free cell.\<close>

lemma largest_class_new_cache:
  assumes "second_serves h f m 13" "al (page_alloc h) 256 = Some (Inr page, s)" "0 < page" "page < 2 ^ 52"
  obtains ptr h' c i where "new_cache al m 524288 2 13 padding h = Some (ptr, h')" "free_count c = 0" "cpages h' = (cpages h)(PAGE_SIZE * page := c)"
    "caches (managers h' m) = (caches (managers h m))[i := Some (PAGE_SIZE * page)]"
    "partial_counts (managers h' m) = (partial_counts (managers h m))[13 := 1]"
    "managers h' f = (managers h f)\<lparr>next_partial_free := (next_partial_free (managers h f))[13 := Some m],
      next_free := (if Suc (used_slots (managers h m)) = SLOT_NUM then next_free (managers h m) else Some m)\<rparr>"
proof -
  let ?f = "managers h f" and ?m = "managers h m" and ?a = "PAGE_SIZE * page"
  note S = assms(1) [unfolded second_serves_def]
  have cl: "(524288, 2) \<in> set CACHE_SIZE" "(13 :: nat) < SIZE_CLASS_COUNT" by (simp_all add: CACHE_SIZE_def SIZE_CLASS_COUNT_def)
  have pages: "2 * 524288 = (2 :: nat) ^ 8 * PAGE_SIZE" by (simp add: PAGE_SIZE_def PAGE_BITS_def)
  have "(256 :: nat) = 2 ^ 8" by simp
  then have al: "al (page_alloc h) (2 ^ 8) = Some (Inr page, s)" using assms(2) by (simp only:)
  obtain h1 c0 fl0 where h1: "CachePage_allocate al 524288 2 h = Some (?a, h1)" "cpages h1 = (cpages h)(?a := c0)" "managers h1 = managers h"
    "cache_ok (words h1) ?a c0 fl0" "cell_size c0 = 524288" "set fl0 = cells c0 2"
    by (rule CachePage_allocate_ok [of _ _ _ al h page s, OF cl(1) pages(1) al assms(3,4)]) blast
  have "length fl0 = 1" using h1(4-6) cells_card(1) [of c0 2] by (auto simp: cache_ok_def simp flip: distinct_card)
  then obtain x where x: "fl0 = [x]" by (metis One_nat_def length_0_conv length_Suc_conv)
  have "cache_ok (words h1) ?a (cpages h1 ?a) [x]" using h1(2,4) x by simp
  from alloc_obj_ok [OF this] obtain c where c: "alloc_obj ?a h1 = Some (Some x, set_cache ?a c h1)" "cache_ok (words h1) ?a c []" by blast
  have full: "free_count c = 0" using c(2) by (simp add: cache_ok_def)
  obtain i where i: "position (\<lambda>c. c = None) (caches ?m) = Some i" using S position_None [of "\<lambda>c. c = None" "caches ?m"] by auto
  define m' where "m' = ?m\<lparr>next_partial_free := (next_partial_free ?m)[13 := None], caches := (caches ?m)[i := Some ?a], used_slots := Suc (used_slots ?m),
    partial_counts := (partial_counts ?m)[13 := 1]\<rparr>"
  define f' where "f' = ?f\<lparr>next_partial_free := (next_partial_free ?f)[13 := Some m],
      next_free := (if Suc (used_slots ?m) = SLOT_NUM then next_free ?m else Some m)\<rparr>"
  define h' where "h' = h1\<lparr>words := (words h1)(x := m), cpages := (cpages h)(?a := c), managers := (managers h)(m := m', f := f')\<rparr>"
  have fits: "used_slots ?m + 1 < 2 ^ 64" using S by (simp add: SLOT_NUM_def)
  have nf: "?f\<lparr>next_partial_free := X, next_free := Some m\<rparr> = ?f\<lparr>next_partial_free := X\<rparr>" for X using S by (cases ?f) auto
  have "new_cache al m 524288 2 13 padding h = Some (object_ptr x padding, h')"
    using h1(1-3) c(1) i S cl(2) assms(3) fits
    by (simp add: nf new_cache_def nth_opt_def is_global_allocator_def is_slots_full_def add_cache_def nonnull_def set_mgr_def set_cache_def write_word_def
      first_mgr_second Let_def PAGE_SIZE_def fun_upd_twist h'_def m'_def f'_def)
  then show thesis using that full S by (simp add: h'_def m'_def f'_def)
qed


definition demo_two :: "unit Heap" where
  "demo_two = \<lparr>words = \<lambda>_. 0, cpages = \<lambda>_. demo_cache,
     managers = (\<lambda>_. CacheManager_default\<lparr>mgr_prev := Some 4096, mgr_next := Some 8\<rparr>)
       (4096 := CacheManager_default\<lparr>mgr_next := Some 8192, next_free := Some 8192, used_slots := SLOT_NUM\<rparr>), page_alloc = ()\<rparr>"


end
